(* ===== verification/Prelude.thy ===== *)
theory Prelude
  imports Main "HOL-Library.Word" "HOL-Library.Monad_Syntax"
begin

text \<open>
  Shared vocabulary of the development.

  Machine integers appear in two forms.  Where bitwise structure or a width below 64 bits
  matters they are HOL words.  Addresses, sizes and counters of type \<open>uintptr_t\<close>, \<open>size_t\<close>
  and \<open>uint64_t\<close> are naturals, and every C addition or subtraction on them goes through
  \<open>u64_add\<close> and \<open>u64_sub\<close> below, which reduce modulo \<open>2^64\<close> as the hardware does.

  A C function that can halt the machine (\<open>panic\<close>, a failed \<open>ASSERT\<close>), touch memory outside
  an array or loop for ever returns an option here: \<open>None\<close> is "the call does not return
  normally".  Theorems that a call returns are therefore part of each contract.
\<close>

unbundle bit_operations_syntax

named_theorems wrap_simps \<open>arithmetic that does not wrap\<close>

section \<open>Machine integers\<close>

type_synonym u8 = "8 word"
type_synonym u16 = "16 word"
type_synonym u32 = "32 word"
type_synonym u64 = "64 word"

abbreviation U64_MOD :: nat where
  "U64_MOD \<equiv> 18446744073709551616"

abbreviation UINTPTR_MAX :: nat where
  "UINTPTR_MAX \<equiv> 18446744073709551615"

abbreviation UINT32_MAX :: nat where
  "UINT32_MAX \<equiv> 4294967295"

definition u64_add :: "nat \<Rightarrow> nat \<Rightarrow> nat" where
  "u64_add a b = (a + b) mod U64_MOD"

definition u64_sub :: "nat \<Rightarrow> nat \<Rightarrow> nat" where
  "u64_sub a b = (a + (U64_MOD - b)) mod U64_MOD"

definition u64_mul :: "nat \<Rightarrow> nat \<Rightarrow> nat" where
  "u64_mul a b = (a * b) mod U64_MOD"

definition u32_add :: "nat \<Rightarrow> nat \<Rightarrow> nat" where
  "u32_add a b = (a + b) mod 4294967296"

definition u32_sub :: "nat \<Rightarrow> nat \<Rightarrow> nat" where
  "u32_sub a b = (a + (4294967296 - b)) mod 4294967296"

lemma u64_add_eq [wrap_simps]: "a + b < U64_MOD \<Longrightarrow> u64_add a b = a + b"
  by (simp add: u64_add_def)

lemma u64_sub_eq [wrap_simps]: "b \<le> a \<Longrightarrow> a < U64_MOD \<Longrightarrow> u64_sub a b = a - b"
proof -
  assume b: "b \<le> a" and a: "a < U64_MOD"
  then have "a + (U64_MOD - b) = (a - b) + U64_MOD" by simp
  then have "u64_sub a b = ((a - b) + U64_MOD) mod U64_MOD" by (simp only: u64_sub_def)
  also have "\<dots> = a - b" using a by simp
  finally show ?thesis .
qed

lemma u64_mul_eq [wrap_simps]: "a * b < U64_MOD \<Longrightarrow> u64_mul a b = a * b"
  by (simp add: u64_mul_def)

lemma u32_add_eq [wrap_simps]: "a + b < 4294967296 \<Longrightarrow> u32_add a b = a + b"
  by (simp add: u32_add_def)

lemma u32_sub_eq [wrap_simps]: "b \<le> a \<Longrightarrow> a < 4294967296 \<Longrightarrow> u32_sub a b = a - b"
proof -
  assume b: "b \<le> a" and a: "a < 4294967296"
  then have "a + (4294967296 - b) = (a - b) + 4294967296" by simp
  then have "u32_sub a b = ((a - b) + 4294967296) mod 4294967296" by (simp only: u32_sub_def)
  also have "\<dots> = a - b" using a by simp
  finally show ?thesis .
qed

section \<open>Arrays as functions\<close>

text \<open>\<open>fill f b n v\<close> is the effect of the loop \<open>for i < n: f[b + i] = v\<close>.\<close>

definition fill :: "(nat \<Rightarrow> 'a) \<Rightarrow> nat \<Rightarrow> nat \<Rightarrow> 'a \<Rightarrow> nat \<Rightarrow> 'a" where
  "fill f b n v = (\<lambda>i. if b \<le> i \<and> i < b + n then v else f i)"

lemma fill_in [simp]: "b \<le> i \<Longrightarrow> i < b + n \<Longrightarrow> fill f b n v i = v"
  by (simp add: fill_def)

lemma fill_out [simp]: "i < b \<or> b + n \<le> i \<Longrightarrow> fill f b n v i = f i"
  by (auto simp: fill_def)

section \<open>Powers of two\<close>

lemma pow2_dvd_less_step:
  fixes a b :: nat
  assumes "d dvd a" "d dvd b" "a < b"
  shows "a + d \<le> b"
proof -
  from assms(1,2) obtain x y where xy: "a = d * x" "b = d * y" by (auto simp: dvd_def)
  with assms(3) have "x < y" by simp
  then have "Suc x \<le> y" by simp
  then have "d * Suc x \<le> d * y" by (rule mult_le_mono2)
  then show ?thesis by (simp add: xy)
qed

lemma unset_bit_nat_eq:
  fixes a :: nat
  assumes "bit a k"
  shows "unset_bit k a = a - 2 ^ k"
proof -
  have "a = set_bit k (unset_bit k a)"
    using assms by (intro bit_eqI) (auto simp: bit_set_bit_iff bit_unset_bit_iff)
  also have "\<dots> = unset_bit k a + 2 ^ k"
    by (simp add: set_bit_eq bit_unset_bit_iff)
  finally show ?thesis by simp
qed

lemma xor_pow2_eq:
  fixes a :: nat
  shows "a XOR 2 ^ k = (if bit a k then a - 2 ^ k else a + 2 ^ k)"
proof -
  have "a XOR 2 ^ k = flip_bit k a" by (simp add: flip_bit_eq_xor push_bit_eq_mult)
  then show ?thesis
    by (simp add: flip_bit_eq_if set_bit_eq unset_bit_nat_eq)
qed

lemma aligned_bit_iff:
  fixes a :: nat
  assumes "2 ^ k dvd a"
  shows "bit a k \<longleftrightarrow> \<not> 2 ^ Suc k dvd a"
proof -
  from assms obtain q where q: "a = 2 ^ k * q" ..
  have "bit a k \<longleftrightarrow> odd q" by (simp add: q bit_iff_odd)
  moreover have "2 ^ Suc k dvd a \<longleftrightarrow> even q" by (simp add: q mult.commute)
  ultimately show ?thesis by simp
qed

section \<open>Distinct lists of bounded numbers\<close>

lemma distinct_bounded_length:
  assumes "distinct xs" "\<forall>x\<in>set xs. x < (n::nat)"
  shows "length xs \<le> n"
proof -
  have "length xs = card (set xs)" using assms(1) by (simp add: distinct_card)
  also have "\<dots> \<le> card {..<n}" using assms(2) by (intro card_mono) auto
  finally show ?thesis by simp
qed

lemma length_filter_strict:
  assumes "\<forall>x\<in>set xs. P x \<longrightarrow> Q x" "\<exists>x\<in>set xs. Q x \<and> \<not> P x"
  shows "length (filter P xs) < length (filter Q xs)"
  using assms
proof (induction xs)
  case (Cons x xs)
  have "length (filter P xs) \<le> length (filter Q xs)"
    using Cons.prems(1) by (induction xs) auto
  then show ?case using Cons by (cases "Q x \<and> \<not> P x") auto
qed simp

end
