(* ===== verification/PmmState.thy ===== *)
theory PmmState
  imports Prelude
begin

text \<open>
  The state of the physical memory manager (\<open>kernel/mm/pmm.c\<close>) and its lowest layer: size
  helpers, the intrusive doubly linked free lists, and the per-page state array.

  The free lists are modelled at pointer level: \<open>mem\<close> holds the \<open>struct free_block\<close> header
  that the code stores in the first bytes of each free block, and \<open>free_lists\<close> holds the head
  pointers (0 is \<open>NULL\<close>).  \<open>dll\<close> relates this heap to plain lists, and the lemmas below show
  that the three list operations refine \<open>#\<close>, \<open>remove1\<close> and \<open>tl\<close>.
\<close>

section \<open>Constants and state\<close>

abbreviation PAGE_SIZE :: nat where "PAGE_SIZE \<equiv> 4096"

abbreviation MAX_ORDER :: nat where "MAX_ORDER \<equiv> 19"

abbreviation PMM_ALLOC_FAIL :: nat where "PMM_ALLOC_FAIL \<equiv> UINTPTR_MAX"

datatype block_status = BLOCK_FREE | BLOCK_ALLOCATED | BLOCK_SPLIT

record free_block =
  fb_next :: nat
  fb_prev :: nat

text \<open>
  \<open>max_blocks\<close> is the platform constant \<open>MAX_BLOCKS\<close> (the length of \<open>block_state[]\<close>), which no
  operation changes.
\<close>

record buddy_state =
  free_lists :: "nat \<Rightarrow> nat"
  free_counts :: "nat \<Rightarrow> nat"
  heap_start :: nat
  heap_end :: nat
  total_pages :: nat
  free_pages :: nat
  reserved_pages :: nat
  alloc_count :: nat
  free_count :: nat
  split_count :: nat
  merge_count :: nat
  pmm_initialized :: bool
  block_state :: "nat \<Rightarrow> block_status"
  mem :: "nat \<Rightarrow> free_block"
  max_blocks :: nat

section \<open>Helper functions\<close>

definition page_align_up :: "nat \<Rightarrow> nat" where
  "page_align_up a = u64_add a (PAGE_SIZE - 1) div PAGE_SIZE * PAGE_SIZE"

text \<open>
  The loop of \<open>log2_ceil\<close>: \<open>val <<= 1\<close> drops the top bit, so for \<open>n > 2^63\<close> the loop reaches
  \<open>val = 0\<close> and never ends; \<open>None\<close> is that outcome.
\<close>

partial_function (option) log2_ceil_loop :: "nat \<Rightarrow> nat \<Rightarrow> nat \<Rightarrow> nat option" where
  "log2_ceil_loop n val order =
     (if val < n then log2_ceil_loop n (val * 2 mod U64_MOD) (u32_add order 1) else Some order)"

definition log2_ceil :: "nat \<Rightarrow> nat option" where
  "log2_ceil n = (if n \<le> 1 then Some 0 else log2_ceil_loop n 1 0)"

definition order_to_pages :: "nat \<Rightarrow> nat" where
  "order_to_pages ord = 2 ^ ord"

definition order_to_size :: "nat \<Rightarrow> nat" where
  "order_to_size ord = order_to_pages ord * PAGE_SIZE"

definition addr_to_block_index :: "buddy_state \<Rightarrow> nat \<Rightarrow> nat option" where
  "addr_to_block_index s addr =
     (let idx = u64_sub addr (heap_start s) div PAGE_SIZE
      in if idx < max_blocks s then Some idx else None)"

definition block_index_to_addr :: "buddy_state \<Rightarrow> nat \<Rightarrow> nat" where
  "block_index_to_addr s index = u64_add (heap_start s) (index * PAGE_SIZE mod U64_MOD)"

definition get_buddy_addr :: "nat \<Rightarrow> nat \<Rightarrow> nat" where
  "get_buddy_addr addr ord = addr XOR order_to_size ord"

definition is_aligned_to_order :: "nat \<Rightarrow> nat \<Rightarrow> bool" where
  "is_aligned_to_order addr ord \<longleftrightarrow> addr AND (order_to_size ord - 1) = 0"

section \<open>Free list operations\<close>

definition free_list_add :: "buddy_state \<Rightarrow> nat \<Rightarrow> nat \<Rightarrow> buddy_state" where
  "free_list_add s addr ord =
     (let head = free_lists s ord;
          m1 = (mem s)(addr := \<lparr>fb_next = head, fb_prev = 0\<rparr>);
          m2 = (if head \<noteq> 0 then m1(head := (m1 head)\<lparr>fb_prev := addr\<rparr>) else m1)
      in s\<lparr>mem := m2,
           free_lists := (free_lists s)(ord := addr),
           free_counts := (free_counts s)(ord := u64_add (free_counts s ord) 1)\<rparr>)"

definition free_list_remove :: "buddy_state \<Rightarrow> nat \<Rightarrow> nat \<Rightarrow> buddy_state" where
  "free_list_remove s addr ord =
     (let b = mem s addr;
          m1 = (if fb_prev b \<noteq> 0
                then (mem s)(fb_prev b := (mem s (fb_prev b))\<lparr>fb_next := fb_next b\<rparr>)
                else mem s);
          fl = (if fb_prev b \<noteq> 0 then free_lists s else (free_lists s)(ord := fb_next b));
          m2 = (if fb_next b \<noteq> 0
                then m1(fb_next b := (m1 (fb_next b))\<lparr>fb_prev := fb_prev b\<rparr>)
                else m1)
      in s\<lparr>mem := m2,
           free_lists := fl,
           free_counts := (free_counts s)(ord := u64_sub (free_counts s ord) 1)\<rparr>)"

definition free_list_pop :: "buddy_state \<Rightarrow> nat \<Rightarrow> nat \<times> buddy_state" where
  "free_list_pop s ord =
     (let blk = free_lists s ord
      in if blk = 0 then (PMM_ALLOC_FAIL, s)
         else
           (let nxt = fb_next (mem s blk);
                m1 = (if nxt \<noteq> 0 then (mem s)(nxt := (mem s nxt)\<lparr>fb_prev := 0\<rparr>) else mem s);
                m2 = m1(blk := \<lparr>fb_next = 0, fb_prev = 0\<rparr>)
            in (blk, s\<lparr>mem := m2,
                       free_lists := (free_lists s)(ord := nxt),
                       free_counts := (free_counts s)(ord := u64_sub (free_counts s ord) 1)\<rparr>)))"

section \<open>Block state tracking\<close>

definition set_block_state ::
  "buddy_state \<Rightarrow> nat \<Rightarrow> nat \<Rightarrow> block_status \<Rightarrow> buddy_state option" where
  "set_block_state s addr ord st =
     (case addr_to_block_index s addr of
        None \<Rightarrow> None
      | Some base_index \<Rightarrow>
          if base_index + order_to_pages ord \<le> max_blocks s
          then Some (s\<lparr>block_state := fill (block_state s) base_index (order_to_pages ord) st\<rparr>)
          else None)"

definition get_block_state :: "buddy_state \<Rightarrow> nat \<Rightarrow> block_status option" where
  "get_block_state s addr = map_option (block_state s) (addr_to_block_index s addr)"

text \<open>The scan of \<open>is_buddy_free\<close>; reading past \<open>block_state[]\<close> is \<open>None\<close>.\<close>

fun pages_free_from :: "buddy_state \<Rightarrow> nat \<Rightarrow> nat \<Rightarrow> bool option" where
  "pages_free_from s i 0 = Some True"
| "pages_free_from s i (Suc n) =
     (if i < max_blocks s
      then if block_state s i \<noteq> BLOCK_FREE then Some False else pages_free_from s (Suc i) n
      else None)"

definition is_buddy_free :: "buddy_state \<Rightarrow> nat \<Rightarrow> nat \<Rightarrow> bool option" where
  "is_buddy_free s buddy_addr ord =
     (if buddy_addr < heap_start s \<or> heap_end s \<le> buddy_addr then Some False
      else case addr_to_block_index s buddy_addr of
             None \<Rightarrow> None
           | Some base_index \<Rightarrow> pages_free_from s base_index (order_to_pages ord))"

section \<open>Orders and alignment\<close>

lemma order_to_size_eq: "order_to_size ord = 2 ^ (ord + 12)"
  by (simp add: order_to_size_def order_to_pages_def power_add)

lemma order_to_size_pos [simp]: "0 < order_to_size ord"
  by (simp add: order_to_size_def order_to_pages_def)

lemma order_to_pages_pos [simp]: "0 < order_to_pages ord"
  by (simp add: order_to_pages_def)

lemma order_to_size_Suc: "order_to_size (Suc ord) = 2 * order_to_size ord"
  by (simp add: order_to_size_def order_to_pages_def)

lemma order_to_size_mono: "k \<le> ord \<Longrightarrow> order_to_size k \<le> order_to_size ord"
  by (simp add: order_to_size_eq power_increasing)

lemma order_to_size_dvd: "k \<le> ord \<Longrightarrow> order_to_size k dvd order_to_size ord"
  by (simp add: order_to_size_eq le_imp_power_dvd)

lemma page_dvd_order_to_size: "4096 dvd order_to_size ord"
  by (simp add: order_to_size_def)

lemma page_le_order_to_size: "4096 \<le> order_to_size ord"
  by (simp add: order_to_size_def order_to_pages_def)

lemma is_aligned_iff_dvd: "is_aligned_to_order addr ord \<longleftrightarrow> order_to_size ord dvd addr"
proof -
  have "order_to_size ord - 1 = mask (ord + 12)"
    by (simp add: order_to_size_eq mask_eq_exp_minus_1)
  then have "addr AND (order_to_size ord - 1) = addr mod order_to_size ord"
    by (simp add: order_to_size_eq flip: take_bit_eq_mask take_bit_eq_mod)
  then show ?thesis by (simp add: is_aligned_to_order_def dvd_eq_mod_eq_0)
qed

lemma log2_ceil_loop_returns:
  assumes "n \<le> 2 ^ m" "m \<le> 63" "k \<le> m" "k = 0 \<or> 2 ^ (k - 1) < n"
  shows "\<exists>j. j \<le> m \<and> log2_ceil_loop n (2 ^ k) k = Some j \<and> n \<le> 2 ^ j \<and> (j = 0 \<or> 2 ^ (j - 1) < n)"
  using assms(3,4)
proof (induction "m - k" arbitrary: k)
  case 0
  then have "k = m" by simp
  with 0 assms(1) show ?case
    by (intro exI[of _ m]) (simp add: log2_ceil_loop.simps)
next
  case (Suc d)
  show ?case
  proof (cases "2 ^ k < n")
    case False
    then show ?thesis using Suc.prems by (intro exI[of _ k]) (simp add: log2_ceil_loop.simps)
  next
    case True
    have km: "Suc k \<le> m" using Suc.hyps(2) by simp
    have "(2::nat) ^ Suc k \<le> 2 ^ 63" using km assms(2) by (intro power_increasing) auto
    then have val: "2 ^ k * 2 mod U64_MOD = (2::nat) ^ Suc k" by simp
    have ord: "u32_add k 1 = Suc k" using km assms(2) by (simp add: u32_add_def)
    have step: "log2_ceil_loop n (2 ^ k) k = log2_ceil_loop n (2 ^ Suc k) (Suc k)"
      using True val ord by (subst log2_ceil_loop.simps) simp
    have "d = m - Suc k" using Suc.hyps(2) by simp
    from Suc.hyps(1)[OF this km] True step show ?thesis by simp
  qed
qed

lemma log2_ceil_returns:
  assumes "n \<le> 2 ^ 63"
  obtains j where "log2_ceil n = Some j" "n \<le> 2 ^ j" "j = 0 \<or> 2 ^ (j - 1) < n" "j \<le> 63"
proof (cases "n \<le> 1")
  case True
  with that[of 0] show ?thesis by (simp add: log2_ceil_def)
next
  case False
  with log2_ceil_loop_returns[of n 63 0] assms that show ?thesis
    by (auto simp: log2_ceil_def)
qed

text \<open>The same loop started above \<open>2^63\<close> never exits.\<close>

lemma log2_ceil_loop_diverges:
  assumes ret: "log2_ceil_loop n val ord = Some r"
    and "2 ^ 63 < n" "n < U64_MOD" "val = 0 \<or> (\<exists>k \<le> 63. val = 2 ^ k)"
  shows False
proof -
  have imp: "2 ^ 63 < n \<longrightarrow> val = 0 \<or> (\<exists>k \<le> 63. val = 2 ^ k) \<longrightarrow> False"
  proof (rule log2_ceil_loop.raw_induct
      [where P = "\<lambda>n val ord r. 2 ^ 63 < n \<longrightarrow> val = 0 \<or> (\<exists>k \<le> 63. val = 2 ^ k) \<longrightarrow> False",
       OF _ ret])
    fix f :: "nat \<Rightarrow> nat \<Rightarrow> nat \<Rightarrow> nat option" and n val ord r
    assume IH: "\<And>n val ord r. f n val ord = Some r \<Longrightarrow>
        2 ^ 63 < n \<longrightarrow> val = 0 \<or> (\<exists>k \<le> 63. val = 2 ^ k) \<longrightarrow> False"
      and eq: "(if val < n then f n (val * 2 mod U64_MOD) (u32_add ord 1) else Some ord) = Some r"
    show "2 ^ 63 < n \<longrightarrow> val = 0 \<or> (\<exists>k \<le> 63. val = 2 ^ k) \<longrightarrow> False"
    proof (intro impI)
      assume n: "2 ^ 63 < n" and v: "val = 0 \<or> (\<exists>k \<le> 63. val = 2 ^ k)"
      have "val \<le> 2 ^ 63" using v power_increasing[of _ 63 "2::nat"] by auto
      then have "val < n" using n by simp
      then have ret': "f n (val * 2 mod U64_MOD) (u32_add ord 1) = Some r" using eq by simp
      have "val * 2 mod U64_MOD = 0 \<or> (\<exists>k \<le> 63. val * 2 mod U64_MOD = 2 ^ k)"
        using v
      proof
        assume "\<exists>k \<le> 63. val = 2 ^ k"
        then obtain k where k: "k \<le> 63" "val = 2 ^ k" by auto
        show ?thesis
        proof (cases "k = 63")
          case False
          then have "Suc k \<le> 63" using k by simp
          moreover have "(2::nat) ^ Suc k \<le> 2 ^ 63" using calculation by (intro power_increasing) auto
          ultimately show ?thesis using k by (intro disjI2 exI[of _ "Suc k"]) simp
        qed (simp add: k)
      qed simp
      from mp[OF mp[OF IH[OF ret'] n] this] show False .
    qed
  qed
  from mp[OF mp[OF imp assms(2)] assms(4)] show False .
qed

lemma log2_ceil_diverges: "2 ^ 63 < n \<Longrightarrow> n < U64_MOD \<Longrightarrow> log2_ceil n = None"
proof (rule ccontr)
  assume n: "2 ^ 63 < n" "n < U64_MOD" and "log2_ceil n \<noteq> None"
  then obtain r where "log2_ceil_loop n 1 0 = Some r" by (auto simp: log2_ceil_def split: if_splits)
  moreover have "(1::nat) = 0 \<or> (\<exists>k \<le> 63. (1::nat) = 2 ^ k)" by (intro disjI2 exI[of _ 0]) simp
  ultimately show False using n by (intro log2_ceil_loop_diverges[of n 1 0 r])
qed

section \<open>The free lists as lists\<close>

text \<open>
  \<open>dll m p h xs\<close>: following \<open>next\<close> from \<open>h\<close> visits exactly \<open>xs\<close> and ends in \<open>NULL\<close>; each block's
  \<open>prev\<close> is the block before it, \<open>p\<close> for the first.
\<close>

primrec dll :: "(nat \<Rightarrow> free_block) \<Rightarrow> nat \<Rightarrow> nat \<Rightarrow> nat list \<Rightarrow> bool" where
  "dll m p h [] \<longleftrightarrow> h = 0"
| "dll m p h (a # as) \<longleftrightarrow> h = a \<and> a \<noteq> 0 \<and> fb_prev (m a) = p \<and> dll m a (fb_next (m a)) as"

definition free_lists_rep :: "buddy_state \<Rightarrow> (nat \<Rightarrow> nat list) \<Rightarrow> bool" where
  "free_lists_rep s FL \<longleftrightarrow>
     (\<forall>ord \<le> MAX_ORDER. dll (mem s) 0 (free_lists s ord) (FL ord) \<and> free_counts s ord = length (FL ord))"

definition separate :: "(nat \<Rightarrow> nat list) \<Rightarrow> bool" where
  "separate FL \<longleftrightarrow>
     (\<forall>ord \<le> MAX_ORDER. distinct (FL ord)) \<and>
     (\<forall>o1 \<le> MAX_ORDER. \<forall>o2 \<le> MAX_ORDER. o1 \<noteq> o2 \<longrightarrow> set (FL o1) \<inter> set (FL o2) = {})"

lemma dll_cong: "(\<And>x. x \<in> set xs \<Longrightarrow> m x = m' x) \<Longrightarrow> dll m p h xs = dll m' p h xs"
  by (induction xs arbitrary: p h) auto

lemma dll_upd [simp]: "a \<notin> set xs \<Longrightarrow> dll (m(a := b)) p h xs = dll m p h xs"
  by (rule dll_cong) auto

lemma dll_head: "dll m p h xs \<Longrightarrow> h = (case xs of [] \<Rightarrow> 0 | x # _ \<Rightarrow> x)"
  by (cases xs) auto

lemma dll_nonzero: "dll m p h xs \<Longrightarrow> 0 \<notin> set xs"
  by (induction xs arbitrary: p h) auto

lemma dll_set_prev:
  assumes "dll m p h (x # xs)" "x \<notin> set xs"
  shows "dll (m(x := (m x)\<lparr>fb_prev := q\<rparr>)) q h (x # xs)"
  using assms by simp

lemma dll_snoc_prev:
  "dll m p h (xs @ a # ys) \<Longrightarrow> fb_prev (m a) = (if xs = [] then p else last xs)"
  by (induction xs arbitrary: p h) auto

lemma dll_append_next:
  "dll m p h (xs @ a # ys) \<Longrightarrow> fb_next (m a) = (case ys of [] \<Rightarrow> 0 | y # _ \<Rightarrow> y)"
  by (induction xs arbitrary: p h) (auto dest: dll_head)

text \<open>Unlinking an inner element: the pointer surgery of \<open>free_list_remove\<close>.\<close>

lemma dll_set_prev_gen:
  assumes "dll m p h ys" "distinct ys"
  shows "dll (if h \<noteq> 0 then m(h := (m h)\<lparr>fb_prev := q\<rparr>) else m) q h ys"
  using assms by (cases ys) auto

lemma dll_unlink_inner:
  assumes "dll m p h (zs @ b # a # ys)" "distinct (zs @ b # a # ys)" "n = fb_next (m a)"
    and m1: "m1 = m(b := (m b)\<lparr>fb_next := n\<rparr>)"
    and m2: "m2 = (if n \<noteq> 0 then m1(n := (m1 n)\<lparr>fb_prev := b\<rparr>) else m1)"
  shows "dll m2 p h (zs @ b # ys)"
  using assms(1,2)
proof (induction zs arbitrary: p h)
  case Nil
  then have ys: "dll m a n ys" and b: "h = b" "b \<noteq> 0" "fb_prev (m b) = p" "b \<notin> set ys" "distinct ys"
    using assms(3) by auto
  have n: "n \<noteq> 0 \<Longrightarrow> n \<noteq> b" using dll_head[OF ys] b(4) by (auto split: list.splits)
  have "dll m1 a n ys" using ys b(4) by (simp add: m1)
  then have tl: "dll m2 b n ys" unfolding m2 by (rule dll_set_prev_gen) (rule b(5))
  have "fb_prev (m2 b) = p" "fb_next (m2 b) = n" using b n by (auto simp: m2 m1)
  with tl show ?case using b by (simp del: fun_upd_apply)
next
  case (Cons z zs)
  have hd: "n = (case ys of [] \<Rightarrow> 0 | y # _ \<Rightarrow> y)"
    using dll_append_next[of m p h "z # zs @ [b]" a ys] Cons.prems assms(3) by simp
  have z: "m2 z = m z" using Cons.prems hd by (auto simp: m2 m1 split: list.splits)
  have "dll m2 z (fb_next (m z)) (zs @ b # ys)" using Cons by auto
  then show ?case using Cons.prems z by simp
qed

section \<open>The list operations refine operations on lists\<close>

lemma free_list_remove_dll:
  assumes "dll (mem s) 0 (free_lists s ord) (xs @ a # ys)" "distinct (xs @ a # ys)"
  shows "dll (mem (free_list_remove s a ord)) 0 (free_lists (free_list_remove s a ord) ord) (xs @ ys)"
proof (cases xs rule: rev_cases)
  case Nil
  then have d: "dll (mem s) a (fb_next (mem s a)) ys" and prev: "fb_prev (mem s a) = 0" and "distinct ys"
    using assms by auto
  then have "dll (if fb_next (mem s a) \<noteq> 0
      then (mem s)(fb_next (mem s a) := (mem s (fb_next (mem s a)))\<lparr>fb_prev := 0\<rparr>) else mem s)
      0 (fb_next (mem s a)) ys"
    by (intro dll_set_prev_gen)
  with Nil prev show ?thesis
    by (cases "fb_next (mem s a) = 0") (simp_all add: free_list_remove_def Let_def)
next
  case (snoc zs b)
  then have d: "dll (mem s) 0 (free_lists s ord) (zs @ b # a # ys)" "distinct (zs @ b # a # ys)"
    using assms by auto
  have prev: "fb_prev (mem s a) = b" using dll_snoc_prev[OF assms(1)] snoc by simp
  have b: "b \<noteq> 0" using dll_nonzero[OF d(1)] by auto
  define m1 where "m1 = (mem s)(b := (mem s b)\<lparr>fb_next := fb_next (mem s a)\<rparr>)"
  define m2 where "m2 = (if fb_next (mem s a) \<noteq> 0
    then m1(fb_next (mem s a) := (m1 (fb_next (mem s a)))\<lparr>fb_prev := b\<rparr>) else m1)"
  have mem: "mem (free_list_remove s a ord) = m2"
    unfolding free_list_remove_def Let_def prev m2_def m1_def using b by simp
  have hd: "free_lists (free_list_remove s a ord) ord = free_lists s ord"
    unfolding free_list_remove_def Let_def prev using b by simp
  have "dll m2 0 (free_lists s ord) (zs @ b # ys)"
    by (rule dll_unlink_inner[OF d refl m1_def m2_def])
  then show ?thesis unfolding mem hd snoc by simp
qed

lemma free_list_add_frame [simp]:
  "heap_start (free_list_add s a ord) = heap_start s" "heap_end (free_list_add s a ord) = heap_end s"
  "max_blocks (free_list_add s a ord) = max_blocks s" "block_state (free_list_add s a ord) = block_state s"
  "free_pages (free_list_add s a ord) = free_pages s" "pmm_initialized (free_list_add s a ord) = pmm_initialized s"
  "total_pages (free_list_add s a ord) = total_pages s"
  by (simp_all add: free_list_add_def Let_def)

lemma free_list_remove_frame [simp]:
  "heap_start (free_list_remove s a ord) = heap_start s" "heap_end (free_list_remove s a ord) = heap_end s"
  "max_blocks (free_list_remove s a ord) = max_blocks s" "block_state (free_list_remove s a ord) = block_state s"
  "free_pages (free_list_remove s a ord) = free_pages s"
  "pmm_initialized (free_list_remove s a ord) = pmm_initialized s"
  "total_pages (free_list_remove s a ord) = total_pages s"
  by (simp_all add: free_list_remove_def Let_def)

lemma free_lists_rep_add:
  assumes rep: "free_lists_rep s FL" and sep: "separate FL" and ord: "ord \<le> MAX_ORDER"
    and a: "a \<noteq> 0" "\<And>k. k \<le> MAX_ORDER \<Longrightarrow> a \<notin> set (FL k)"
    and len: "length (FL ord) < UINTPTR_MAX"
  shows "free_lists_rep (free_list_add s a ord) (FL(ord := a # FL ord))"
proof -
  let ?h = "free_lists s ord" and ?s = "free_list_add s a ord"
  have d: "dll (mem s) 0 (free_lists s k) (FL k)" and c: "free_counts s k = length (FL k)"
    if "k \<le> MAX_ORDER" for k using rep that by (auto simp: free_lists_rep_def)
  have dist: "distinct (FL ord)" using sep ord by (auto simp: separate_def)
  have hd: "?h = (case FL ord of [] \<Rightarrow> 0 | x # _ \<Rightarrow> x)" by (rule dll_head[OF d[OF ord]])
  have ha: "?h \<noteq> a" using a(2)[OF ord] a(1) hd by (auto split: list.splits)
  define m1 where "m1 = (mem s)(a := \<lparr>fb_next = ?h, fb_prev = 0\<rparr>)"
  define m2 where "m2 = (if ?h \<noteq> 0 then m1(?h := (m1 ?h)\<lparr>fb_prev := a\<rparr>) else m1)"
  have mem: "mem ?s = m2" by (simp add: free_list_add_def Let_def m1_def m2_def)
  have "dll m1 0 ?h (FL ord)" using d[OF ord] a(2)[OF ord] by (simp add: m1_def)
  then have tl: "dll m2 a ?h (FL ord)" unfolding m2_def by (rule dll_set_prev_gen) (rule dist)
  have m2a: "m2 a = \<lparr>fb_next = ?h, fb_prev = 0\<rparr>" using ha by (simp add: m2_def m1_def)
  have new: "dll m2 0 a (a # FL ord)" using tl m2a a(1) by simp
  have other: "dll m2 0 (free_lists s k) (FL k)" if k: "k \<le> MAX_ORDER" "k \<noteq> ord" for k
  proof -
    have "set (FL k) \<inter> set (FL ord) = {}" using sep k ord by (auto simp: separate_def)
    then have "?h \<noteq> 0 \<Longrightarrow> ?h \<notin> set (FL k)" using hd by (auto split: list.splits)
    then show ?thesis using d[OF k(1)] a(2)[OF k(1)] by (simp add: m2_def m1_def)
  qed
  have cnt: "u64_add (free_counts s ord) 1 = length (a # FL ord)"
    using c[OF ord] len by (simp add: u64_add_def)
  show ?thesis
    unfolding free_lists_rep_def mem
    using new other c cnt by (auto simp: free_list_add_def Let_def)
qed

lemma free_list_remove_other:
  assumes rep: "free_lists_rep s FL" and sep: "separate FL" and ord: "ord \<le> MAX_ORDER"
    and a: "a \<in> set (FL ord)" and k: "k \<le> MAX_ORDER" "k \<noteq> ord"
  shows "dll (mem (free_list_remove s a ord)) 0 (free_lists (free_list_remove s a ord) k) (FL k)"
proof -
  let ?b = "mem s a"
  obtain xs ys where xy: "FL ord = xs @ a # ys" using split_list[OF a] by blast
  have d: "dll (mem s) 0 (free_lists s ord) (xs @ a # ys)"
    using rep ord xy by (auto simp: free_lists_rep_def)
  have dk: "dll (mem s) 0 (free_lists s k) (FL k)" using rep k by (auto simp: free_lists_rep_def)
  have disj: "set (FL k) \<inter> set (FL ord) = {}" using sep k ord by (auto simp: separate_def)
  have "fb_prev ?b \<noteq> 0 \<Longrightarrow> fb_prev ?b \<in> set (FL ord)"
    using dll_snoc_prev[OF d] xy by (auto split: if_splits)
  then have p: "fb_prev ?b \<noteq> 0 \<Longrightarrow> fb_prev ?b \<notin> set (FL k)" using disj by auto
  have "fb_next ?b \<noteq> 0 \<Longrightarrow> fb_next ?b \<in> set (FL ord)"
    using dll_append_next[OF d] xy by (auto split: list.splits)
  then have n: "fb_next ?b \<noteq> 0 \<Longrightarrow> fb_next ?b \<notin> set (FL k)" using disj by auto
  show ?thesis using dk p n k(2) by (auto simp: free_list_remove_def Let_def)
qed

lemma free_lists_rep_remove:
  assumes rep: "free_lists_rep s FL" and sep: "separate FL" and ord: "ord \<le> MAX_ORDER"
    and a: "a \<in> set (FL ord)" and len: "length (FL ord) < UINTPTR_MAX"
  shows "free_lists_rep (free_list_remove s a ord) (FL(ord := remove1 a (FL ord)))"
proof -
  have dist: "distinct (FL ord)" using sep ord by (auto simp: separate_def)
  obtain xs ys where xy: "FL ord = xs @ a # ys" "a \<notin> set xs" using split_list_first[OF a] by blast
  have rm: "remove1 a (FL ord) = xs @ ys" using xy by (simp add: remove1_append)
  have d: "dll (mem s) 0 (free_lists s ord) (xs @ a # ys)"
    using rep ord xy by (auto simp: free_lists_rep_def)
  have here: "dll (mem (free_list_remove s a ord)) 0 (free_lists (free_list_remove s a ord) ord) (xs @ ys)"
    using free_list_remove_dll[OF d] dist xy by simp
  have c: "free_counts s k = length (FL k)" if "k \<le> MAX_ORDER" for k
    using rep that by (auto simp: free_lists_rep_def)
  have cnt: "free_counts (free_list_remove s a ord) k = length ((FL(ord := xs @ ys)) k)"
    if "k \<le> MAX_ORDER" for k
    using c[OF that] c[OF ord] len xy by (auto simp: free_list_remove_def Let_def u64_sub_def)
  show ?thesis
    unfolding free_lists_rep_def rm
    using here cnt free_list_remove_other[OF rep sep ord a] by auto
qed

text \<open>\<open>free_list_pop\<close> is \<open>free_list_remove\<close> of the head, except that it clears the popped header.\<close>

lemma free_lists_rep_pop:
  assumes rep: "free_lists_rep s FL" and sep: "separate FL" and ord: "ord \<le> MAX_ORDER"
    and FL: "FL ord = a # as" and len: "length (FL ord) < UINTPTR_MAX"
  obtains s' where "free_list_pop s ord = (a, s')" "free_lists_rep s' (FL(ord := as))"
    "heap_start s' = heap_start s" "heap_end s' = heap_end s" "max_blocks s' = max_blocks s"
    "block_state s' = block_state s" "free_pages s' = free_pages s"
    "pmm_initialized s' = pmm_initialized s" "total_pages s' = total_pages s"
proof -
  have d: "dll (mem s) 0 (free_lists s ord) (a # as)"
    using rep ord FL by (auto simp: free_lists_rep_def)
  then have h: "free_lists s ord = a" "a \<noteq> 0" "fb_prev (mem s a) = 0" by auto
  define s1 where "s1 = free_list_remove s a ord"
  define s' where "s' = s1\<lparr>mem := (mem s1)(a := \<lparr>fb_next = 0, fb_prev = 0\<rparr>)\<rparr>"
  have pop: "free_list_pop s ord = (a, s')"
    using h by (simp add: free_list_pop_def s'_def s1_def free_list_remove_def Let_def)
  have r1: "free_lists_rep s1 (FL(ord := as))"
    using free_lists_rep_remove[OF rep sep ord _ len, of a] FL by (simp add: s1_def)
  have "a \<notin> set ((FL(ord := as)) k)" if "k \<le> MAX_ORDER" for k
  proof (cases "k = ord")
    case True
    then show ?thesis using sep ord FL by (auto simp: separate_def dest: spec[of _ ord])
  next
    case False
    then have "set (FL ord) \<inter> set (FL k) = {}" using sep that ord by (auto simp: separate_def)
    then show ?thesis using False FL by auto
  qed
  then have "free_lists_rep s' (FL(ord := as))"
    using r1 by (simp add: free_lists_rep_def s'_def)
  with pop show ?thesis by (rule that) (simp_all add: s'_def s1_def)
qed

lemma separate_add:
  "separate FL \<Longrightarrow> (\<And>k. k \<le> MAX_ORDER \<Longrightarrow> a \<notin> set (FL k)) \<Longrightarrow> separate (FL(ord := a # FL ord))"
  by (auto simp: separate_def)

lemma separate_remove: "separate FL \<Longrightarrow> separate (FL(ord := remove1 a (FL ord)))"
  using set_remove1_subset[of a "FL ord"] unfolding separate_def by (auto; blast)

end
