(* ===== verification/PmmBlocks.thy ===== *)
theory PmmBlocks
  imports PmmState
begin

text \<open>
  Aligned power-of-two blocks, independent of any allocator state.  A block \<open>(ord, a)\<close> covers
  the bytes \<open>rng ord a\<close>.  The central fact is \<open>tiling\<close>: in a set of disjoint aligned blocks with
  no two free buddies, every aligned region that is covered at all lies inside one block.  It is
  what makes the buddy allocator's page-by-page test equivalent to "the buddy is on the free list
  of this order", and what makes allocation fail only when no aligned run is free.
\<close>

definition rng :: "nat \<Rightarrow> nat \<Rightarrow> nat set" where
  "rng ord a = {a ..< a + order_to_size ord}"

definition covered :: "(nat \<times> nat) set \<Rightarrow> nat set" where
  "covered B = (\<Union>(ord, a) \<in> B. rng ord a)"

definition aligned_blocks :: "(nat \<times> nat) set \<Rightarrow> bool" where
  "aligned_blocks B \<longleftrightarrow> (\<forall>(ord, a) \<in> B. ord \<le> MAX_ORDER \<and> order_to_size ord dvd a)"

definition disjoint_blocks :: "(nat \<times> nat) set \<Rightarrow> bool" where
  "disjoint_blocks B \<longleftrightarrow>
     (\<forall>(o1, a1) \<in> B. \<forall>(o2, a2) \<in> B. (o1, a1) \<noteq> (o2, a2) \<longrightarrow> rng o1 a1 \<inter> rng o2 a2 = {})"

definition coalesced :: "(nat \<times> nat) set \<Rightarrow> bool" where
  "coalesced B \<longleftrightarrow> (\<forall>(ord, a) \<in> B. ord < MAX_ORDER \<longrightarrow> (ord, get_buddy_addr a ord) \<notin> B)"

section \<open>Ranges\<close>

lemma rng_self [simp]: "a \<in> rng ord a"
  by (simp add: rng_def)

lemma rng_iff: "x \<in> rng ord a \<longleftrightarrow> a \<le> x \<and> x < a + order_to_size ord"
  by (simp add: rng_def)

lemma covered_iff: "x \<in> covered B \<longleftrightarrow> (\<exists>ord a. (ord, a) \<in> B \<and> x \<in> rng ord a)"
  by (auto simp: covered_def)

lemma covered_insert [simp]: "covered (insert (ord, a) B) = rng ord a \<union> covered B"
  by (auto simp: covered_def)

lemma covered_mono: "A \<subseteq> B \<Longrightarrow> covered A \<subseteq> covered B"
  by (auto simp: covered_def)

lemma covered_Diff:
  assumes "disjoint_blocks B" "(ord, a) \<in> B"
  shows "covered (B - {(ord, a)}) = covered B - rng ord a"
proof -
  have "rng k b \<inter> rng ord a = {}" if "(k, b) \<in> B" "(k, b) \<noteq> (ord, a)" for k b
    using assms that unfolding disjoint_blocks_def by blast
  then show ?thesis unfolding covered_def using assms(2) by (auto 4 4)
qed

lemma aligned_nested:
  assumes "k \<le> ord" "order_to_size k dvd b" "order_to_size ord dvd a"
    and "rng k b \<inter> rng ord a \<noteq> {}"
  shows "rng k b \<subseteq> rng ord a"
proof -
  let ?K = "order_to_size k" and ?O = "order_to_size ord"
  obtain x where x: "b \<le> x" "x < b + ?K" "a \<le> x" "x < a + ?O" using assms(4) by (auto simp: rng_iff)
  have ka: "?K dvd a" "?K dvd a + ?O"
    using assms(1,3) order_to_size_dvd[OF assms(1)] by (auto intro: dvd_trans)
  have "a \<le> b"
  proof (rule ccontr)
    assume "\<not> a \<le> b"
    then have "b + ?K \<le> a" using pow2_dvd_less_step[OF assms(2) ka(1)] by simp
    then show False using x by simp
  qed
  moreover have "b + ?K \<le> a + ?O"
    using pow2_dvd_less_step[OF assms(2) ka(2)] x by simp
  ultimately show ?thesis by (auto simp: rng_iff)
qed

lemma rng_halves: "rng (Suc ord) a = rng ord a \<union> rng ord (a + order_to_size ord)"
  by (auto simp: rng_iff order_to_size_Suc)

lemma rng_halves_disjoint: "rng ord a \<inter> rng ord (a + order_to_size ord) = {}"
  by (auto simp: rng_iff)

section \<open>Buddies\<close>

lemma get_buddy_addr_eq:
  assumes "order_to_size ord dvd a"
  shows "get_buddy_addr a ord =
    (if order_to_size (Suc ord) dvd a then a + order_to_size ord else a - order_to_size ord)"
  using assms aligned_bit_iff[of "ord + 12" a]
  by (simp add: get_buddy_addr_def order_to_size_eq xor_pow2_eq)

text \<open>The two cases of \<open>addr ^ size\<close>: the block is the lower or the upper half of its parent.\<close>

lemma buddy_cases:
  assumes "order_to_size ord dvd a"
  obtains (lower) "order_to_size (Suc ord) dvd a" "get_buddy_addr a ord = a + order_to_size ord"
  | (upper) p where "order_to_size (Suc ord) dvd p" "a = p + order_to_size ord" "get_buddy_addr a ord = p"
proof (cases "order_to_size (Suc ord) dvd a")
  case True
  then show ?thesis using lower get_buddy_addr_eq[OF assms] by simp
next
  case False
  let ?O = "order_to_size ord"
  from assms obtain q where q: "a = ?O * q" ..
  have "odd q" using False by (auto simp: q order_to_size_Suc)
  then obtain r where r: "q = 2 * r + 1" by (auto elim: oddE)
  show ?thesis
  proof (rule upper[of "order_to_size (Suc ord) * r"])
    show "order_to_size (Suc ord) dvd order_to_size (Suc ord) * r" by simp
    show "a = order_to_size (Suc ord) * r + ?O" by (simp add: q r order_to_size_Suc algebra_simps)
    then show "get_buddy_addr a ord = order_to_size (Suc ord) * r"
      using False get_buddy_addr_eq[OF assms] by simp
  qed
qed

lemma buddy_aligned:
  assumes "order_to_size ord dvd a"
  shows "order_to_size ord dvd get_buddy_addr a ord"
  using assms
proof (cases rule: buddy_cases)
  case lower
  then show ?thesis using assms by simp
next
  case (upper p)
  then show ?thesis using dvd_trans[OF order_to_size_dvd[of ord "Suc ord"]] by simp
qed

lemma buddy_disjoint:
  assumes "order_to_size ord dvd a"
  shows "rng ord a \<inter> rng ord (get_buddy_addr a ord) = {}"
  using assms by (cases rule: buddy_cases) (auto simp: rng_iff)

lemma buddy_neq: "order_to_size ord dvd a \<Longrightarrow> get_buddy_addr a ord \<noteq> a"
  using buddy_disjoint[of ord a] rng_self[of a ord] by (metis Int_absorb empty_iff)

text \<open>The merged block: its address is the smaller one, it is aligned to the next order, and it
  covers exactly the block and its buddy.\<close>

lemma merged_aligned:
  assumes "order_to_size ord dvd a"
  shows "order_to_size (Suc ord) dvd min a (get_buddy_addr a ord)"
  using assms by (cases rule: buddy_cases) (simp_all add: min_def)

lemma merged_rng:
  assumes "order_to_size ord dvd a"
  shows "rng (Suc ord) (min a (get_buddy_addr a ord)) = rng ord a \<union> rng ord (get_buddy_addr a ord)"
  using assms by (cases rule: buddy_cases) (auto simp: rng_halves)

lemma buddy_involutive:
  "order_to_size ord dvd a \<Longrightarrow> get_buddy_addr (get_buddy_addr a ord) ord = a"
  by (simp add: get_buddy_addr_def xor.assoc)

section \<open>Covered aligned regions lie inside one block\<close>

lemma tiling:
  assumes al: "aligned_blocks B" and co: "coalesced B"
    and "k \<le> MAX_ORDER" "order_to_size k dvd b" "rng k b \<subseteq> covered B"
  shows "\<exists>(ord, a) \<in> B. k \<le> ord \<and> rng k b \<subseteq> rng ord a"
  using assms(3-)
proof (induction k arbitrary: b)
  case 0
  then have "b \<in> covered B" using rng_self by blast
  then obtain ord a where oa: "(ord, a) \<in> B" "b \<in> rng ord a" by (auto simp: covered_iff)
  have "rng 0 b \<subseteq> rng ord a"
  proof (rule aligned_nested[OF _ 0(2)])
    show "order_to_size ord dvd a" using al oa by (auto simp: aligned_blocks_def)
    show "rng 0 b \<inter> rng ord a \<noteq> {}" using oa(2) rng_self[of b 0] by blast
  qed simp
  with oa show ?case by auto
next
  case (Suc k)
  let ?O = "order_to_size k"
  have alk1: "?O dvd b" by (rule dvd_trans[OF order_to_size_dvd[of k "Suc k"] Suc.prems(2)]) simp
  then have alk: "?O dvd b" "?O dvd b + ?O" by simp_all
  have sub: "rng k b \<subseteq> covered B" "rng k (b + ?O) \<subseteq> covered B"
    using Suc.prems(3) by (auto simp: rng_halves)
  obtain o1 a1 where 1: "(o1, a1) \<in> B" "k \<le> o1" "rng k b \<subseteq> rng o1 a1"
    using Suc.IH[OF _ alk(1) sub(1)] Suc.prems(1) by auto
  obtain o2 a2 where 2: "(o2, a2) \<in> B" "k \<le> o2" "rng k (b + ?O) \<subseteq> rng o2 a2"
    using Suc.IH[OF _ alk(2) sub(2)] Suc.prems(1) by auto
  have in1: "rng (Suc k) b \<subseteq> rng o1 a1" if "Suc k \<le> o1"
  proof (rule aligned_nested[OF that Suc.prems(2)])
    show "order_to_size o1 dvd a1" using 1 al by (auto simp: aligned_blocks_def)
    show "rng (Suc k) b \<inter> rng o1 a1 \<noteq> {}" unfolding rng_halves using 1 rng_self[of b k] by blast
  qed
  have in2: "rng (Suc k) b \<subseteq> rng o2 a2" if "Suc k \<le> o2"
  proof (rule aligned_nested[OF that Suc.prems(2)])
    show "order_to_size o2 dvd a2" using 2 al by (auto simp: aligned_blocks_def)
    show "rng (Suc k) b \<inter> rng o2 a2 \<noteq> {}" unfolding rng_halves using 2 rng_self[of "b + ?O" k] by blast
  qed
  show ?case
  proof (cases "Suc k \<le> o1 \<or> Suc k \<le> o2")
    case True
    then show ?thesis using 1 2 in1 in2 by blast
  next
    case False
    then have k: "o1 = k" "o2 = k" using 1 2 by auto
    have "a1 = b" "a2 = b + ?O"
      using 1(3) 2(3) order_to_size_pos[of k] by (auto simp add: rng_def k simp del: order_to_size_pos)
    moreover have "get_buddy_addr b k = b + ?O" using get_buddy_addr_eq[OF alk(1)] Suc.prems(2) by simp
    ultimately have False using co 1 2 k Suc.prems(1) by (force simp: coalesced_def)
    then show ?thesis ..
  qed
qed

section \<open>Adding a block\<close>

lemma disjoint_blocks_iff:
  "disjoint_blocks B \<longleftrightarrow> (\<forall>o1 a1 o2 a2. (o1, a1) \<in> B \<longrightarrow> (o2, a2) \<in> B \<longrightarrow> (o1, a1) \<noteq> (o2, a2) \<longrightarrow>
     rng o1 a1 \<inter> rng o2 a2 = {})"
  unfolding disjoint_blocks_def by fast

lemma coalesced_iff:
  "coalesced B \<longleftrightarrow> (\<forall>ord a. (ord, a) \<in> B \<longrightarrow> ord < MAX_ORDER \<longrightarrow> (ord, get_buddy_addr a ord) \<notin> B)"
  unfolding coalesced_def by fast

lemma disjoint_insert:
  assumes "disjoint_blocks B" "rng ord b \<inter> covered B = {}"
  shows "disjoint_blocks (insert (ord, b) B)"
proof -
  have "rng ord b \<inter> rng k c = {}" if "(k, c) \<in> B" for k c
    using assms(2) that unfolding covered_iff disjoint_iff by blast
  then have "rng k c \<inter> rng ord b = {}" "rng ord b \<inter> rng k c = {}" if "(k, c) \<in> B" for k c
    using that by blast+
  then show ?thesis using assms(1) unfolding disjoint_blocks_iff by (metis insert_iff prod.inject)
qed

lemma coalesced_insert:
  assumes al: "aligned_blocks B" "order_to_size ord dvd b" and co: "coalesced B"
    and bud: "ord < MAX_ORDER \<Longrightarrow> (ord, get_buddy_addr b ord) \<notin> B"
  shows "coalesced (insert (ord, b) B)"
proof -
  have "(k, get_buddy_addr c k) \<notin> insert (ord, b) B" if kc: "(k, c) \<in> insert (ord, b) B" "k < MAX_ORDER" for k c
  proof
    assume "(k, get_buddy_addr c k) \<in> insert (ord, b) B"
    then consider "k = ord" "get_buddy_addr c ord = b" | "(k, get_buddy_addr c k) \<in> B" by auto
    then show False
    proof cases
      case 1
      then have "c \<noteq> b" using buddy_neq[OF al(2)] by auto
      then have c: "(ord, c) \<in> B" using kc 1 by auto
      then have "get_buddy_addr b ord = c"
        using al(1) 1(2) buddy_involutive[of ord c] by (auto simp: aligned_blocks_def)
      then show False using bud c kc 1 by auto
    next
      case 2
      show False
      proof (cases "(k, c) \<in> B")
        case True
        then show False using 2 kc(2) co by (auto simp: coalesced_def)
      next
        case False
        then show False using 2 kc bud by simp
      qed
    qed
  qed
  then show ?thesis unfolding coalesced_iff by simp
qed

end
