(* ===== verification/PmmBuddy.thy ===== *)
theory PmmBuddy
  imports PmmBlocks
begin

text \<open>
  The buddy allocator proper and the public page API of \<open>kernel/mm/pmm.c\<close>: splitting allocation,
  coalescing free, the low-address variant, argument checks and counters.  Every public entry
  point runs its body under \<open>pmm_lock\<close> with interrupts off, so each is one atomic step here.

  \<open>pmm_inv s FL\<close> is the allocator's invariant: \<open>FL\<close> lists the free blocks of each order, the
  linked lists and counters represent \<open>FL\<close>, the blocks are aligned, inside the heap, pairwise
  disjoint and fully coalesced, a page is marked \<open>BLOCK_FREE\<close> exactly when a free block covers
  it, and \<open>free_pages\<close> counts them.
\<close>

section \<open>Allocation and release of blocks\<close>

text \<open>The split loop: hand the upper half of the block back at each lower order.\<close>

fun split_down :: "nat \<Rightarrow> nat \<Rightarrow> nat \<Rightarrow> buddy_state \<Rightarrow> buddy_state option" where
  "split_down blk order 0 s = Some s"
| "split_down blk order (Suc ord) s =
     (if order < Suc ord
      then (let buddy = u64_add blk (order_to_size ord);
                s1 = s\<lparr>split_count := u64_add (split_count s) 1\<rparr>
            in case set_block_state s1 buddy ord BLOCK_FREE of
                 None \<Rightarrow> None
               | Some s2 \<Rightarrow> split_down blk order ord (free_list_add s2 buddy ord))
      else Some s)"

text \<open>What follows the removal of a block of order \<open>ord\<close> from its list, in both allocators.\<close>

definition finish_alloc :: "nat \<Rightarrow> nat \<Rightarrow> nat \<Rightarrow> buddy_state \<Rightarrow> (nat \<times> buddy_state) option" where
  "finish_alloc blk ord order s =
     (case split_down blk order ord s of
        None \<Rightarrow> None
      | Some s1 \<Rightarrow>
          (case set_block_state s1 blk order BLOCK_ALLOCATED of
             None \<Rightarrow> None
           | Some s2 \<Rightarrow>
               Some (blk, s2\<lparr>free_pages := u64_sub (free_pages s2) (order_to_pages order),
                             alloc_count := u64_add (alloc_count s2) 1\<rparr>)))"

function buddy_alloc_from :: "nat \<Rightarrow> nat \<Rightarrow> buddy_state \<Rightarrow> (nat \<times> buddy_state) option" where
  "buddy_alloc_from ord order s =
     (if ord \<le> MAX_ORDER
      then if 0 < free_counts s ord
           then (case free_list_pop s ord of (blk, s1) \<Rightarrow> finish_alloc blk ord order s1)
           else buddy_alloc_from (Suc ord) order s
      else Some (PMM_ALLOC_FAIL, s))"
  by pat_completeness auto
termination
  by (relation "measure (\<lambda>(ord, order, s). Suc MAX_ORDER - ord)") auto

declare buddy_alloc_from.simps [simp del]

definition buddy_alloc :: "nat \<Rightarrow> buddy_state \<Rightarrow> (nat \<times> buddy_state) option" where
  "buddy_alloc order s = buddy_alloc_from order order s"

text \<open>The coalescing loop of \<open>buddy_free\<close>: the address and order it ends with.\<close>

function coalesce :: "nat \<Rightarrow> nat \<Rightarrow> buddy_state \<Rightarrow> (nat \<times> nat \<times> buddy_state) option" where
  "coalesce addr order s =
     (if order < MAX_ORDER
      then (let buddy_addr = get_buddy_addr addr order
            in case is_buddy_free s buddy_addr order of
                 None \<Rightarrow> None
               | Some False \<Rightarrow> Some (addr, order, s)
               | Some True \<Rightarrow>
                   (let merged_addr = (if addr < buddy_addr then addr else buddy_addr)
                    in if \<not> is_aligned_to_order merged_addr (order + 1) then Some (addr, order, s)
                       else (let s1 = free_list_remove s buddy_addr order
                             in coalesce merged_addr (order + 1)
                                  (s1\<lparr>merge_count := u64_add (merge_count s1) 1\<rparr>))))
      else Some (addr, order, s))"
  by pat_completeness auto
termination
  by (relation "measure (\<lambda>(addr, order, s). MAX_ORDER - order)") auto

declare coalesce.simps [simp del]

definition buddy_free :: "nat \<Rightarrow> nat \<Rightarrow> nat \<Rightarrow> buddy_state \<Rightarrow> buddy_state option" where
  "buddy_free addr0 order0 original_order s =
     (case coalesce addr0 order0 s of
        None \<Rightarrow> None
      | Some (addr, order, s1) \<Rightarrow>
          (case set_block_state s1 addr order BLOCK_FREE of
             None \<Rightarrow> None
           | Some s2 \<Rightarrow>
               (let s3 = free_list_add s2 addr order
                in Some (s3\<lparr>free_pages := u64_add (free_pages s3) (order_to_pages original_order),
                            free_count := u64_add (free_count s3) 1\<rparr>))))"

section \<open>Public interface\<close>

text \<open>A result of 0 is the C \<open>NULL\<close>.\<close>

definition pmm_alloc_pages :: "nat \<Rightarrow> buddy_state \<Rightarrow> (nat \<times> buddy_state) option" where
  "pmm_alloc_pages n s =
     (if \<not> pmm_initialized s then Some (0, s)
      else if n = 0 then Some (0, s)
      else case log2_ceil n of
             None \<Rightarrow> None
           | Some order \<Rightarrow>
               if order > MAX_ORDER then Some (0, s)
               else (case buddy_alloc order s of
                       None \<Rightarrow> None
                     | Some (addr, s') \<Rightarrow> Some (if addr = PMM_ALLOC_FAIL then 0 else addr, s')))"

definition pmm_alloc_page :: "buddy_state \<Rightarrow> (nat \<times> buddy_state) option" where
  "pmm_alloc_page s = pmm_alloc_pages 1 s"

text \<open>The scan of \<open>pmm_alloc_pages_low\<close> over one list (\<open>blk = blk->next\<close> until \<open>NULL\<close>).  The walk
  takes one step per list element; \<open>free_counts\<close> bounds it, and a list longer than its counter
  is \<open>None\<close>.\<close>

fun scan_low :: "buddy_state \<Rightarrow> nat \<Rightarrow> nat \<Rightarrow> nat \<Rightarrow> (nat \<times> nat) option \<Rightarrow> (nat \<times> nat) option option" where
  "scan_low s ord 0 blk best = (if blk = 0 then Some best else None)"
| "scan_low s ord (Suc fuel) blk best =
     (if blk = 0 then Some best
      else scan_low s ord fuel (fb_next (mem s blk))
             (case best of
                None \<Rightarrow> Some (blk, ord)
              | Some (best_addr, best_order) \<Rightarrow>
                  if blk < best_addr then Some (blk, ord) else best))"

fun scan_orders :: "buddy_state \<Rightarrow> nat list \<Rightarrow> (nat \<times> nat) option \<Rightarrow> (nat \<times> nat) option option" where
  "scan_orders s [] best = Some best"
| "scan_orders s (ord # ords) best =
     (case scan_low s ord (free_counts s ord) (free_lists s ord) best of
        None \<Rightarrow> None
      | Some best' \<Rightarrow> scan_orders s ords best')"

definition pmm_alloc_pages_low :: "nat \<Rightarrow> buddy_state \<Rightarrow> (nat \<times> buddy_state) option" where
  "pmm_alloc_pages_low n s =
     (if \<not> pmm_initialized s then Some (0, s)
      else if n = 0 then Some (0, s)
      else case log2_ceil n of
             None \<Rightarrow> None
           | Some order \<Rightarrow>
               if order > MAX_ORDER then Some (0, s)
               else (case scan_orders s [order ..< Suc MAX_ORDER] None of
                       None \<Rightarrow> None
                     | Some None \<Rightarrow> Some (0, s)
                     | Some (Some (best_addr, best_order)) \<Rightarrow>
                         finish_alloc best_addr best_order order (free_list_remove s best_addr best_order)))"

definition pmm_free_pages :: "nat \<Rightarrow> nat \<Rightarrow> buddy_state \<Rightarrow> buddy_state option" where
  "pmm_free_pages addr n s =
     (if \<not> pmm_initialized s then Some s
      else if n = 0 \<or> addr = 0 then Some s
      else if addr < heap_start s \<or> heap_end s \<le> addr then Some s
      else if addr AND (PAGE_SIZE - 1) \<noteq> 0 then Some s
      else case log2_ceil n of
             None \<Rightarrow> None
           | Some order \<Rightarrow>
               if order > MAX_ORDER then Some s
               else if \<not> is_aligned_to_order addr order then Some s
               else (case get_block_state s addr of
                       None \<Rightarrow> None
                     | Some st \<Rightarrow> if st = BLOCK_FREE then Some s else buddy_free addr order order s))"

definition pmm_free_page :: "nat \<Rightarrow> buddy_state \<Rightarrow> buddy_state option" where
  "pmm_free_page page s = pmm_free_pages page 1 s"

record pmm_stats =
  st_total_pages :: nat
  st_free_pages :: nat
  st_used_pages :: nat
  st_reserved_pages :: nat
  st_heap_start :: nat
  st_heap_end :: nat

definition pmm_get_stats :: "buddy_state \<Rightarrow> pmm_stats" where
  "pmm_get_stats s =
     \<lparr>st_total_pages = total_pages s, st_free_pages = free_pages s,
      st_used_pages = u64_sub (total_pages s) (free_pages s),
      st_reserved_pages = reserved_pages s, st_heap_start = heap_start s, st_heap_end = heap_end s\<rparr>"

definition pmm_get_free_pages :: "buddy_state \<Rightarrow> nat" where
  "pmm_get_free_pages s = free_pages s"

definition pmm_get_total_pages :: "buddy_state \<Rightarrow> nat" where
  "pmm_get_total_pages s = total_pages s"

section \<open>The invariant\<close>

definition blocks :: "(nat \<Rightarrow> nat list) \<Rightarrow> (nat \<times> nat) set" where
  "blocks FL = {(ord, a). ord \<le> MAX_ORDER \<and> a \<in> set (FL ord)}"

definition in_heap :: "buddy_state \<Rightarrow> nat \<Rightarrow> nat \<Rightarrow> bool" where
  "in_heap s ord a \<longleftrightarrow> heap_start s \<le> a \<and> a + order_to_size ord \<le> heap_end s"

text \<open>
  What the platform constants give: the heap is a page-aligned range above the kernel image, and
  \<open>block_state[]\<close> (one byte per page of RAM) has at least one entry more than the heap has pages,
  because the heap starts above \<open>RAM_BASE\<close>.  The last point matters: \<open>is_buddy_free\<close> scans up to
  \<open>2^order\<close> entries without a bound check and relies on stopping at a page that is not free.
\<close>

definition heap_geometry :: "buddy_state \<Rightarrow> bool" where
  "heap_geometry s \<longleftrightarrow> 0 < heap_start s \<and> PAGE_SIZE dvd heap_start s \<and> PAGE_SIZE dvd heap_end s \<and>
     heap_end s < heap_start s + PAGE_SIZE * max_blocks s \<and>
     heap_start s + PAGE_SIZE * max_blocks s < U64_MOD"

definition page_addr :: "buddy_state \<Rightarrow> nat \<Rightarrow> nat" where
  "page_addr s i = heap_start s + PAGE_SIZE * i"

definition listed_pages :: "(nat \<Rightarrow> nat list) \<Rightarrow> nat" where
  "listed_pages FL = (\<Sum>ord \<le> MAX_ORDER. length (FL ord) * order_to_pages ord)"

definition block_map_ok :: "buddy_state \<Rightarrow> (nat \<times> nat) set \<Rightarrow> nat set \<Rightarrow> bool" where
  "block_map_ok s B X \<longleftrightarrow> (\<forall>i < max_blocks s. page_addr s i \<notin> X \<longrightarrow>
     (block_state s i = BLOCK_FREE \<longleftrightarrow> page_addr s i \<in> covered B))"

definition blocks_ok :: "buddy_state \<Rightarrow> (nat \<times> nat) set \<Rightarrow> bool" where
  "blocks_ok s B \<longleftrightarrow> aligned_blocks B \<and> disjoint_blocks B \<and> coalesced B \<and> (\<forall>(ord, a) \<in> B. in_heap s ord a)"

text \<open>\<open>pmm_core s FL X\<close> leaves the state bytes of the pages in \<open>X\<close> open: inside an operation, \<open>X\<close> is
  the block in the operation's hands.\<close>

definition pmm_core :: "buddy_state \<Rightarrow> (nat \<Rightarrow> nat list) \<Rightarrow> nat set \<Rightarrow> bool" where
  "pmm_core s FL X \<longleftrightarrow> heap_geometry s \<and> free_lists_rep s FL \<and> separate FL \<and>
     blocks_ok s (blocks FL) \<and> block_map_ok s (blocks FL) X"

definition pmm_inv :: "buddy_state \<Rightarrow> (nat \<Rightarrow> nat list) \<Rightarrow> bool" where
  "pmm_inv s FL \<longleftrightarrow> pmm_core s FL {} \<and> free_pages s = listed_pages FL"

definition hole :: "buddy_state \<Rightarrow> (nat \<Rightarrow> nat list) \<Rightarrow> nat \<Rightarrow> nat \<Rightarrow> bool" where
  "hole s FL ord a \<longleftrightarrow> pmm_core s FL (rng ord a) \<and> ord \<le> MAX_ORDER \<and> order_to_size ord dvd a \<and>
     in_heap s ord a \<and> rng ord a \<inter> covered (blocks FL) = {}"

section \<open>Pages and block ranges\<close>

lemma addr_index:
  assumes "heap_geometry s" "heap_start s \<le> a" "a < heap_end s"
  shows "addr_to_block_index s a = Some ((a - heap_start s) div PAGE_SIZE)"
proof -
  have "u64_sub a (heap_start s) = a - heap_start s"
    using assms by (intro u64_sub_eq) (auto simp: heap_geometry_def)
  moreover have "(a - heap_start s) div PAGE_SIZE < max_blocks s"
    using assms by (auto simp: heap_geometry_def less_mult_imp_div_less)
  ultimately show ?thesis by (simp add: addr_to_block_index_def)
qed

lemma page_in_rng:
  assumes "heap_geometry s" "heap_start s \<le> a" "PAGE_SIZE dvd a"
  shows "page_addr s i \<in> rng ord a \<longleftrightarrow>
    (a - heap_start s) div PAGE_SIZE \<le> i \<and> i < (a - heap_start s) div PAGE_SIZE + order_to_pages ord"
proof -
  have "PAGE_SIZE dvd a - heap_start s" using assms by (simp add: heap_geometry_def)
  then obtain q where q: "a - heap_start s = PAGE_SIZE * q" ..
  then have a: "a = heap_start s + PAGE_SIZE * q" using assms(2) by simp
  show ?thesis unfolding page_addr_def rng_iff order_to_size_def a by auto
qed

lemma page_dvd_block: "order_to_size ord dvd a \<Longrightarrow> PAGE_SIZE dvd a"
  by (rule dvd_trans[OF page_dvd_order_to_size])

text \<open>\<open>mark\<close> is \<open>set_block_state\<close> on a block inside the heap.\<close>

definition mark :: "buddy_state \<Rightarrow> nat \<Rightarrow> nat \<Rightarrow> block_status \<Rightarrow> buddy_state" where
  "mark s ord a st = s\<lparr>block_state := (\<lambda>i. if page_addr s i \<in> rng ord a then st else block_state s i)\<rparr>"

lemma mark_frame [simp]:
  "heap_start (mark s ord a st) = heap_start s" "heap_end (mark s ord a st) = heap_end s"
  "max_blocks (mark s ord a st) = max_blocks s" "free_lists (mark s ord a st) = free_lists s"
  "free_counts (mark s ord a st) = free_counts s" "mem (mark s ord a st) = mem s"
  "free_pages (mark s ord a st) = free_pages s" "pmm_initialized (mark s ord a st) = pmm_initialized s"
  "total_pages (mark s ord a st) = total_pages s"
  by (simp_all add: mark_def)

lemma block_index_bound:
  assumes "heap_geometry s" "in_heap s ord a" "order_to_size ord dvd a"
  shows "(a - heap_start s) div PAGE_SIZE + order_to_pages ord \<le> max_blocks s"
proof -
  have "PAGE_SIZE dvd a - heap_start s"
    using assms page_dvd_block by (simp add: heap_geometry_def)
  then obtain q where q: "a - heap_start s = PAGE_SIZE * q" ..
  have "heap_start s + PAGE_SIZE * q + PAGE_SIZE * order_to_pages ord \<le> heap_start s + PAGE_SIZE * max_blocks s"
    using assms q by (auto simp: in_heap_def heap_geometry_def order_to_size_def)
  then show ?thesis using q by simp
qed

lemma set_block_state_mark:
  assumes "heap_geometry s" "in_heap s ord a" "order_to_size ord dvd a"
  shows "set_block_state s a ord st = Some (mark s ord a st)"
proof -
  let ?i = "(a - heap_start s) div PAGE_SIZE"
  have hs: "heap_start s \<le> a" "a < heap_end s"
    using assms(2) order_to_size_pos[of ord] unfolding in_heap_def by linarith+
  have "fill (block_state s) ?i (order_to_pages ord) st =
      (\<lambda>i. if page_addr s i \<in> rng ord a then st else block_state s i)"
    using page_in_rng[OF assms(1) hs(1) page_dvd_block[OF assms(3)]] by (auto simp: fill_def)
  then show ?thesis
    using addr_index[OF assms(1) hs] block_index_bound[OF assms]
    by (simp add: set_block_state_def mark_def)
qed

lemma covered_page:
  assumes "aligned_blocks B" "PAGE_SIZE dvd p" "p \<in> covered B"
  shows "rng 0 p \<subseteq> covered B"
proof -
  obtain ord a where oa: "(ord, a) \<in> B" "p \<in> rng ord a" using assms(3) by (auto simp: covered_iff)
  have "rng 0 p \<subseteq> rng ord a"
  proof (rule aligned_nested)
    show "order_to_size 0 dvd p" using assms(2) by (simp add: order_to_size_def order_to_pages_def)
    show "order_to_size ord dvd a" using assms(1) oa by (auto simp: aligned_blocks_def)
    show "rng 0 p \<inter> rng ord a \<noteq> {}" using oa(2) rng_self[of p 0] by blast
  qed simp
  then show ?thesis using oa(1) unfolding covered_iff subset_iff by blast
qed

end
