(* ===== verification/PmmCorrect.thy ===== *)
theory PmmCorrect
  imports PmmBuddy
begin

text \<open>
  Correctness of the buddy allocator.  An operation first opens a hole (the block it takes from
  or returns to the free lists), then shrinks it by splitting or grows it by merging, and finally
  closes it.  The lemmas \<open>hole_*\<close> cover one such move each, and \<open>alloc_ok\<close> and \<open>free_ok\<close> put them
  together.
\<close>

section \<open>Lists, blocks and page counts\<close>

lemma blocks_iff: "(ord, a) \<in> blocks FL \<longleftrightarrow> ord \<le> MAX_ORDER \<and> a \<in> set (FL ord)"
  by (simp add: blocks_def)

lemma blocks_add: "ord \<le> MAX_ORDER \<Longrightarrow> blocks (FL(ord := a # FL ord)) = insert (ord, a) (blocks FL)"
  by (auto simp: blocks_def split: if_splits)

lemma blocks_remove:
  "separate FL \<Longrightarrow> ord \<le> MAX_ORDER \<Longrightarrow> blocks (FL(ord := remove1 a (FL ord))) = blocks FL - {(ord, a)}"
  by (auto simp: blocks_def separate_def split: if_splits)

lemma listed_pages_upd:
  assumes "ord \<le> MAX_ORDER"
  shows "listed_pages (FL(ord := xs)) + length (FL ord) * order_to_pages ord =
    listed_pages FL + length xs * order_to_pages ord"
proof -
  have i: "ord \<in> {..MAX_ORDER}" using assms by simp
  have f: "finite {..MAX_ORDER}" by simp
  have same: "(\<Sum>k \<in> {..MAX_ORDER} - {ord}. length ((FL(ord := xs)) k) * order_to_pages k) =
      (\<Sum>k \<in> {..MAX_ORDER} - {ord}. length (FL k) * order_to_pages k)" by (intro sum.cong) auto
  show ?thesis unfolding listed_pages_def sum.remove[OF f i] same by simp
qed

lemma listed_pages_add:
  "ord \<le> MAX_ORDER \<Longrightarrow> listed_pages (FL(ord := a # FL ord)) = listed_pages FL + order_to_pages ord"
  using listed_pages_upd[of ord FL "a # FL ord"] by simp

lemma listed_pages_remove:
  assumes "ord \<le> MAX_ORDER" "a \<in> set (FL ord)"
  shows "listed_pages (FL(ord := remove1 a (FL ord))) + order_to_pages ord = listed_pages FL"
proof -
  have "length (FL ord) = Suc (length (remove1 a (FL ord)))"
    using assms(2) length_pos_if_in_set[OF assms(2)] by (simp add: length_remove1)
  then show ?thesis using listed_pages_upd[OF assms(1), of FL "remove1 a (FL ord)"] by simp
qed

lemma finite_blocks [simp]: "finite (blocks FL)"
proof -
  have "blocks FL = (SIGMA ord:{..MAX_ORDER}. set (FL ord))" by (auto simp: blocks_def)
  then show ?thesis by simp
qed

lemma listed_pages_card:
  assumes "separate FL" "disjoint_blocks (blocks FL)"
  shows "PAGE_SIZE * listed_pages FL = card (covered (blocks FL))"
proof -
  have B: "blocks FL = (SIGMA ord:{..MAX_ORDER}. set (FL ord))" by (auto simp: blocks_def)
  have "card (covered (blocks FL)) = (\<Sum>b \<in> blocks FL. card (case b of (ord, a) \<Rightarrow> rng ord a))"
    unfolding covered_def
  proof (rule card_UN_disjoint)
    show "\<forall>i\<in>blocks FL. finite (case i of (ord, a) \<Rightarrow> rng ord a)" by (auto simp: rng_def)
    show "\<forall>i\<in>blocks FL. \<forall>j\<in>blocks FL. i \<noteq> j \<longrightarrow>
        (case i of (ord, a) \<Rightarrow> rng ord a) \<inter> (case j of (ord, a) \<Rightarrow> rng ord a) = {}"
      using assms(2) unfolding disjoint_blocks_def by fast
  qed simp
  also have "\<dots> = (\<Sum>ord \<le> MAX_ORDER. \<Sum>a \<in> set (FL ord). order_to_size ord)"
  proof -
    have "(\<Sum>b \<in> blocks FL. card (case b of (ord, a) \<Rightarrow> rng ord a)) = (\<Sum>(ord, a) \<in> blocks FL. order_to_size ord)"
      by (intro sum.cong) (auto simp: rng_def)
    also have "\<dots> = (\<Sum>ord \<le> MAX_ORDER. \<Sum>a \<in> set (FL ord). order_to_size ord)"
      unfolding B by (rule sum.Sigma[symmetric]) simp_all
    finally show ?thesis .
  qed
  also have "\<dots> = (\<Sum>ord \<le> MAX_ORDER. PAGE_SIZE * (length (FL ord) * order_to_pages ord))"
  proof (rule sum.cong)
    fix ord assume "ord \<in> {..MAX_ORDER}"
    then have "card (set (FL ord)) = length (FL ord)"
      using assms(1) by (simp add: separate_def distinct_card)
    then show "(\<Sum>a \<in> set (FL ord). order_to_size ord) = PAGE_SIZE * (length (FL ord) * order_to_pages ord)"
      by (simp add: order_to_size_def)
  qed simp
  finally show ?thesis by (simp add: listed_pages_def sum_distrib_left)
qed

lemma covered_in_heap:
  assumes "blocks_ok s B"
  shows "covered B \<subseteq> {heap_start s ..< heap_end s}"
proof
  fix x assume "x \<in> covered B"
  then obtain ord a where oa: "(ord, a) \<in> B" "x \<in> rng ord a" by (auto simp: covered_iff)
  then have "in_heap s ord a" using assms by (auto simp: blocks_ok_def)
  then show "x \<in> {heap_start s ..< heap_end s}" using oa(2) by (auto simp: in_heap_def rng_iff)
qed

lemma listed_pages_bound:
  assumes "pmm_core s FL X"
  shows "PAGE_SIZE * listed_pages FL \<le> heap_end s - heap_start s"
proof -
  have "card (covered (blocks FL)) \<le> card {heap_start s ..< heap_end s}"
    using assms by (intro card_mono covered_in_heap) (auto simp: pmm_core_def)
  then show ?thesis using listed_pages_card assms by (simp add: pmm_core_def blocks_ok_def)
qed

lemma listed_pages_less: "pmm_core s FL X \<Longrightarrow> listed_pages FL < U64_MOD"
  using listed_pages_bound[of s FL X] by (auto simp: pmm_core_def heap_geometry_def)

lemma list_length_bound:
  assumes "pmm_core s FL X" "ord \<le> MAX_ORDER"
  shows "length (FL ord) < UINTPTR_MAX"
proof -
  have "length (FL ord) \<le> heap_end s"
  proof (rule distinct_bounded_length)
    show "distinct (FL ord)" using assms by (simp add: pmm_core_def separate_def)
    show "\<forall>a\<in>set (FL ord). a < heap_end s"
    proof
      fix a assume "a \<in> set (FL ord)"
      then have "a \<in> covered (blocks FL)"
        using assms(2) rng_self[of a ord] unfolding covered_iff blocks_iff by blast
      then show "a < heap_end s" using covered_in_heap[of s "blocks FL"] assms(1) by (auto simp: pmm_core_def)
    qed
  qed
  moreover have "heap_end s < UINTPTR_MAX" using assms(1) by (auto simp: pmm_core_def heap_geometry_def)
  ultimately show ?thesis by simp
qed

section \<open>Congruence: which fields matter\<close>

lemma pmm_core_cong:
  assumes "heap_start s' = heap_start s" "heap_end s' = heap_end s" "max_blocks s' = max_blocks s"
    and "block_state s' = block_state s" "mem s' = mem s" "free_lists s' = free_lists s"
    and "free_counts s' = free_counts s"
  shows "pmm_core s' FL X = pmm_core s FL X"
  using assms by (simp add: pmm_core_def heap_geometry_def free_lists_rep_def blocks_ok_def in_heap_def
      block_map_ok_def page_addr_def)

lemma hole_cong:
  assumes "heap_start s' = heap_start s" "heap_end s' = heap_end s" "max_blocks s' = max_blocks s"
    and "block_state s' = block_state s" "mem s' = mem s" "free_lists s' = free_lists s"
    and "free_counts s' = free_counts s"
  shows "hole s' FL ord a = hole s FL ord a"
  using pmm_core_cong[OF assms] assms by (simp add: hole_def in_heap_def)

lemma heap_frame:
  assumes "heap_start s' = heap_start s" "heap_end s' = heap_end s" "max_blocks s' = max_blocks s"
  shows "heap_geometry s' = heap_geometry s" "in_heap s' ord a = in_heap s ord a"
    "blocks_ok s' B = blocks_ok s B" "page_addr s' i = page_addr s i"
  using assms by (auto simp: heap_geometry_def in_heap_def blocks_ok_def page_addr_def)

section \<open>Opening a hole\<close>

lemma block_unfold:
  assumes "pmm_core s FL X" "ord \<le> MAX_ORDER" "a \<in> set (FL ord)"
  shows "order_to_size ord dvd a" "in_heap s ord a" "(ord, a) \<in> blocks FL"
  using assms by (auto simp: pmm_core_def blocks_ok_def aligned_blocks_def blocks_iff)

text \<open>Taking a block away from the lists keeps every clause but the state bytes of its pages.\<close>

lemma core_take:
  assumes core: "pmm_core s FL X" and ord: "ord \<le> MAX_ORDER" and a: "a \<in> set (FL ord)"
    and rep: "free_lists_rep s' (FL(ord := remove1 a (FL ord)))"
    and same: "heap_start s' = heap_start s" "heap_end s' = heap_end s" "max_blocks s' = max_blocks s"
      "block_state s' = block_state s"
  shows "pmm_core s' (FL(ord := remove1 a (FL ord))) (X \<union> rng ord a)"
    "covered (blocks (FL(ord := remove1 a (FL ord)))) = covered (blocks FL) - rng ord a"
proof -
  let ?FL = "FL(ord := remove1 a (FL ord))"
  have sep: "separate FL" and dis: "disjoint_blocks (blocks FL)"
    using core by (auto simp: pmm_core_def blocks_ok_def)
  have B: "blocks ?FL = blocks FL - {(ord, a)}" by (rule blocks_remove[OF sep ord])
  show cov: "covered (blocks ?FL) = covered (blocks FL) - rng ord a"
    unfolding B by (rule covered_Diff[OF dis block_unfold(3)[OF core ord a]])
  have "blocks_ok s (blocks ?FL)"
    using core unfolding pmm_core_def blocks_ok_def B aligned_blocks_def disjoint_blocks_def coalesced_def
    by blast
  moreover have "separate ?FL" using sep ord by (intro separate_remove)
  moreover have "block_map_ok s (blocks ?FL) (X \<union> rng ord a)"
    using core unfolding pmm_core_def block_map_ok_def cov by blast
  ultimately show "pmm_core s' ?FL (X \<union> rng ord a)"
    using core rep same unfolding pmm_core_def block_map_ok_def heap_frame[OF same(1-3)] by simp
qed

lemma hole_take:
  assumes core: "pmm_core s FL {}" and ord: "ord \<le> MAX_ORDER" and a: "a \<in> set (FL ord)"
    and rep: "free_lists_rep s' (FL(ord := remove1 a (FL ord)))"
    and same: "heap_start s' = heap_start s" "heap_end s' = heap_end s" "max_blocks s' = max_blocks s"
      "block_state s' = block_state s"
  shows "hole s' (FL(ord := remove1 a (FL ord))) ord a"
  using core_take[OF assms] block_unfold[OF core ord a] ord heap_frame[OF same(1-3)]
  by (auto simp: hole_def)

section \<open>Filling a hole\<close>

lemma core_put:
  assumes core: "pmm_core s FL X" and ord: "ord \<le> MAX_ORDER" and al: "order_to_size ord dvd b"
    and heap: "in_heap s ord b" and sub: "rng ord b \<subseteq> X" and dis: "rng ord b \<inter> covered (blocks FL) = {}"
    and bud: "ord < MAX_ORDER \<Longrightarrow> get_buddy_addr b ord \<notin> set (FL ord)"
  defines "s' \<equiv> free_list_add (mark s ord b BLOCK_FREE) b ord" and "FL' \<equiv> FL(ord := b # FL ord)"
  shows "pmm_core s' FL' (X - rng ord b)" "covered (blocks FL') = rng ord b \<union> covered (blocks FL)"
proof -
  have B: "blocks FL' = insert (ord, b) (blocks FL)" unfolding FL'_def by (rule blocks_add[OF ord])
  show cov: "covered (blocks FL') = rng ord b \<union> covered (blocks FL)" by (simp add: B)
  have ok: "aligned_blocks (blocks FL)" "disjoint_blocks (blocks FL)" "coalesced (blocks FL)"
      "\<forall>(ord, a) \<in> blocks FL. in_heap s ord a"
    and sep: "separate FL" and geo: "heap_geometry s" and rep: "free_lists_rep s FL"
    using core by (auto simp: pmm_core_def blocks_ok_def)
  have fresh: "b \<notin> set (FL k)" if "k \<le> MAX_ORDER" for k
    using dis that rng_self[of b ord] rng_self[of b k] unfolding covered_iff blocks_iff disjoint_iff by blast
  have b0: "b \<noteq> 0" using heap geo by (auto simp: in_heap_def heap_geometry_def)
  have "free_lists_rep (mark s ord b BLOCK_FREE) FL" using rep by (simp add: free_lists_rep_def)
  then have rep': "free_lists_rep s' FL'"
    unfolding s'_def FL'_def
    by (rule free_lists_rep_add[OF _ sep ord b0 fresh list_length_bound[OF core ord]])
  have blk: "blocks_ok s (blocks FL')"
    using ok al ord heap disjoint_insert[OF ok(2) dis] coalesced_insert[OF ok(1) al ok(3)] bud
    unfolding blocks_ok_def aligned_blocks_def B by (auto simp: blocks_iff)
  have fr: "heap_start s' = heap_start s" "heap_end s' = heap_end s" "max_blocks s' = max_blocks s"
    by (simp_all add: s'_def)
  have st: "block_state s' i = (if page_addr s i \<in> rng ord b then BLOCK_FREE else block_state s i)" for i
    by (simp add: s'_def mark_def)
  have "block_map_ok s' (blocks FL') (X - rng ord b)"
    using core unfolding pmm_core_def block_map_ok_def cov st heap_frame[OF fr] fr by auto
  moreover have "separate FL'" unfolding FL'_def using sep fresh by (intro separate_add)
  ultimately show "pmm_core s' FL' (X - rng ord b)"
    using geo rep' blk unfolding pmm_core_def heap_frame[OF fr] by simp
qed

lemma hole_close_alloc:
  assumes "hole s FL ord a"
  shows "set_block_state s a ord BLOCK_ALLOCATED = Some (mark s ord a BLOCK_ALLOCATED)"
    "pmm_core (mark s ord a BLOCK_ALLOCATED) FL {}"
proof -
  let ?s = "mark s ord a BLOCK_ALLOCATED"
  have core: "pmm_core s FL (rng ord a)" and dis: "rng ord a \<inter> covered (blocks FL) = {}"
    and heap: "in_heap s ord a" "order_to_size ord dvd a"
    using assms by (auto simp: hole_def)
  then show "set_block_state s a ord BLOCK_ALLOCATED = Some ?s"
    by (intro set_block_state_mark) (auto simp: pmm_core_def)
  have fr: "heap_start ?s = heap_start s" "heap_end ?s = heap_end s" "max_blocks ?s = max_blocks s"
    by simp_all
  have st: "block_state ?s i = (if page_addr s i \<in> rng ord a then BLOCK_ALLOCATED else block_state s i)" for i
    by (simp add: mark_def)
  have "block_map_ok ?s (blocks FL) {}"
    using core dis unfolding pmm_core_def block_map_ok_def st heap_frame[OF fr] fr by auto
  then show "pmm_core ?s FL {}"
    using core unfolding pmm_core_def heap_frame[OF fr] by (auto simp: free_lists_rep_def)
qed

section \<open>Splitting\<close>

lemma hole_split:
  assumes h: "hole s FL (Suc ord) a"
  defines "b \<equiv> a + order_to_size ord"
  shows "u64_add a (order_to_size ord) = b"
    "set_block_state s b ord BLOCK_FREE = Some (mark s ord b BLOCK_FREE)"
    "hole (free_list_add (mark s ord b BLOCK_FREE) b ord) (FL(ord := b # FL ord)) ord a"
    "covered (blocks (FL(ord := b # FL ord))) = rng ord b \<union> covered (blocks FL)"
proof -
  have core: "pmm_core s FL (rng (Suc ord) a)" and ord: "Suc ord \<le> MAX_ORDER"
    and al: "order_to_size (Suc ord) dvd a" and heap: "in_heap s (Suc ord) a"
    and dis: "rng (Suc ord) a \<inter> covered (blocks FL) = {}"
    using h by (auto simp: hole_def)
  have geo: "heap_geometry s" using core by (simp add: pmm_core_def)
  have ala: "order_to_size ord dvd a" by (rule dvd_trans[OF order_to_size_dvd[of ord "Suc ord"] al]) simp
  then have alb: "order_to_size ord dvd b" by (simp add: b_def)
  have heapa: "in_heap s ord a" and heapb: "in_heap s ord b"
    using heap by (auto simp: in_heap_def b_def order_to_size_Suc)
  have halves: "rng (Suc ord) a = rng ord a \<union> rng ord b" unfolding b_def by (rule rng_halves)
  have dj: "rng ord a \<inter> rng ord b = {}" unfolding b_def by (rule rng_halves_disjoint)
  show "u64_add a (order_to_size ord) = b"
    unfolding b_def using heap geo by (intro u64_add_eq) (auto simp: in_heap_def heap_geometry_def order_to_size_Suc)
  show "set_block_state s b ord BLOCK_FREE = Some (mark s ord b BLOCK_FREE)"
    by (rule set_block_state_mark[OF geo heapb alb])
  have "get_buddy_addr a ord = b" using get_buddy_addr_eq[OF ala] al by (simp add: b_def)
  then have "get_buddy_addr b ord = a" using buddy_involutive[OF ala] by simp
  moreover have "a \<notin> set (FL ord)"
    using dis rng_self[of a "Suc ord"] rng_self[of a ord] ord
    unfolding covered_iff blocks_iff disjoint_iff by (meson Suc_leD)
  ultimately have bud: "get_buddy_addr b ord \<notin> set (FL ord)" by simp
  have put: "pmm_core (free_list_add (mark s ord b BLOCK_FREE) b ord) (FL(ord := b # FL ord)) (rng (Suc ord) a - rng ord b)"
    and cov: "covered (blocks (FL(ord := b # FL ord))) = rng ord b \<union> covered (blocks FL)"
    using core_put[OF core _ alb heapb _ _ bud] ord dis halves by auto
  have "rng (Suc ord) a - rng ord b = rng ord a" using halves dj by blast
  moreover have "rng ord a \<inter> (rng ord b \<union> covered (blocks FL)) = {}" using dis halves dj by blast
  ultimately show "hole (free_list_add (mark s ord b BLOCK_FREE) b ord) (FL(ord := b # FL ord)) ord a"
    using put cov ord ala heapa by (simp add: hole_def in_heap_def)
  show "covered (blocks (FL(ord := b # FL ord))) = rng ord b \<union> covered (blocks FL)" by (rule cov)
qed

text \<open>What an operation may change: the heap bounds, the page total and \<open>initialized\<close> stay.\<close>

definition same_heap :: "buddy_state \<Rightarrow> buddy_state \<Rightarrow> bool" where
  "same_heap s s' \<longleftrightarrow> heap_start s' = heap_start s \<and> heap_end s' = heap_end s \<and>
     max_blocks s' = max_blocks s \<and> pmm_initialized s' = pmm_initialized s \<and> total_pages s' = total_pages s"

lemma same_heap_refl [simp]: "same_heap s s"
  by (simp add: same_heap_def)

lemma same_heap_trans: "same_heap s s' \<Longrightarrow> same_heap s' s'' \<Longrightarrow> same_heap s s''"
  by (simp add: same_heap_def)

lemma split_down_ok:
  assumes "hole s FL ord a" "k \<le> ord"
  shows "\<exists>s' FL'. split_down a k ord s = Some s' \<and> hole s' FL' k a \<and> same_heap s s' \<and>
    free_pages s' = free_pages s \<and>
    listed_pages FL' + order_to_pages k = listed_pages FL + order_to_pages ord \<and>
    covered (blocks FL') = covered (blocks FL) \<union> (rng ord a - rng k a)"
  using assms
proof (induction ord arbitrary: s FL)
  case 0
  then show ?case by (intro exI[of _ s] exI[of _ FL]) simp
next
  case (Suc ord)
  show ?case
  proof (cases "k < Suc ord")
    case False
    then show ?thesis using Suc.prems by (intro exI[of _ s] exI[of _ FL]) simp
  next
    case True
    let ?b = "a + order_to_size ord"
    let ?s1 = "s\<lparr>split_count := u64_add (split_count s) 1\<rparr>"
    let ?s2 = "free_list_add (mark ?s1 ord ?b BLOCK_FREE) ?b ord" and ?FL = "FL(ord := ?b # FL ord)"
    have "hole ?s1 FL (Suc ord) a" using Suc.prems(1) by (subst hole_cong[of _ s]) simp_all
    note sp = hole_split[OF this]
    have ord: "ord \<le> MAX_ORDER" using Suc.prems(1) by (simp add: hole_def)
    obtain s' FL' where IH: "split_down a k ord ?s2 = Some s'" "hole s' FL' k a" "same_heap ?s2 s'"
        "free_pages s' = free_pages ?s2"
        "listed_pages FL' + order_to_pages k = listed_pages ?FL + order_to_pages ord"
        "covered (blocks FL') = covered (blocks ?FL) \<union> (rng ord a - rng k a)"
      using Suc.IH[OF sp(3) less_Suc_eq_le[THEN iffD1, OF True]] by blast
    have "split_down a k (Suc ord) s = Some s'" using True sp(1,2) IH(1) by (simp add: Let_def)
    moreover have "same_heap s s'" using IH(3) by (auto simp: same_heap_def)
    moreover have "listed_pages FL' + order_to_pages k = listed_pages FL + order_to_pages (Suc ord)"
      using IH(5) listed_pages_add[OF ord, of FL] by (simp add: order_to_pages_def)
    moreover have "covered (blocks FL') = covered (blocks FL) \<union> (rng (Suc ord) a - rng k a)"
    proof -
      have "rng k a \<subseteq> rng ord a" using True order_to_size_mono[of k ord] by (auto simp: rng_iff)
      then show ?thesis
        using IH(6) sp(4) rng_halves[of ord a] rng_halves_disjoint[of ord a] by blast
    qed
    ultimately show ?thesis using IH by (intro exI[of _ s'] exI[of _ FL']) simp
  qed
qed

lemma finish_alloc_ok:
  assumes h: "hole s FL ord a" and k: "k \<le> ord"
    and fp: "free_pages s = listed_pages FL + order_to_pages ord" "free_pages s < U64_MOD"
  shows "\<exists>s' FL'. finish_alloc a ord k s = Some (a, s') \<and> pmm_inv s' FL' \<and> same_heap s s' \<and>
    covered (blocks FL') = covered (blocks FL) \<union> (rng ord a - rng k a)"
proof -
  obtain s1 FL1 where 1: "split_down a k ord s = Some s1" "hole s1 FL1 k a" "same_heap s s1"
      "free_pages s1 = free_pages s"
      "listed_pages FL1 + order_to_pages k = listed_pages FL + order_to_pages ord"
      "covered (blocks FL1) = covered (blocks FL) \<union> (rng ord a - rng k a)"
    using split_down_ok[OF h k] by auto
  note cl = hole_close_alloc[OF 1(2)]
  let ?s2 = "mark s1 k a BLOCK_ALLOCATED"
  let ?s3 = "?s2\<lparr>free_pages := u64_sub (free_pages ?s2) (order_to_pages k),
      alloc_count := u64_add (alloc_count ?s2) 1\<rparr>"
  have "finish_alloc a ord k s = Some (a, ?s3)" by (simp add: finish_alloc_def 1(1) cl(1))
  moreover have "pmm_core ?s3 FL1 {}" using cl(2) by (subst pmm_core_cong[of _ ?s2]) simp_all
  moreover have "free_pages ?s3 = listed_pages FL1"
    using fp 1(4,5) by (simp add: u64_sub_eq)
  moreover have "same_heap s ?s3" using 1(3) by (simp add: same_heap_def)
  ultimately show ?thesis using 1(6) by (auto simp: pmm_inv_def)
qed

section \<open>The buddy test\<close>

lemma pages_free_from_eq:
  assumes "i \<le> j" "j < max_blocks s" "block_state s j \<noteq> BLOCK_FREE"
  shows "pages_free_from s i n = Some (\<forall>m. i \<le> m \<and> m < i + n \<longrightarrow> block_state s m = BLOCK_FREE)"
  using assms(1)
proof (induction n arbitrary: i)
  case (Suc n)
  show ?case
  proof (cases "block_state s i = BLOCK_FREE")
    case True
    then have "Suc i \<le> j" using Suc.prems assms(3) by (cases "i = j") auto
    moreover have "(\<forall>m. Suc i \<le> m \<and> m < Suc i + n \<longrightarrow> block_state s m = BLOCK_FREE) \<longleftrightarrow>
        (\<forall>m. i \<le> m \<and> m < i + Suc n \<longrightarrow> block_state s m = BLOCK_FREE)"
      using True by (metis Suc_leD add_Suc add_Suc_right le_antisym not_less_eq_eq)
    ultimately show ?thesis using Suc True assms(2) by simp
  next
    case False
    then show ?thesis using Suc.prems assms(2) by auto
  qed
qed auto

text \<open>The first page after the heap is never marked free: the sentinel of the scan.\<close>

lemma heap_end_not_free:
  assumes core: "pmm_core s FL X" and X: "X \<subseteq> {heap_start s ..< heap_end s}" and le: "heap_start s \<le> heap_end s"
  defines "j \<equiv> (heap_end s - heap_start s) div PAGE_SIZE"
  shows "j < max_blocks s" "block_state s j \<noteq> BLOCK_FREE"
proof -
  have geo: "heap_geometry s" using core by (simp add: pmm_core_def)
  then have "PAGE_SIZE dvd heap_end s - heap_start s" by (simp add: heap_geometry_def)
  then have j: "heap_end s = page_addr s j" using le by (simp add: j_def page_addr_def)
  show jm: "j < max_blocks s" using geo j unfolding heap_geometry_def page_addr_def by auto
  have "page_addr s j \<notin> covered (blocks FL)" "page_addr s j \<notin> X"
    using covered_in_heap[of s "blocks FL"] core X j by (auto simp: pmm_core_def)
  then show "block_state s j \<noteq> BLOCK_FREE"
    using core jm by (auto simp: pmm_core_def block_map_ok_def)
qed

lemma rng_covered_pages:
  assumes geo: "heap_geometry s" and al: "aligned_blocks B" and b: "heap_start s \<le> b" "PAGE_SIZE dvd b"
    and pages: "\<And>m. page_addr s m \<in> rng ord b \<Longrightarrow> page_addr s m \<in> covered B"
  shows "rng ord b \<subseteq> covered B"
proof
  fix x assume x: "x \<in> rng ord b"
  define m where "m = (x - heap_start s) div PAGE_SIZE"
  have hx: "heap_start s \<le> x" using x b(1) by (simp add: rng_iff)
  have px: "page_addr s m \<le> x" "x < page_addr s m + PAGE_SIZE"
    using hx unfolding page_addr_def m_def by (auto simp: algebra_simps)
  have pd: "PAGE_SIZE dvd page_addr s m" using geo by (simp add: page_addr_def heap_geometry_def)
  have "b \<le> page_addr s m"
  proof (rule ccontr)
    assume "\<not> b \<le> page_addr s m"
    then have "page_addr s m + PAGE_SIZE \<le> b" using pow2_dvd_less_step[OF pd b(2)] by simp
    then show False using px x by (simp add: rng_iff)
  qed
  then have "page_addr s m \<in> rng ord b" using px x by (simp add: rng_iff)
  from covered_page[OF al pd pages[OF this]] px show "x \<in> covered B"
    by (auto simp: rng_iff subset_iff order_to_size_def order_to_pages_def)
qed

text \<open>
  The page scan of \<open>is_buddy_free\<close> decides exactly whether the buddy heads an entry of the free
  list of this order, and it never reads outside \<open>block_state[]\<close>.
\<close>

lemma buddy_listed_free:
  assumes h: "hole s FL ord a" and b: "get_buddy_addr a ord \<in> set (FL ord)"
    and m: "page_addr s m \<in> rng ord (get_buddy_addr a ord)"
  shows "block_state s m = BLOCK_FREE"
proof -
  let ?b = "get_buddy_addr a ord"
  have core: "pmm_core s FL (rng ord a)" and ord: "ord \<le> MAX_ORDER" and al: "order_to_size ord dvd a"
    using h by (auto simp: hole_def)
  have geo: "heap_geometry s" using core by (simp add: pmm_core_def)
  note bb = block_unfold[OF core ord b]
  have "heap_start s \<le> ?b" using bb(2) by (simp add: in_heap_def)
  then have "m < max_blocks s"
    using page_in_rng[OF geo _ page_dvd_block[OF bb(1)], of m ord] m block_index_bound[OF geo bb(2,1)] by auto
  moreover have "page_addr s m \<notin> rng ord a" using buddy_disjoint[OF al] m by blast
  moreover have "page_addr s m \<in> covered (blocks FL)" using m bb(3) unfolding covered_iff by blast
  ultimately show ?thesis using core by (auto simp: pmm_core_def block_map_ok_def)
qed

lemma free_buddy_listed:
  assumes h: "hole s FL ord a" and ord: "ord < MAX_ORDER"
    and hs: "heap_start s \<le> get_buddy_addr a ord" and heap: "get_buddy_addr a ord + order_to_size ord \<le> heap_end s"
    and free: "\<And>m. page_addr s m \<in> rng ord (get_buddy_addr a ord) \<Longrightarrow> block_state s m = BLOCK_FREE"
  shows "get_buddy_addr a ord \<in> set (FL ord)"
proof -
  let ?b = "get_buddy_addr a ord"
  have core: "pmm_core s FL (rng ord a)" and al: "order_to_size ord dvd a"
    and dis: "rng ord a \<inter> covered (blocks FL) = {}"
    using h by (auto simp: hole_def)
  have geo: "heap_geometry s" and aln: "aligned_blocks (blocks FL)" and co: "coalesced (blocks FL)"
    using core by (auto simp: pmm_core_def blocks_ok_def)
  have alb: "order_to_size ord dvd ?b" by (rule buddy_aligned[OF al])
  have inh: "in_heap s ord ?b" using hs heap by (simp add: in_heap_def)
  have "page_addr s m \<in> covered (blocks FL)" if m: "page_addr s m \<in> rng ord ?b" for m
  proof -
    have "m < max_blocks s"
      using page_in_rng[OF geo hs page_dvd_block[OF alb]] m block_index_bound[OF geo inh alb] by auto
    moreover have "page_addr s m \<notin> rng ord a" using buddy_disjoint[OF al] m by blast
    ultimately show ?thesis using core free[OF m] by (auto simp: pmm_core_def block_map_ok_def)
  qed
  then have "rng ord ?b \<subseteq> covered (blocks FL)"
    by (rule rng_covered_pages[OF geo aln hs page_dvd_block[OF alb]])
  then obtain k c where kc: "(k, c) \<in> blocks FL" "ord \<le> k" "rng ord ?b \<subseteq> rng k c"
    using tiling[OF aln co _ alb] ord by auto
  have "k = ord"
  proof (rule ccontr)
    assume "k \<noteq> ord"
    then have k: "Suc ord \<le> k" using kc(2) by simp
    have "rng (Suc ord) (min a ?b) \<subseteq> rng k c"
    proof (rule aligned_nested[OF k merged_aligned[OF al]])
      show "order_to_size k dvd c" using aln kc(1) by (auto simp: aligned_blocks_def)
      show "rng (Suc ord) (min a ?b) \<inter> rng k c \<noteq> {}"
        unfolding merged_rng[OF al] using kc(3) rng_self[of ?b ord] by blast
    qed
    then have "a \<in> covered (blocks FL)"
      unfolding merged_rng[OF al] covered_iff using kc(1) rng_self[of a ord] by blast
    then show False using dis rng_self[of a ord] by blast
  qed
  moreover have "c = ?b" if "k = ord"
    using kc(3) that order_to_size_pos[of ord] by (auto simp: rng_def simp del: order_to_size_pos)
  ultimately show ?thesis using kc(1) by (auto simp: blocks_iff)
qed

lemma is_buddy_free_eq:
  assumes h: "hole s FL ord a" and ord: "ord < MAX_ORDER"
  shows "is_buddy_free s (get_buddy_addr a ord) ord = Some (get_buddy_addr a ord \<in> set (FL ord))"
proof (cases "get_buddy_addr a ord < heap_start s \<or> heap_end s \<le> get_buddy_addr a ord")
  case True
  have core: "pmm_core s FL (rng ord a)" using h by (simp add: hole_def)
  have "get_buddy_addr a ord \<notin> set (FL ord)"
  proof
    assume "get_buddy_addr a ord \<in> set (FL ord)"
    then have "in_heap s ord (get_buddy_addr a ord)" using block_unfold(2)[OF core] ord by simp
    then show False using True order_to_size_pos[of ord] unfolding in_heap_def by linarith
  qed
  then show ?thesis using True by (simp add: is_buddy_free_def)
next
  case False
  let ?b = "get_buddy_addr a ord" and ?j = "(heap_end s - heap_start s) div PAGE_SIZE"
  define i where "i = (?b - heap_start s) div PAGE_SIZE"
  have core: "pmm_core s FL (rng ord a)" and al: "order_to_size ord dvd a" and inh: "in_heap s ord a"
    using h by (auto simp: hole_def)
  have geo: "heap_geometry s" using core by (simp add: pmm_core_def)
  have hs: "heap_start s \<le> ?b" "?b < heap_end s" using False by auto
  have pg: "page_addr s m \<in> rng ord ?b \<longleftrightarrow> i \<le> m \<and> m < i + order_to_pages ord" for m
    unfolding i_def by (rule page_in_rng[OF geo hs(1) page_dvd_block[OF buddy_aligned[OF al]]])
  have "rng ord a \<subseteq> {heap_start s ..< heap_end s}" using inh by (auto simp: in_heap_def rng_iff)
  from heap_end_not_free[OF core this] hs
  have j: "?j < max_blocks s" "block_state s ?j \<noteq> BLOCK_FREE" by auto
  have ij: "i \<le> ?j" unfolding i_def using hs by (intro div_le_mono) simp
  have scan: "is_buddy_free s ?b ord = Some (\<forall>m. page_addr s m \<in> rng ord ?b \<longrightarrow> block_state s m = BLOCK_FREE)"
    using hs addr_index[OF geo hs] pages_free_from_eq[OF ij j] by (simp add: is_buddy_free_def pg i_def)
  have "?b \<in> set (FL ord)" if all: "\<forall>m. page_addr s m \<in> rng ord ?b \<longrightarrow> block_state s m = BLOCK_FREE"
  proof (rule free_buddy_listed[OF h ord hs(1)])
    have "\<not> (i \<le> ?j \<and> ?j < i + order_to_pages ord)" using all j pg by blast
    then have "i + order_to_pages ord \<le> ?j" using ij by simp
    then have "PAGE_SIZE * i + order_to_size ord \<le> PAGE_SIZE * ?j" by (simp add: order_to_size_def)
    moreover have "PAGE_SIZE dvd ?b - heap_start s" "PAGE_SIZE dvd heap_end s - heap_start s"
      using geo page_dvd_block[OF buddy_aligned[OF al]] by (auto simp: heap_geometry_def)
    ultimately show "?b + order_to_size ord \<le> heap_end s" using hs unfolding i_def by auto
  qed (use all in blast)
  moreover have "\<forall>m. page_addr s m \<in> rng ord ?b \<longrightarrow> block_state s m = BLOCK_FREE" if "?b \<in> set (FL ord)"
    using buddy_listed_free[OF h that] by blast
  ultimately show ?thesis unfolding scan by blast
qed

end
