(* ===== verification/PmmAlloc.thy ===== *)
theory PmmAlloc
  imports PmmCorrect
begin

text \<open>
  The contracts of the whole operations: the coalescing loop, \<open>buddy_free\<close>, the two allocators and
  the public entry points.  \<open>free_mem s\<close> is the set of free bytes as the state array shows it;
  \<open>pmm_valid s\<close> says that some list representation satisfies the invariant.
\<close>

section \<open>The coalescing loop\<close>

lemma hole_merge:
  assumes h: "hole s FL ord a" and ord: "ord < MAX_ORDER" and b: "get_buddy_addr a ord \<in> set (FL ord)"
  defines "b \<equiv> get_buddy_addr a ord"
  shows "hole (free_list_remove s b ord) (FL(ord := remove1 b (FL ord))) (Suc ord) (min a b)"
    "covered (blocks (FL(ord := remove1 b (FL ord)))) = covered (blocks FL) - rng ord b"
    "listed_pages (FL(ord := remove1 b (FL ord))) + order_to_pages ord = listed_pages FL"
proof -
  let ?s = "free_list_remove s b ord" and ?FL = "FL(ord := remove1 b (FL ord))"
  have core: "pmm_core s FL (rng ord a)" and al: "order_to_size ord dvd a"
    and inh: "in_heap s ord a" and dis: "rng ord a \<inter> covered (blocks FL) = {}" and ordm: "ord \<le> MAX_ORDER"
    using h by (auto simp: hole_def)
  have bin: "b \<in> set (FL ord)" using b by (simp add: b_def)
  have rep: "free_lists_rep ?s ?FL"
    using core list_length_bound[OF core ordm] bin ordm by (intro free_lists_rep_remove) (auto simp: pmm_core_def)
  note take = core_take[OF core ordm bin rep]
  show cov: "covered (blocks ?FL) = covered (blocks FL) - rng ord b" using take(2) by simp
  have m: "rng (Suc ord) (min a b) = rng ord a \<union> rng ord b" unfolding b_def by (rule merged_rng[OF al])
  have "in_heap s ord b" by (rule block_unfold(2)[OF core ordm bin])
  moreover have "min a b + order_to_size (Suc ord) = max a b + order_to_size ord"
    using al unfolding b_def by (cases rule: buddy_cases) (auto simp: order_to_size_Suc)
  ultimately have "in_heap s (Suc ord) (min a b)"
    using inh unfolding in_heap_def by (auto simp: min_def max_def split: if_splits)
  then show "hole ?s ?FL (Suc ord) (min a b)"
    using take(1) m cov dis ord merged_aligned[OF al] unfolding hole_def b_def[symmetric]
    by (auto simp: in_heap_def)
  show "listed_pages ?FL + order_to_pages ord = listed_pages FL" using ordm bin by (rule listed_pages_remove)
qed

text \<open>The loop ends with a hole at least as large, whose buddy (if it may merge) is not free.\<close>

lemma coalesce_ok:
  assumes "hole s FL ord a"
  shows "\<exists>s' FL' k b. coalesce a ord s = Some (b, k, s') \<and> hole s' FL' k b \<and> same_heap s s' \<and>
    free_pages s' = free_pages s \<and> (k < MAX_ORDER \<longrightarrow> get_buddy_addr b k \<notin> set (FL' k)) \<and>
    listed_pages FL' + order_to_pages k = listed_pages FL + order_to_pages ord \<and>
    rng k b \<union> covered (blocks FL') = rng ord a \<union> covered (blocks FL)"
  using assms
proof (induction "MAX_ORDER - ord" arbitrary: ord a s FL)
  case 0
  then have "ord = MAX_ORDER" by (simp add: hole_def)
  then have "coalesce a ord s = Some (a, ord, s)" by (simp add: coalesce.simps)
  then show ?case using 0 \<open>ord = MAX_ORDER\<close> by (intro exI[of _ s] exI[of _ FL] exI[of _ ord] exI[of _ a]) simp
next
  case (Suc d)
  have ord: "ord < MAX_ORDER" using Suc.hyps(2) by simp
  have al: "order_to_size ord dvd a" using Suc.prems by (simp add: hole_def)
  let ?b = "get_buddy_addr a ord"
  note free = is_buddy_free_eq[OF Suc.prems ord]
  show ?case
  proof (cases "?b \<in> set (FL ord)")
    case False
    then have "coalesce a ord s = Some (a, ord, s)" using ord free by (simp add: coalesce.simps)
    then show ?thesis using Suc.prems False by (intro exI[of _ s] exI[of _ FL] exI[of _ ord] exI[of _ a]) simp
  next
    case True
    note m = hole_merge[OF Suc.prems ord True]
    let ?s1 = "free_list_remove s ?b ord" and ?FL = "FL(ord := remove1 ?b (FL ord))"
    let ?s2 = "?s1\<lparr>merge_count := u64_add (merge_count ?s1) 1\<rparr>"
    have "hole ?s2 ?FL (Suc ord) (min a ?b)" using m(1) by (subst hole_cong[of _ ?s1]) simp_all
    moreover have "d = MAX_ORDER - Suc ord" using Suc.hyps(2) by simp
    ultimately
    obtain s' FL' k b where r: "coalesce (min a ?b) (Suc ord) ?s2 = Some (b, k, s')" "hole s' FL' k b"
        "same_heap ?s2 s'" "free_pages s' = free_pages ?s2"
        "k < MAX_ORDER \<longrightarrow> get_buddy_addr b k \<notin> set (FL' k)"
        "listed_pages FL' + order_to_pages k = listed_pages ?FL + order_to_pages (Suc ord)"
        "rng k b \<union> covered (blocks FL') = rng (Suc ord) (min a ?b) \<union> covered (blocks ?FL)"
      using Suc.hyps(1) by blast
    have "is_aligned_to_order (min a ?b) (Suc ord)"
      using merged_aligned[OF al] by (simp add: is_aligned_iff_dvd)
    moreover have "(if a < ?b then a else ?b) = min a ?b" by (simp add: min_def)
    ultimately have "coalesce a ord s = Some (b, k, s')"
      using ord free True r(1) by (subst coalesce.simps) (simp add: Let_def)
    moreover have "same_heap s s'" using r(3) by (auto simp: same_heap_def)
    moreover have "listed_pages FL' + order_to_pages k = listed_pages FL + order_to_pages ord"
      using r(6) m(3) by (simp add: order_to_pages_def)
    moreover have "rng k b \<union> covered (blocks FL') = rng ord a \<union> covered (blocks FL)"
    proof -
      have "rng ord ?b \<subseteq> covered (blocks FL)"
        using True ord unfolding covered_iff blocks_iff subset_iff by (meson less_imp_le)
      then show ?thesis using r(7) m(2) merged_rng[OF al] by blast
    qed
    ultimately show ?thesis using r(2,4,5) by (intro exI[of _ s'] exI[of _ FL'] exI[of _ k] exI[of _ b]) simp
  qed
qed

lemma buddy_free_ok:
  assumes h: "hole s FL ord a" and fp: "free_pages s = listed_pages FL"
  shows "\<exists>s' FL'. buddy_free a ord ord s = Some s' \<and> pmm_inv s' FL' \<and> same_heap s s' \<and>
    covered (blocks FL') = rng ord a \<union> covered (blocks FL)"
proof -
  obtain s1 FL1 k b where c: "coalesce a ord s = Some (b, k, s1)" "hole s1 FL1 k b" "same_heap s s1"
      "free_pages s1 = free_pages s" "k < MAX_ORDER \<longrightarrow> get_buddy_addr b k \<notin> set (FL1 k)"
      "listed_pages FL1 + order_to_pages k = listed_pages FL + order_to_pages ord"
      "rng k b \<union> covered (blocks FL1) = rng ord a \<union> covered (blocks FL)"
    using coalesce_ok[OF h] by blast
  have core: "pmm_core s1 FL1 (rng k b)" and k: "k \<le> MAX_ORDER" "order_to_size k dvd b" "in_heap s1 k b"
    and dis: "rng k b \<inter> covered (blocks FL1) = {}"
    using c(2) by (auto simp: hole_def)
  let ?s2 = "mark s1 k b BLOCK_FREE" and ?FL = "FL1(k := b # FL1 k)"
  let ?s3 = "free_list_add ?s2 b k"
  let ?s4 = "?s3\<lparr>free_pages := u64_add (free_pages ?s3) (order_to_pages ord), free_count := u64_add (free_count ?s3) 1\<rparr>"
  have put: "pmm_core ?s3 ?FL {}" "covered (blocks ?FL) = rng k b \<union> covered (blocks FL1)"
    using core_put[OF core k subset_refl dis] c(5) by auto
  have "set_block_state s1 b k BLOCK_FREE = Some ?s2"
    using core k by (intro set_block_state_mark) (auto simp: pmm_core_def)
  then have "buddy_free a ord ord s = Some ?s4" by (simp add: buddy_free_def c(1) Let_def)
  moreover have core4: "pmm_core ?s4 ?FL {}" using put(1) by (subst pmm_core_cong[of _ ?s3]) simp_all
  moreover have "free_pages ?s4 = listed_pages ?FL"
  proof -
    have lp: "listed_pages ?FL = listed_pages FL + order_to_pages ord"
      using listed_pages_add[OF k(1), of FL1 b] c(6) by simp
    then have "listed_pages FL + order_to_pages ord < U64_MOD" using listed_pages_less[OF core4] by simp
    then show ?thesis unfolding lp using c(4) fp by (simp add: u64_add_eq)
  qed
  moreover have "same_heap s ?s4" using c(3) by (simp add: same_heap_def)
  ultimately show ?thesis using put(2) c(7) by (intro exI[of _ ?s4] exI[of _ ?FL]) (simp add: pmm_inv_def)
qed

section \<open>Allocation\<close>

text \<open>Taking the listed block \<open>(ord, a)\<close> and splitting it down to order \<open>k\<close>, common to both allocators.\<close>

lemma take_split_ok:
  assumes inv: "pmm_inv s FL" and ord: "ord \<le> MAX_ORDER" and a: "a \<in> set (FL ord)" and k: "k \<le> ord"
    and rep: "free_lists_rep s1 (FL(ord := remove1 a (FL ord)))" and same: "same_heap s s1"
    and st: "block_state s1 = block_state s" "free_pages s1 = free_pages s"
  shows "\<exists>s' FL'. finish_alloc a ord k s1 = Some (a, s') \<and> pmm_inv s' FL' \<and> same_heap s s' \<and>
    order_to_size k dvd a \<and> in_heap s k a \<and> rng k a \<subseteq> covered (blocks FL) \<and>
    covered (blocks FL') = covered (blocks FL) - rng k a"
proof -
  have core: "pmm_core s FL {}" using inv by (simp add: pmm_inv_def)
  note bl = block_unfold[OF core ord a]
  let ?FL = "FL(ord := remove1 a (FL ord))"
  have h: "hole s1 ?FL ord a"
    by (rule hole_take[OF core ord a rep]) (use same st in \<open>auto simp: same_heap_def\<close>)
  have cov: "covered (blocks ?FL) = covered (blocks FL) - rng ord a"
    by (rule core_take(2)[OF core ord a rep]) (use same st in \<open>auto simp: same_heap_def\<close>)
  have lp: "listed_pages ?FL + order_to_pages ord = listed_pages FL" using ord a by (rule listed_pages_remove)
  have fp: "free_pages s1 = listed_pages ?FL + order_to_pages ord" "free_pages s1 < U64_MOD"
    using inv lp st listed_pages_less[OF core] by (auto simp: pmm_inv_def)
  obtain s' FL' where f: "finish_alloc a ord k s1 = Some (a, s')" "pmm_inv s' FL'" "same_heap s1 s'"
      "covered (blocks FL') = covered (blocks ?FL) \<union> (rng ord a - rng k a)"
    using finish_alloc_ok[OF h k fp] by blast
  have ka: "rng k a \<subseteq> rng ord a" using order_to_size_mono[OF k] by (auto simp: rng_iff)
  have oa: "rng ord a \<subseteq> covered (blocks FL)" using bl(3) unfolding covered_iff subset_iff by blast
  have "covered (blocks FL') = covered (blocks FL) - rng k a" using f(4) cov ka oa by blast
  moreover have "order_to_size k dvd a" using bl(1) order_to_size_dvd[OF k] by (rule dvd_trans[rotated])
  moreover have "in_heap s k a" using bl(2) order_to_size_mono[OF k] by (simp add: in_heap_def)
  ultimately show ?thesis using f same_heap_trans[OF same f(3)] ka oa by blast
qed

lemma buddy_alloc_from_ok:
  assumes inv: "pmm_inv s FL" and "k \<le> ord"
  shows "(\<exists>a s' FL'. buddy_alloc_from ord k s = Some (a, s') \<and> pmm_inv s' FL' \<and> same_heap s s' \<and>
      order_to_size k dvd a \<and> in_heap s k a \<and> rng k a \<subseteq> covered (blocks FL) \<and>
      covered (blocks FL') = covered (blocks FL) - rng k a) \<or>
    (buddy_alloc_from ord k s = Some (PMM_ALLOC_FAIL, s) \<and> (\<forall>j. ord \<le> j \<and> j \<le> MAX_ORDER \<longrightarrow> FL j = []))"
  using assms(2)
proof (induction "Suc MAX_ORDER - ord" arbitrary: ord)
  case 0
  then have "MAX_ORDER < ord" by simp
  then show ?case by (intro disjI2 conjI allI impI) (simp_all add: buddy_alloc_from.simps)
next
  case (Suc d)
  have ord: "ord \<le> MAX_ORDER" using Suc.hyps(2) by simp
  have core: "pmm_core s FL {}" using inv by (simp add: pmm_inv_def)
  then have rep: "free_lists_rep s FL" and sep: "separate FL" by (auto simp: pmm_core_def)
  have cnt: "free_counts s ord = length (FL ord)" using rep ord by (simp add: free_lists_rep_def)
  show ?case
  proof (cases "FL ord")
    case Nil
    then have step: "buddy_alloc_from ord k s = buddy_alloc_from (Suc ord) k s"
      using ord cnt by (subst buddy_alloc_from.simps) simp
    have d: "d = Suc MAX_ORDER - Suc ord" using Suc.hyps(2) by simp
    have more: "\<forall>j. ord \<le> j \<and> j \<le> MAX_ORDER \<longrightarrow> FL j = []"
      if "\<forall>j. Suc ord \<le> j \<and> j \<le> MAX_ORDER \<longrightarrow> FL j = []"
      using that Nil by (metis Suc_leI le_neq_implies_less)
    from Suc.hyps(1)[OF d le_SucI[OF Suc.prems]] show ?thesis unfolding step using more by blast
  next
    case (Cons a as)
    then have a: "a \<in> set (FL ord)" "remove1 a (FL ord) = as" by auto
    obtain s1 where p: "free_list_pop s ord = (a, s1)" "free_lists_rep s1 (FL(ord := as))"
        "block_state s1 = block_state s" "free_pages s1 = free_pages s" "same_heap s s1"
      using free_lists_rep_pop[OF rep sep ord Cons list_length_bound[OF core ord]] unfolding same_heap_def by metis
    have "buddy_alloc_from ord k s = finish_alloc a ord k s1"
      using ord cnt Cons p(1) by (subst buddy_alloc_from.simps) simp
    then show ?thesis
      using take_split_ok[OF inv ord a(1) Suc.prems, of s1] p(2-5) a(2) by auto
  qed
qed

section \<open>The low-address scan\<close>

text \<open>\<open>scan_low\<close> walks the whole list, and the two nested loops return the lowest block of all
  lists they visit.\<close>

definition lower_of :: "(nat \<times> nat) option \<Rightarrow> nat \<Rightarrow> nat \<Rightarrow> (nat \<times> nat) option" where
  "lower_of best ord blk = (case best of
     None \<Rightarrow> Some (blk, ord) | Some (best_addr, best_order) \<Rightarrow> if blk < best_addr then Some (blk, ord) else best)"

lemma scan_low_eq:
  "dll (mem s) p h xs \<Longrightarrow> scan_low s ord (length xs) h best = Some (fold (\<lambda>blk best. lower_of best ord blk) xs best)"
  by (induction xs arbitrary: p h best) (auto simp: lower_of_def)

definition lowest :: "(nat \<times> nat) set \<Rightarrow> (nat \<times> nat) option \<Rightarrow> bool" where
  "lowest B best \<longleftrightarrow> (case best of None \<Rightarrow> B = {}
     | Some (a, ord) \<Rightarrow> (ord, a) \<in> B \<and> (\<forall>(k, b) \<in> B. a \<le> b))"

lemma lowest_fold:
  "lowest B best \<Longrightarrow> lowest (B \<union> Pair ord ` set xs) (fold (\<lambda>blk best. lower_of best ord blk) xs best)"
proof (induction xs arbitrary: B best)
  case (Cons x xs)
  have "lowest (insert (ord, x) B) (lower_of best ord x)"
    using Cons.prems by (auto simp: lowest_def lower_of_def split: option.splits prod.splits)
  from Cons.IH[OF this] show ?case by simp
qed simp

lemma scan_orders_ok:
  assumes rep: "free_lists_rep s FL" and "\<forall>ord \<in> set ords. ord \<le> MAX_ORDER" "lowest B best"
  shows "\<exists>r. scan_orders s ords best = Some r \<and> lowest (B \<union> (SIGMA ord:set ords. set (FL ord))) r"
  using assms(2,3)
proof (induction ords arbitrary: B best)
  case (Cons ord ords)
  let ?r = "fold (\<lambda>blk best. lower_of best ord blk) (FL ord) best"
  have "dll (mem s) 0 (free_lists s ord) (FL ord)" "free_counts s ord = length (FL ord)"
    using rep Cons.prems by (auto simp: free_lists_rep_def)
  then have "scan_low s ord (free_counts s ord) (free_lists s ord) best = Some ?r"
    using scan_low_eq by metis
  moreover have "lowest (B \<union> Pair ord ` set (FL ord)) ?r" by (rule lowest_fold[OF Cons.prems(2)])
  moreover have "B \<union> Pair ord ` set (FL ord) \<union> (SIGMA k:set ords. set (FL k)) = B \<union> (SIGMA k:set (ord # ords). set (FL k))"
    by auto
  ultimately show ?case using Cons.IH[of "B \<union> Pair ord ` set (FL ord)" ?r] Cons.prems(1) by auto
qed simp

section \<open>Free memory as the state array shows it\<close>

definition free_mem :: "buddy_state \<Rightarrow> nat set" where
  "free_mem s = {x. \<exists>i < max_blocks s. block_state s i = BLOCK_FREE \<and> page_addr s i \<le> x \<and> x < page_addr s i + PAGE_SIZE}"

definition pmm_valid :: "buddy_state \<Rightarrow> bool" where
  "pmm_valid s \<longleftrightarrow> pmm_initialized s \<and> (\<exists>FL. pmm_inv s FL)"

lemma free_mem_eq:
  assumes "pmm_inv s FL"
  shows "free_mem s = covered (blocks FL)"
proof -
  have core: "pmm_core s FL {}" using assms by (simp add: pmm_inv_def)
  then have geo: "heap_geometry s" and al: "aligned_blocks (blocks FL)" and bok: "blocks_ok s (blocks FL)"
    by (auto simp: pmm_core_def blocks_ok_def)
  have map: "block_state s i = BLOCK_FREE \<longleftrightarrow> page_addr s i \<in> covered (blocks FL)" if "i < max_blocks s" for i
    using core that by (simp add: pmm_core_def block_map_ok_def)
  have pd: "PAGE_SIZE dvd page_addr s i" for i using geo by (simp add: page_addr_def heap_geometry_def)
  show ?thesis
  proof (intro subset_antisym subsetI)
    fix x assume "x \<in> free_mem s"
    then obtain i where "i < max_blocks s" "block_state s i = BLOCK_FREE" "page_addr s i \<le> x" "x < page_addr s i + PAGE_SIZE"
      by (auto simp: free_mem_def)
    then show "x \<in> covered (blocks FL)"
      using covered_page[OF al pd] map by (auto simp: rng_iff subset_iff order_to_size_def order_to_pages_def)
  next
    fix x assume "x \<in> covered (blocks FL)"
    then obtain ord a where oa: "(ord, a) \<in> blocks FL" "x \<in> rng ord a" by (auto simp: covered_iff)
    then have a: "PAGE_SIZE dvd a" "in_heap s ord a"
      using al bok page_dvd_block by (auto simp: aligned_blocks_def blocks_ok_def)
    define m where "m = (x - heap_start s) div PAGE_SIZE"
    have x: "heap_start s \<le> x" "x < heap_end s" using oa(2) a(2) by (auto simp: in_heap_def rng_iff)
    then have p: "page_addr s m \<le> x" "x < page_addr s m + PAGE_SIZE" by (auto simp: page_addr_def m_def)
    have "\<not> page_addr s m < a" using pow2_dvd_less_step[OF pd a(1), of m] p oa(2) by (auto simp: rng_iff)
    then have "page_addr s m \<in> covered (blocks FL)" using oa p unfolding covered_iff rng_iff by (meson le_less_trans not_less)
    moreover have "m < max_blocks s" using addr_index[OF geo x] unfolding addr_to_block_index_def m_def by (auto simp: Let_def split: if_splits)
    ultimately show "x \<in> free_mem s" using map p by (auto simp: free_mem_def)
  qed
qed

lemma pmm_validE:
  assumes "pmm_valid s"
  obtains FL where "pmm_initialized s" "pmm_inv s FL" "free_mem s = covered (blocks FL)" "heap_geometry s"
  using assms free_mem_eq by (auto simp: pmm_valid_def pmm_inv_def pmm_core_def)

lemma pmm_validI: "pmm_valid s \<Longrightarrow> same_heap s s' \<Longrightarrow> pmm_inv s' FL \<Longrightarrow> pmm_valid s'"
  by (auto simp: pmm_valid_def same_heap_def)

text \<open>The order \<open>pmm_alloc_pages\<close> computes for a request of \<open>n\<close> pages, and the bytes such a block has.\<close>

definition request_order :: "nat \<Rightarrow> nat" where
  "request_order n = (case log2_ceil n of Some k \<Rightarrow> k | None \<Rightarrow> 0)"

definition request_ok :: "nat \<Rightarrow> bool" where
  "request_ok n \<longleftrightarrow> 0 < n \<and> n \<le> order_to_pages MAX_ORDER"

definition block_bytes :: "nat \<Rightarrow> nat \<Rightarrow> nat set" where
  "block_bytes n a = {a ..< a + order_to_size (request_order n)}"

definition block_aligned :: "nat \<Rightarrow> nat \<Rightarrow> bool" where
  "block_aligned n a \<longleftrightarrow> a \<noteq> 0 \<and> order_to_size (request_order n) dvd a"

definition heap_bytes :: "buddy_state \<Rightarrow> nat set" where
  "heap_bytes s = {heap_start s ..< heap_end s}"

lemma block_bytes_rng: "block_bytes n a = rng (request_order n) a"
  by (simp add: block_bytes_def rng_def)

lemma request_order_props:
  assumes "request_ok n"
  shows "log2_ceil n = Some (request_order n)" "request_order n \<le> MAX_ORDER"
    "n * PAGE_SIZE \<le> order_to_size (request_order n)" "order_to_size (request_order n) < 2 * n * PAGE_SIZE"
proof -
  have n: "0 < n" "n \<le> 2 ^ 19" using assms by (auto simp: request_ok_def order_to_pages_def)
  then obtain j where j: "log2_ceil n = Some j" "n \<le> 2 ^ j" "j = 0 \<or> 2 ^ (j - 1) < n"
    using log2_ceil_returns[of n] by auto
  have r: "request_order n = j" by (simp add: request_order_def j(1))
  show "log2_ceil n = Some (request_order n)" by (simp add: r j(1))
  show "n * PAGE_SIZE \<le> order_to_size (request_order n)" using j(2) by (simp add: r order_to_size_def order_to_pages_def)
  have "(2::nat) ^ j < 2 * n" using j(3) n(1) by (cases j) auto
  then show "order_to_size (request_order n) < 2 * n * PAGE_SIZE" by (simp add: r order_to_size_def order_to_pages_def)
  show "request_order n \<le> MAX_ORDER"
  proof (rule ccontr)
    assume "\<not> request_order n \<le> MAX_ORDER"
    then have "19 \<le> j - 1" "j \<noteq> 0" using r by auto
    then have "(2::nat) ^ 19 \<le> 2 ^ (j - 1)" by (intro power_increasing) auto
    then show False using j(3) n(2) \<open>j \<noteq> 0\<close> by simp
  qed
qed

end
