(* ===== verification/PageAllocator.thy ===== *)
theory PageAllocator
  imports PmmAlloc
begin

text \<open>
  The contract the rest of the kernel relies on when it calls the page allocator, as a locale, and
  what follows from it for any client: along every sequence of allocations and frees the live
  blocks stay pairwise disjoint, no free ever fails, and no memory is lost.
\<close>

locale page_allocator =
  fixes alloc :: "nat \<Rightarrow> 's \<Rightarrow> (nat \<times> 's) option"
    and free :: "nat \<Rightarrow> nat \<Rightarrow> 's \<Rightarrow> 's option"
    and valid :: "'s \<Rightarrow> bool"
    and avail :: "'s \<Rightarrow> nat set"
    and heap :: "'s \<Rightarrow> nat set"
    and ok :: "nat \<Rightarrow> bool"
    and block :: "nat \<Rightarrow> nat \<Rightarrow> nat set"
    and proper :: "nat \<Rightarrow> nat \<Rightarrow> bool"
  assumes avail_heap: "valid s \<Longrightarrow> avail s \<subseteq> heap s"
    and alloc_returns: "valid s \<Longrightarrow> ok n \<Longrightarrow> \<exists>a s'. alloc n s = Some (a, s')"
    and alloc_block: "valid s \<Longrightarrow> ok n \<Longrightarrow> alloc n s = Some (a, s') \<Longrightarrow> a \<noteq> 0 \<Longrightarrow>
      valid s' \<and> heap s' = heap s \<and> proper n a \<and> block n a \<subseteq> avail s \<and> avail s' = avail s - block n a"
    and alloc_fails: "valid s \<Longrightarrow> ok n \<Longrightarrow> alloc n s = Some (0, s') \<Longrightarrow> s' = s"
    and free_block: "valid s \<Longrightarrow> ok n \<Longrightarrow> proper n a \<Longrightarrow> block n a \<subseteq> heap s \<Longrightarrow> block n a \<inter> avail s = {} \<Longrightarrow>
      \<exists>s'. free a n s = Some s' \<and> valid s' \<and> heap s' = heap s \<and> avail s' = avail s \<union> block n a"
begin

text \<open>One call of a client that remembers its live blocks as pairs of request and address.\<close>

inductive client_step :: "'s \<times> (nat \<times> nat) list \<Rightarrow> 's \<times> (nat \<times> nat) list \<Rightarrow> bool" where
  got: "ok n \<Longrightarrow> alloc n s = Some (a, s') \<Longrightarrow> a \<noteq> 0 \<Longrightarrow> client_step (s, L) (s', (n, a) # L)"
| none: "ok n \<Longrightarrow> alloc n s = Some (0, s') \<Longrightarrow> client_step (s, L) (s', L)"
| put: "(n, a) \<in> set L \<Longrightarrow> free a n s = Some s' \<Longrightarrow> client_step (s, L) (s', remove1 (n, a) L)"

abbreviation bytes :: "nat \<times> nat \<Rightarrow> nat set" where
  "bytes b \<equiv> block (fst b) (snd b)"

definition client_inv :: "'s \<Rightarrow> 's \<times> (nat \<times> nat) list \<Rightarrow> bool" where
  "client_inv s0 c \<longleftrightarrow> (case c of (s, L) \<Rightarrow> valid s \<and> heap s = heap s0 \<and>
     (\<forall>b \<in> set L. ok (fst b) \<and> proper (fst b) (snd b)) \<and>
     sorted_wrt (\<lambda>b c. bytes b \<inter> bytes c = {}) L \<and>
     (\<forall>b \<in> set L. bytes b \<inter> avail s = {}) \<and> avail s \<union> (\<Union>b \<in> set L. bytes b) = avail s0)"

lemma client_inv_init: "valid s \<Longrightarrow> client_inv s (s, [])"
  by (simp add: client_inv_def)

lemma remove1_parts:
  assumes "b \<in> set L" "sorted_wrt (\<lambda>b c. bytes b \<inter> bytes c = {}) L"
  shows "sorted_wrt (\<lambda>b c. bytes b \<inter> bytes c = {}) (remove1 b L)"
    "\<forall>c \<in> set (remove1 b L). bytes b \<inter> bytes c = {}"
    "(\<Union>c \<in> set L. bytes c) = bytes b \<union> (\<Union>c \<in> set (remove1 b L). bytes c)"
proof -
  obtain xs ys where L: "L = xs @ b # ys" "b \<notin> set xs" using split_list_first[OF assms(1)] by blast
  then have r: "remove1 b L = xs @ ys" by (simp add: remove1_append)
  show "sorted_wrt (\<lambda>b c. bytes b \<inter> bytes c = {}) (remove1 b L)"
    using assms(2) unfolding r unfolding L by (simp add: sorted_wrt_append)
  show "\<forall>c \<in> set (remove1 b L). bytes b \<inter> bytes c = {}"
    using assms(2) unfolding r unfolding L by (auto simp: sorted_wrt_append)
  show "(\<Union>c \<in> set L. bytes c) = bytes b \<union> (\<Union>c \<in> set (remove1 b L). bytes c)"
    unfolding r unfolding L by auto
qed

lemma client_free:
  assumes inv: "client_inv s0 (s, L)" and v0: "valid s0" and b: "(n, a) \<in> set L"
  shows "\<exists>s'. free a n s = Some s' \<and> valid s' \<and> heap s' = heap s0 \<and> avail s' = avail s \<union> block n a"
proof -
  have "ok n" "proper n a" "block n a \<inter> avail s = {}" "valid s" "heap s = heap s0"
    and tot: "avail s \<union> (\<Union>b \<in> set L. bytes b) = avail s0"
    using inv b by (force simp: client_inv_def)+
  moreover have "block n a \<subseteq> avail s0" using tot b by force
  then have "block n a \<subseteq> heap s" using avail_heap[OF v0] \<open>heap s = heap s0\<close> by auto
  ultimately show ?thesis using free_block[of s n a] by metis
qed

lemma client_inv_step:
  assumes step: "client_step c c'" and inv: "client_inv s0 c" and v0: "valid s0"
  shows "client_inv s0 c'"
  using step
proof cases
  case (got n s a s' L)
  then have al: "valid s'" "heap s' = heap s" "proper n a" "block n a \<subseteq> avail s" "avail s' = avail s - block n a"
    using alloc_block[of s n a s'] inv by (auto simp: client_inv_def)
  have fresh: "\<forall>b \<in> set L. block n a \<inter> bytes b = {}"
    using inv al(4) got unfolding client_inv_def by fast
  then show ?thesis using inv got al unfolding client_inv_def by auto
next
  case (none n s s' L)
  then have "s' = s" using alloc_fails[of s n s'] inv by (auto simp: client_inv_def)
  then show ?thesis using none inv by simp
next
  case (put n a L s s')
  have f: "valid s'" "heap s' = heap s0" "avail s' = avail s \<union> block n a"
    using client_free[OF inv[unfolded put(1)] v0 put(3)] put(4) by auto
  have i: "sorted_wrt (\<lambda>b c. bytes b \<inter> bytes c = {}) L" "\<forall>b \<in> set L. ok (fst b) \<and> proper (fst b) (snd b)"
      "\<forall>b \<in> set L. bytes b \<inter> avail s = {}" "avail s \<union> (\<Union>b \<in> set L. bytes b) = avail s0"
    using inv put by (auto simp: client_inv_def)
  note r = remove1_parts[OF put(3) i(1)]
  have sub: "set (remove1 (n, a) L) \<subseteq> set L" by (rule set_remove1_subset)
  have "\<forall>b \<in> set (remove1 (n, a) L). bytes b \<inter> avail s' = {}" using r(2) i(3) sub f(3) by fastforce
  moreover have "avail s' \<union> (\<Union>b \<in> set (remove1 (n, a) L). bytes b) = avail s0" using r(3) i(4) f(3) by auto
  ultimately show ?thesis using r(1) i(2) sub f put unfolding client_inv_def by auto
qed

lemma client_reachable:
  assumes "client_step\<^sup>*\<^sup>* (s0, []) c" "valid s0"
  shows "client_inv s0 c"
  using assms(1)
proof (induction rule: rtranclp_induct)
  case base
  then show ?case using client_inv_init[OF assms(2)] .
next
  case (step c c')
  then show ?case using client_inv_step assms(2) by blast
qed

text \<open>The three facts clients use.\<close>

lemma live_blocks_disjoint:
  assumes "client_step\<^sup>*\<^sup>* (s0, []) (s, L)" "valid s0" "i < j" "j < length L"
  shows "bytes (L ! i) \<inter> bytes (L ! j) = {}"
  using client_reachable[OF assms(1,2)] assms(3,4) by (auto simp: client_inv_def sorted_wrt_iff_nth_less)

lemma free_not_stuck:
  assumes "client_step\<^sup>*\<^sup>* (s0, []) (s, L)" "valid s0" "(n, a) \<in> set L"
  shows "\<exists>s'. free a n s = Some s'"
  using client_free[OF client_reachable[OF assms(1,2)] assms(2,3)] by blast

lemma no_leak:
  assumes "client_step\<^sup>*\<^sup>* (s0, []) (s, [])" "valid s0"
  shows "avail s = avail s0"
  using client_reachable[OF assms] by (simp add: client_inv_def)

lemma alloc_free_roundtrip:
  assumes v: "valid s" and n: "ok n" and a: "alloc n s = Some (a, s')" "a \<noteq> 0"
  shows "\<exists>s''. free a n s' = Some s'' \<and> valid s'' \<and> avail s'' = avail s"
proof -
  have al: "valid s'" "heap s' = heap s" "proper n a" "block n a \<subseteq> avail s" "avail s' = avail s - block n a"
    using alloc_block[OF v n a] by auto
  then have "block n a \<subseteq> heap s'" using avail_heap[OF v] by auto
  then obtain s'' where "free a n s' = Some s''" "valid s''" "avail s'' = avail s' \<union> block n a"
    using free_block[OF al(1) n al(3)] al(5) by auto
  then show ?thesis using al(4,5) by auto
qed

end

end
