(* ===== verification/PmmApi.thy ===== *)
theory PmmApi
  imports PageAllocator
begin

text \<open>
  The public page API against its contract.  \<open>pmm_alloc_pages\<close> and \<open>pmm_alloc_pages_low\<close> with
  \<open>pmm_free_pages\<close> are both interpretations of \<open>page_allocator\<close>.
\<close>

section \<open>Allocation\<close>

lemma pmm_alloc_pages_cases:
  assumes v: "pmm_valid s" and n: "request_ok n"
  shows "(\<exists>a s'. pmm_alloc_pages n s = Some (a, s') \<and> a \<noteq> 0 \<and> pmm_valid s' \<and> same_heap s s' \<and>
      block_aligned n a \<and> block_bytes n a \<subseteq> free_mem s \<and> free_mem s' = free_mem s - block_bytes n a) \<or>
    (pmm_alloc_pages n s = Some (0, s) \<and> (\<nexists>a. block_aligned n a \<and> block_bytes n a \<subseteq> free_mem s))"
proof -
  obtain FL where FL: "pmm_initialized s" "pmm_inv s FL" "free_mem s = covered (blocks FL)" "heap_geometry s"
    using pmm_validE[OF v] .
  let ?k = "request_order n"
  note r = request_order_props[OF n]
  have n0: "n \<noteq> 0" using n by (simp add: request_ok_def)
  have call: "pmm_alloc_pages n s = (case buddy_alloc ?k s of None \<Rightarrow> None
      | Some (addr, s') \<Rightarrow> Some (if addr = PMM_ALLOC_FAIL then 0 else addr, s'))"
    using FL(1) n0 r(1,2) by (simp add: pmm_alloc_pages_def)
  from buddy_alloc_from_ok[OF FL(2) le_refl, of ?k] show ?thesis
  proof (elim disjE exE conjE)
    fix a s' FL'
    assume a: "buddy_alloc_from ?k ?k s = Some (a, s')" "pmm_inv s' FL'" "same_heap s s'" "order_to_size ?k dvd a"
      "in_heap s ?k a" "rng ?k a \<subseteq> covered (blocks FL)" "covered (blocks FL') = covered (blocks FL) - rng ?k a"
    have "a \<noteq> 0" "a \<noteq> PMM_ALLOC_FAIL" using a(5) FL(4) by (auto simp: in_heap_def heap_geometry_def)
    then show ?thesis
      using a FL(3) free_mem_eq[OF a(2)] pmm_validI[OF v a(3,2)]
      by (intro disjI1) (simp add: call buddy_alloc_def block_aligned_def block_bytes_rng)
  next
    assume f: "buddy_alloc_from ?k ?k s = Some (PMM_ALLOC_FAIL, s)" "\<forall>j. ?k \<le> j \<and> j \<le> MAX_ORDER \<longrightarrow> FL j = []"
    have "False" if a: "block_aligned n a" "block_bytes n a \<subseteq> free_mem s" for a
    proof -
      have "aligned_blocks (blocks FL)" "coalesced (blocks FL)"
        using FL(2) by (auto simp: pmm_inv_def pmm_core_def blocks_ok_def)
      then obtain j c where "(j, c) \<in> blocks FL" "?k \<le> j"
        using tiling[of "blocks FL" ?k a] a r(2) FL(3) by (auto simp: block_aligned_def block_bytes_rng)
      then show False using f(2) by (auto simp: blocks_iff)
    qed
    then show ?thesis using f(1) by (intro disjI2) (auto simp: call buddy_alloc_def)
  qed
qed

lemma pmm_alloc_pages_low_cases:
  assumes v: "pmm_valid s" and n: "request_ok n"
  shows "(\<exists>a s'. pmm_alloc_pages_low n s = Some (a, s') \<and> a \<noteq> 0 \<and> pmm_valid s' \<and> same_heap s s' \<and>
      block_aligned n a \<and> block_bytes n a \<subseteq> free_mem s \<and> free_mem s' = free_mem s - block_bytes n a \<and>
      (\<forall>b. block_aligned n b \<and> block_bytes n b \<subseteq> free_mem s \<longrightarrow> a \<le> b)) \<or>
    (pmm_alloc_pages_low n s = Some (0, s) \<and> (\<nexists>a. block_aligned n a \<and> block_bytes n a \<subseteq> free_mem s))"
proof -
  obtain FL where FL: "pmm_initialized s" "pmm_inv s FL" "free_mem s = covered (blocks FL)" "heap_geometry s"
    using pmm_validE[OF v] .
  let ?k = "request_order n"
  note r = request_order_props[OF n]
  have n0: "n \<noteq> 0" using n by (simp add: request_ok_def)
  have core: "pmm_core s FL {}" using FL(2) by (simp add: pmm_inv_def)
  then have rep: "free_lists_rep s FL" and sep: "separate FL" and al: "aligned_blocks (blocks FL)" "coalesced (blocks FL)"
    by (auto simp: pmm_core_def blocks_ok_def)
  let ?B = "SIGMA ord:set [?k ..< Suc MAX_ORDER]. set (FL ord)"
  have in_B: "\<exists>j c. (j, c) \<in> ?B \<and> c \<le> b" if b: "block_aligned n b" "block_bytes n b \<subseteq> free_mem s" for b
  proof -
    obtain j c where "(j, c) \<in> blocks FL" "?k \<le> j" "rng ?k b \<subseteq> rng j c"
      using tiling[OF al, of ?k b] b r(2) FL(3) by (auto simp: block_aligned_def block_bytes_rng)
    moreover have "c \<le> b" using subsetD[OF calculation(3) rng_self] by (simp add: rng_iff)
    ultimately show ?thesis by (intro exI[of _ j] exI[of _ c]) (auto simp: blocks_iff)
  qed
  obtain best where best: "scan_orders s [?k ..< Suc MAX_ORDER] None = Some best" "lowest ?B best"
    using scan_orders_ok[OF rep, of "[?k ..< Suc MAX_ORDER]" "{}" None] by (auto simp: lowest_def)
  show ?thesis
  proof (cases best)
    case None
    then have "?B = {}" using best(2) by (simp add: lowest_def)
    moreover have "pmm_alloc_pages_low n s = Some (0, s)"
      using FL(1) n0 r(1,2) best(1) None by (simp add: pmm_alloc_pages_low_def)
    ultimately show ?thesis using in_B by (intro disjI2) blast
  next
    case (Some p)
    obtain a ord where p: "p = (a, ord)" by (cases p)
    have a: "ord \<le> MAX_ORDER" "?k \<le> ord" "a \<in> set (FL ord)" and low: "\<forall>(j, c) \<in> ?B. a \<le> c"
      using best(2) Some p by (auto simp: lowest_def)
    have "\<exists>s' FL'. finish_alloc a ord ?k (free_list_remove s a ord) = Some (a, s') \<and> pmm_inv s' FL' \<and> same_heap s s' \<and>
        order_to_size ?k dvd a \<and> in_heap s ?k a \<and> rng ?k a \<subseteq> covered (blocks FL) \<and>
        covered (blocks FL') = covered (blocks FL) - rng ?k a"
      using free_lists_rep_remove[OF rep sep a(1,3) list_length_bound[OF core a(1)]]
      by (intro take_split_ok[OF FL(2) a(1,3,2)]) (simp_all add: same_heap_def)
    then obtain s' FL' where f: "finish_alloc a ord ?k (free_list_remove s a ord) = Some (a, s')" "pmm_inv s' FL'"
        "same_heap s s'" "order_to_size ?k dvd a" "in_heap s ?k a" "rng ?k a \<subseteq> covered (blocks FL)"
        "covered (blocks FL') = covered (blocks FL) - rng ?k a" by blast
    have "a \<noteq> 0" using f(5) FL(4) by (auto simp: in_heap_def heap_geometry_def)
    moreover have "pmm_alloc_pages_low n s = Some (a, s')"
      using FL(1) n0 r(1,2) best(1) Some p f(1) by (simp add: pmm_alloc_pages_low_def)
    moreover have "a \<le> b" if "block_aligned n b" "block_bytes n b \<subseteq> free_mem s" for b
      using in_B[OF that] low by fastforce
    ultimately show ?thesis
      using f FL(3) free_mem_eq[OF f(2)] pmm_validI[OF v f(3,2)]
      by (intro disjI1) (simp add: block_aligned_def block_bytes_rng)
  qed
qed

section \<open>Release\<close>

lemma pmm_free_pages_block:
  assumes v: "pmm_valid s" and n: "request_ok n" and a: "block_aligned n a"
    and heap: "block_bytes n a \<subseteq> heap_bytes s" and own: "block_bytes n a \<inter> free_mem s = {}"
  shows "\<exists>s'. pmm_free_pages a n s = Some s' \<and> pmm_valid s' \<and> same_heap s s' \<and>
    free_mem s' = free_mem s \<union> block_bytes n a"
proof -
  obtain FL where FL: "pmm_initialized s" "pmm_inv s FL" "free_mem s = covered (blocks FL)" "heap_geometry s"
    using pmm_validE[OF v] .
  let ?k = "request_order n"
  note r = request_order_props[OF n]
  have n0: "n \<noteq> 0" using n by (simp add: request_ok_def)
  have core: "pmm_core s FL {}" and fp: "free_pages s = listed_pages FL" using FL(2) by (auto simp: pmm_inv_def)
  have al: "order_to_size ?k dvd a" "a \<noteq> 0" using a by (auto simp: block_aligned_def)
  have sub: "rng ?k a \<subseteq> {heap_start s ..< heap_end s}" using heap by (simp add: block_bytes_rng heap_bytes_def)
  have hs: "heap_start s \<le> a" "a < heap_end s" using subsetD[OF sub rng_self] by auto
  have "a + (order_to_size ?k - 1) \<in> rng ?k a" by (simp add: rng_iff)
  from subsetD[OF sub this] have inh: "in_heap s ?k a"
    unfolding in_heap_def using hs(1) order_to_size_pos[of ?k] by simp linarith
  have "pmm_core s FL (rng ?k a)" using core by (auto simp: pmm_core_def block_map_ok_def)
  then have h: "hole s FL ?k a" using r(2) al(1) inh own FL(3) by (simp add: hole_def block_bytes_rng)
  obtain s' FL' where f: "buddy_free a ?k ?k s = Some s'" "pmm_inv s' FL'" "same_heap s s'"
      "covered (blocks FL') = rng ?k a \<union> covered (blocks FL)"
    using buddy_free_ok[OF h fp] by blast
  define i where "i = (a - heap_start s) div PAGE_SIZE"
  have idx: "addr_to_block_index s a = Some i" unfolding i_def by (rule addr_index[OF FL(4) hs])
  have "PAGE_SIZE dvd a - heap_start s" using FL(4) page_dvd_block[OF al(1)] by (simp add: heap_geometry_def)
  then have pa: "page_addr s i = a" using hs(1) by (simp add: page_addr_def i_def)
  have "i < max_blocks s" using idx by (auto simp: addr_to_block_index_def Let_def split: if_splits)
  moreover have "a \<notin> covered (blocks FL)" using own FL(3) rng_self[of a ?k] unfolding block_bytes_rng by blast
  ultimately have "block_state s i \<noteq> BLOCK_FREE" using core pa by (auto simp: pmm_core_def block_map_ok_def)
  moreover have "a AND (PAGE_SIZE - 1) = 0"
    using is_aligned_iff_dvd[of a 0] page_dvd_block[OF al(1)]
    by (simp add: is_aligned_to_order_def order_to_size_def order_to_pages_def)
  moreover have "is_aligned_to_order a ?k" using al(1) by (simp add: is_aligned_iff_dvd)
  ultimately have "pmm_free_pages a n s = Some s'"
    using FL(1) n0 al(2) hs r(1,2) idx f(1) by (simp add: pmm_free_pages_def get_block_state_def)
  then show ?thesis using f FL(3) free_mem_eq[OF f(2)] pmm_validI[OF v f(3,2)] by (auto simp: block_bytes_rng)
qed

text \<open>A free of anything whose first page is already free changes nothing, whatever the count says.\<close>

lemma pmm_free_pages_double:
  assumes v: "pmm_valid s" and a: "a \<in> free_mem s" and n: "n \<le> 2 ^ 63"
  shows "pmm_free_pages a n s = Some s"
proof -
  obtain FL where FL: "pmm_initialized s" "pmm_inv s FL" "free_mem s = covered (blocks FL)" "heap_geometry s"
    using pmm_validE[OF v] .
  have core: "pmm_core s FL {}" using FL(2) by (simp add: pmm_inv_def)
  then have hs: "heap_start s \<le> a" "a < heap_end s"
    using covered_in_heap[of s "blocks FL"] a FL(3) by (auto simp: pmm_core_def)
  obtain j where j: "log2_ceil n = Some j" using log2_ceil_returns[OF n] .
  define i where "i = (a - heap_start s) div PAGE_SIZE"
  have idx: "addr_to_block_index s a = Some i" unfolding i_def by (rule addr_index[OF FL(4) hs])
  show ?thesis
  proof (cases "a AND (PAGE_SIZE - 1) = 0")
    case True
    then have "PAGE_SIZE dvd a"
      using is_aligned_iff_dvd[of a 0] by (simp add: is_aligned_to_order_def order_to_size_def order_to_pages_def)
    then have "PAGE_SIZE dvd a - heap_start s" using FL(4) by (simp add: heap_geometry_def)
    then have pa: "page_addr s i = a" using hs(1) by (simp add: page_addr_def i_def)
    have "i < max_blocks s" using idx by (auto simp: addr_to_block_index_def Let_def split: if_splits)
    then have "block_state s i = BLOCK_FREE" using core pa a FL(3) by (auto simp: pmm_core_def block_map_ok_def)
    then show ?thesis using idx j by (simp add: pmm_free_pages_def get_block_state_def)
  qed (simp add: pmm_free_pages_def)
qed

section \<open>The contract, interpreted\<close>

lemma free_mem_heap: "pmm_valid s \<Longrightarrow> free_mem s \<subseteq> heap_bytes s"
  unfolding heap_bytes_def using covered_in_heap by (metis pmm_validE pmm_inv_def pmm_core_def)

lemma same_heap_bytes: "same_heap s s' \<Longrightarrow> heap_bytes s' = heap_bytes s"
  by (simp add: same_heap_def heap_bytes_def)

interpretation pm: page_allocator pmm_alloc_pages pmm_free_pages pmm_valid free_mem heap_bytes request_ok
  block_bytes block_aligned
proof unfold_locales
  fix s n a s' assume v: "pmm_valid s" and n: "request_ok n"
  show "\<exists>a s'. pmm_alloc_pages n s = Some (a, s')" using pmm_alloc_pages_cases[OF v n] by blast
  show "pmm_valid s' \<and> heap_bytes s' = heap_bytes s \<and> block_aligned n a \<and> block_bytes n a \<subseteq> free_mem s \<and>
      free_mem s' = free_mem s - block_bytes n a"
    if "pmm_alloc_pages n s = Some (a, s')" "a \<noteq> 0"
    using pmm_alloc_pages_cases[OF v n] that same_heap_bytes by auto
  show "s' = s" if "pmm_alloc_pages n s = Some (0, s')" using pmm_alloc_pages_cases[OF v n] that by auto
  show "\<exists>s'. pmm_free_pages a n s = Some s' \<and> pmm_valid s' \<and> heap_bytes s' = heap_bytes s \<and>
      free_mem s' = free_mem s \<union> block_bytes n a"
    if "block_aligned n a" "block_bytes n a \<subseteq> heap_bytes s" "block_bytes n a \<inter> free_mem s = {}"
    using pmm_free_pages_block[OF v n that] same_heap_bytes by metis
qed (rule free_mem_heap)

interpretation pml: page_allocator pmm_alloc_pages_low pmm_free_pages pmm_valid free_mem heap_bytes request_ok
  block_bytes block_aligned
proof unfold_locales
  fix s n a s' assume v: "pmm_valid s" and n: "request_ok n"
  show "\<exists>a s'. pmm_alloc_pages_low n s = Some (a, s')" using pmm_alloc_pages_low_cases[OF v n] by blast
  show "pmm_valid s' \<and> heap_bytes s' = heap_bytes s \<and> block_aligned n a \<and> block_bytes n a \<subseteq> free_mem s \<and>
      free_mem s' = free_mem s - block_bytes n a"
    if "pmm_alloc_pages_low n s = Some (a, s')" "a \<noteq> 0"
    using pmm_alloc_pages_low_cases[OF v n] that same_heap_bytes by auto
  show "s' = s" if "pmm_alloc_pages_low n s = Some (0, s')" using pmm_alloc_pages_low_cases[OF v n] that by auto
qed (rule free_mem_heap, assumption, rule pm.free_block)

end
