(* ===== verification/PmmReserve.thy ===== *)
theory PmmReserve
  imports PmmApi
begin

text \<open>
  Reserved ranges (\<open>kernel/mm/pmm.c\<close>): the table of user reserves and \<open>pmm_carve_reserves\<close>, which
  subtracts unsorted, possibly overlapping reservations from a memory region.  A reservation is a
  pair of address and size; \<open>out_starts[]\<close> and \<open>out_ends[]\<close> are one list of pairs.
\<close>

abbreviation PMM_MAX_USER_RESERVES :: nat where "PMM_MAX_USER_RESERVES \<equiv> 2048"
abbreviation DTB_MAX_MEMRESERVES :: nat where "DTB_MAX_MEMRESERVES \<equiv> 8"
abbreviation PMM_SPLIT_RSV_MAX :: nat where "PMM_SPLIT_RSV_MAX \<equiv> 2056"

section \<open>The carve helper\<close>

text \<open>The inner scan: the earliest-starting reservation that overlaps \<open>[cursor, end)\<close>.\<close>

fun next_rsv :: "nat \<Rightarrow> nat \<Rightarrow> (nat \<times> nat) list \<Rightarrow> (nat \<times> nat) option \<Rightarrow> (nat \<times> nat) option" where
  "next_rsv cursor e [] found = found"
| "next_rsv cursor e ((addr, sz) # rsv) found =
     (let rs = addr; re = u64_add addr sz
      in if re \<le> rs then next_rsv cursor e rsv found
         else if re \<le> cursor \<or> e \<le> rs then next_rsv cursor e rsv found
         else if (case found of None \<Rightarrow> True | Some (next_rsv_start, _) \<Rightarrow> rs < next_rsv_start)
              then next_rsv cursor e rsv
                     (Some (if cursor < rs then rs else cursor, if re < e then re else e))
              else next_rsv cursor e rsv found)"

lemma next_rsv_progress:
  assumes "cursor < e" "\<forall>a b. found = Some (a, b) \<longrightarrow> cursor < b" "next_rsv cursor e rsv found = Some (a, b)"
  shows "cursor < b"
  using assms(2,3)
proof (induction rsv arbitrary: found)
  case (Cons r rsv)
  obtain addr sz where r: "r = (addr, sz)" by (cases r)
  have step: "\<forall>a b. Some (if cursor < addr then addr else cursor,
      if u64_add addr sz < e then u64_add addr sz else e) = Some (a, b) \<longrightarrow> cursor < b"
    if "\<not> u64_add addr sz \<le> cursor" using that assms(1) by auto
  show ?case
    using Cons.prems Cons.IH[of found] Cons.IH[OF step] unfolding r
    by (simp only: next_rsv.simps Let_def split: if_splits) auto
qed auto

text \<open>\<open>room\<close> is \<open>max_out - n_out\<close>, the number of entries still free in the output arrays.\<close>

function carve_loop :: "nat \<Rightarrow> nat \<Rightarrow> (nat \<times> nat) list \<Rightarrow> nat \<Rightarrow> (nat \<times> nat) list" where
  "carve_loop cursor e rsv room =
     (if cursor < e
      then (case next_rsv cursor e rsv None of
              None \<Rightarrow> if room = 0 then [] else [(cursor, e)]
            | Some (next_rsv_start, next_rsv_end) \<Rightarrow>
                if cursor < next_rsv_start
                then if room = 0 then []
                     else (cursor, next_rsv_start) # carve_loop next_rsv_end e rsv (room - 1)
                else carve_loop next_rsv_end e rsv room)
      else [])"
  by pat_completeness auto
termination
proof (relation "measure (\<lambda>(cursor, e, rsv, room). e - cursor)")
  fix cursor e :: nat and rsv and room :: nat and x ns ne
  assume "cursor < e" and x: "next_rsv cursor e rsv None = Some x" "(ns, ne) = x"
  then have "cursor < ne" by (intro next_rsv_progress[of cursor e None rsv ns ne]) auto
  with \<open>cursor < e\<close> show "((ne, e, rsv, room - 1), (cursor, e, rsv, room)) \<in> measure (\<lambda>(cursor, e, rsv, room). e - cursor)"
    "((ne, e, rsv, room), (cursor, e, rsv, room)) \<in> measure (\<lambda>(cursor, e, rsv, room). e - cursor)" by auto
qed auto

declare carve_loop.simps [simp del]

definition pmm_carve_reserves :: "nat \<Rightarrow> nat \<Rightarrow> (nat \<times> nat) list \<Rightarrow> nat \<Rightarrow> (nat \<times> nat) list" where
  "pmm_carve_reserves start e rsv max_out =
     (if max_out = 0 then []
      else if e \<le> start then []
      else if rsv = [] then [(start, e)]
      else carve_loop start e rsv max_out)"

section \<open>The user reserve table\<close>

record reserve_state =
  pmm_user_reserves :: "(nat \<times> nat) list"
  g_memreserves :: "(nat \<times> nat) list"
  in_split :: bool

definition pmm_user_reserve_add :: "nat \<Rightarrow> nat \<Rightarrow> reserve_state \<Rightarrow> int \<times> reserve_state" where
  "pmm_user_reserve_add phys sz r =
     (if sz = 0 then (-1, r)
      else if PMM_MAX_USER_RESERVES \<le> length (pmm_user_reserves r) then (-1, r)
      else (0, r\<lparr>pmm_user_reserves := pmm_user_reserves r @ [(phys, sz)]\<rparr>))"

fun pmm_user_reserve_add_array :: "(nat \<times> nat) list \<Rightarrow> reserve_state \<Rightarrow> nat \<times> reserve_state" where
  "pmm_user_reserve_add_array [] r = (0, r)"
| "pmm_user_reserve_add_array ((addr, sz) # extents) r =
     (case pmm_user_reserve_add addr sz r of
        (ret, r') \<Rightarrow> if ret \<noteq> 0 then (0, r')
                    else (case pmm_user_reserve_add_array extents r' of (added, r'') \<Rightarrow> (Suc added, r'')))"

definition pmm_user_reserve_count :: "reserve_state \<Rightarrow> nat" where
  "pmm_user_reserve_count r = length (pmm_user_reserves r)"

definition pmm_user_reserve_reset :: "reserve_state \<Rightarrow> reserve_state" where
  "pmm_user_reserve_reset r = r\<lparr>pmm_user_reserves := []\<rparr>"

definition dtb_get_memreserves :: "reserve_state \<Rightarrow> nat \<Rightarrow> (nat \<times> nat) list" where
  "dtb_get_memreserves r mx = take mx (g_memreserves r)"

text \<open>The list \<open>pmm_split_rsv[]\<close> that \<open>pmm_add_region_split\<close> builds: firmware entries, then user
  entries while there is room.\<close>

definition split_rsv :: "reserve_state \<Rightarrow> (nat \<times> nat) list" where
  "split_rsv r =
     (let fw = dtb_get_memreserves r DTB_MAX_MEMRESERVES
      in fw @ take (PMM_SPLIT_RSV_MAX - length fw) (pmm_user_reserves r))"

section \<open>Carving subtracts exactly the reserved bytes\<close>

definition reserved :: "(nat \<times> nat) list \<Rightarrow> nat set" where
  "reserved rsv = (\<Union>(addr, sz) \<in> set rsv. {addr ..< u64_add addr sz})"

definition ranges :: "(nat \<times> nat) list \<Rightarrow> nat set" where
  "ranges L = (\<Union>(a, b) \<in> set L. {a ..< b})"

lemma ranges_simps [simp]: "ranges [] = {}" "ranges ((a, b) # L) = {a ..< b} \<union> ranges L"
  by (auto simp: ranges_def)

lemma reserved_simps [simp]: "reserved [] = {}" "reserved ((a, b) # L) = {a ..< u64_add a b} \<union> reserved L"
  by (auto simp: reserved_def)

text \<open>What the scan promises about a candidate \<open>found\<close>, given the reservations seen so far.\<close>

definition scan_ok :: "nat \<Rightarrow> nat \<Rightarrow> nat set \<Rightarrow> (nat \<times> nat) option \<Rightarrow> bool" where
  "scan_ok cursor e R found \<longleftrightarrow> (case found of
     None \<Rightarrow> {cursor ..< e} \<inter> R = {}
   | Some (a, b) \<Rightarrow> cursor \<le> a \<and> a < b \<and> b \<le> e \<and> {a ..< b} \<subseteq> R \<and> {cursor ..< a} \<inter> R = {})"

lemma next_rsv_ok:
  assumes "cursor < e" "scan_ok cursor e R found"
  shows "scan_ok cursor e (R \<union> reserved rsv) (next_rsv cursor e rsv found)"
  using assms(2)
proof (induction rsv arbitrary: R found)
  case (Cons r rsv)
  obtain addr sz where r: "r = (addr, sz)" by (cases r)
  define re where "re = u64_add addr sz"
  have un: "R \<union> reserved (r # rsv) = (R \<union> {addr ..< re}) \<union> reserved rsv" by (auto simp: r re_def)
  consider "re \<le> addr \<or> re \<le> cursor \<or> e \<le> addr"
    | "addr < re" "cursor < re" "addr < e" "\<exists>a b. found = Some (a, b) \<and> a \<le> addr"
    | "addr < re" "cursor < re" "addr < e" "\<forall>a b. found = Some (a, b) \<longrightarrow> addr < a"
    by (metis not_le option.exhaust surj_pair option.inject prod.inject)
  then show ?case
  proof cases
    case 1
    then have "next_rsv cursor e (r # rsv) found = next_rsv cursor e rsv found" by (auto simp: r re_def Let_def)
    moreover have "scan_ok cursor e (R \<union> {addr ..< re}) found"
      using Cons.prems 1 by (auto simp: scan_ok_def split: option.splits)
    ultimately show ?thesis unfolding un using Cons.IH by simp
  next
    case 2
    then have "next_rsv cursor e (r # rsv) found = next_rsv cursor e rsv found" by (auto simp: r re_def Let_def)
    moreover have "scan_ok cursor e (R \<union> {addr ..< re}) found"
      using Cons.prems 2 by (auto simp: scan_ok_def split: option.splits)
    ultimately show ?thesis unfolding un using Cons.IH by simp
  next
    case 3
    let ?f = "Some (if cursor < addr then addr else cursor, if re < e then re else e)"
    have "next_rsv cursor e (r # rsv) found = next_rsv cursor e rsv ?f"
      using 3 by (cases found) (auto simp: r re_def Let_def)
    moreover have "scan_ok cursor e (R \<union> {addr ..< re}) ?f"
      using Cons.prems 3 assms(1) by (cases found) (auto simp: scan_ok_def disjoint_iff)
    ultimately show ?thesis unfolding un using Cons.IH by simp
  qed
qed simp

text \<open>Reservations that still end above the cursor: each round of the outer loop passes one.\<close>

definition live_rsv :: "nat \<Rightarrow> (nat \<times> nat) list \<Rightarrow> nat" where
  "live_rsv cursor rsv = length (filter (\<lambda>(addr, sz). cursor < u64_add addr sz) rsv)"

lemma next_rsv_bounds:
  assumes "next_rsv cursor e rsv found = Some (a, b)"
    and "\<forall>a b. found = Some (a, b) \<longrightarrow> (a = cursor \<or> a \<in> S) \<and> (b = e \<or> cursor < b \<and> b \<in> T)"
  shows "(a = cursor \<or> a \<in> S \<union> fst ` set rsv) \<and>
    (b = e \<or> cursor < b \<and> b \<in> T \<union> (\<lambda>(addr, sz). u64_add addr sz) ` set rsv)"
  using assms
proof (induction rsv arbitrary: found S T)
  case (Cons r rsv)
  obtain addr sz where r: "r = (addr, sz)" by (cases r)
  define re where "re = u64_add addr sz"
  let ?f = "Some (if cursor < addr then addr else cursor, if re < e then re else e)"
  have "next_rsv cursor e rsv found = Some (a, b) \<or> (cursor < re \<and> next_rsv cursor e rsv ?f = Some (a, b))"
    using Cons.prems(1) by (auto simp: r re_def Let_def split: if_splits)
  then show ?case
  proof
    assume "next_rsv cursor e rsv found = Some (a, b)"
    from Cons.IH[OF this Cons.prems(2)] show ?thesis by (auto simp: r)
  next
    assume f: "cursor < re \<and> next_rsv cursor e rsv ?f = Some (a, b)"
    have "\<forall>a b. ?f = Some (a, b) \<longrightarrow> (a = cursor \<or> a \<in> insert addr S) \<and> (b = e \<or> cursor < b \<and> b \<in> insert re T)"
      using f by auto
    from Cons.IH[OF conjunct2[OF f] this] show ?thesis by (auto simp: r re_def)
  qed
qed auto

lemma live_rsv_less:
  assumes "next_rsv cursor e rsv None = Some (a, b)" "b < e"
  shows "live_rsv b rsv < live_rsv cursor rsv"
proof -
  have "cursor < b \<and> b \<in> (\<lambda>(addr, sz). u64_add addr sz) ` set rsv"
    using next_rsv_bounds[OF assms(1), of "{}" "{}"] assms(2) by auto
  then show ?thesis unfolding live_rsv_def by (intro length_filter_strict) auto
qed

text \<open>\<open>apart lo e L\<close>: the ranges of \<open>L\<close> are non-empty, inside \<open>[lo, e)\<close>, ascending, and with a gap
  after each.\<close>

fun apart :: "nat \<Rightarrow> nat \<Rightarrow> (nat \<times> nat) list \<Rightarrow> bool" where
  "apart lo e [] \<longleftrightarrow> True"
| "apart lo e ((a, b) # L) \<longleftrightarrow> lo \<le> a \<and> a < b \<and> b \<le> e \<and> apart (Suc b) e L"

lemma apart_mono: "apart lo e L \<Longrightarrow> lo' \<le> lo \<Longrightarrow> apart lo' e L"
  by (cases L) auto

lemma carve_loop_ok:
  assumes "cursor < e \<Longrightarrow> live_rsv cursor rsv < room"
  shows "ranges (carve_loop cursor e rsv room) = {cursor ..< e} - reserved rsv \<and>
    apart cursor e (carve_loop cursor e rsv room) \<and>
    length (carve_loop cursor e rsv room) \<le> Suc (live_rsv cursor rsv)"
  using assms
proof (induction cursor e rsv room rule: carve_loop.induct)
  case (1 cursor e rsv room)
  show ?case
  proof (cases "cursor < e")
    case False
    then show ?thesis by (simp add: carve_loop.simps)
  next
    case lt: True
    have sc: "scan_ok cursor e (reserved rsv) (next_rsv cursor e rsv None)"
      using next_rsv_ok[OF lt, of "{}" None rsv] by (simp add: scan_ok_def)
    have room: "live_rsv cursor rsv < room" using "1.prems" lt by simp
    show ?thesis
    proof (cases "next_rsv cursor e rsv None")
      case None
      then have "carve_loop cursor e rsv room = [(cursor, e)]"
        using lt room by (subst carve_loop.simps) simp
      then show ?thesis using sc None lt by (auto simp: scan_ok_def)
    next
      case (Some p)
      obtain a b where p: "p = (a, b)" by (cases p)
      have ab: "cursor \<le> a" "a < b" "b \<le> e" "{a ..< b} \<subseteq> reserved rsv" "{cursor ..< a} \<inter> reserved rsv = {}"
        using sc Some p by (auto simp: scan_ok_def)
      have live: "b < e \<Longrightarrow> live_rsv b rsv < live_rsv cursor rsv"
        using live_rsv_less[of cursor e rsv a b] Some p by simp
      have rest: "{cursor ..< e} - reserved rsv = {cursor ..< a} \<union> ({b ..< e} - reserved rsv)"
      proof -
        have "{cursor ..< e} = {cursor ..< a} \<union> {a ..< b} \<union> {b ..< e}" using ab by auto
        then show ?thesis using ab(4,5) by blast
      qed
      have rm: "b < e \<Longrightarrow> live_rsv b rsv < room" and rm1: "b < e \<Longrightarrow> live_rsv b rsv < room - 1"
        using live room by auto
      have stop: "carve_loop e e rsv r = []" for r by (simp add: carve_loop.simps)
      show ?thesis
      proof (cases "cursor < a")
        case True
        then have eq: "carve_loop cursor e rsv room = (cursor, a) # carve_loop b e rsv (room - 1)"
          using lt room Some p by (subst carve_loop.simps) simp
        have IH: "ranges (carve_loop b e rsv (room - 1)) = {b ..< e} - reserved rsv"
          "apart b e (carve_loop b e rsv (room - 1))" "length (carve_loop b e rsv (room - 1)) \<le> Suc (live_rsv b rsv)"
          using "1.IH"(1)[OF lt Some p[symmetric] True _ rm1] room by auto
        have "b < e \<or> b = e" using ab(3) by auto
        then have "length (carve_loop b e rsv (room - 1)) \<le> live_rsv cursor rsv"
          using IH(3) live stop by fastforce
        then show ?thesis unfolding eq rest using IH ab True apart_mono[OF IH(2), of "Suc a"] by simp
      next
        case False
        then have eq: "carve_loop cursor e rsv room = carve_loop b e rsv room"
          using lt room Some p by (subst carve_loop.simps) simp
        have IH: "ranges (carve_loop b e rsv room) = {b ..< e} - reserved rsv"
          "apart b e (carve_loop b e rsv room)" "length (carve_loop b e rsv room) \<le> Suc (live_rsv b rsv)"
          using "1.IH"(2)[OF lt Some p[symmetric] False rm] by auto
        have "b < e \<or> b = e" using ab(3) by auto
        then have "length (carve_loop b e rsv room) \<le> Suc (live_rsv cursor rsv)"
          using IH(3) live stop by fastforce
        then show ?thesis unfolding eq rest using IH ab False apart_mono[OF IH(2), of cursor] by auto
      qed
    qed
  qed
qed

lemma live_rsv_le: "live_rsv cursor rsv \<le> length rsv"
  by (simp add: live_rsv_def)

lemma pmm_carve_reserves_ok:
  assumes "length rsv < max_out"
  shows "ranges (pmm_carve_reserves start e rsv max_out) = {start ..< e} - reserved rsv"
    "apart start e (pmm_carve_reserves start e rsv max_out)"
    "length (pmm_carve_reserves start e rsv max_out) \<le> Suc (length rsv)"
  using carve_loop_ok[of start e rsv max_out] live_rsv_le[of start rsv] assms
  by (auto simp: pmm_carve_reserves_def)

text \<open>With page-aligned inputs every output bound is page-aligned.\<close>

definition paged :: "(nat \<times> nat) list \<Rightarrow> bool" where
  "paged L \<longleftrightarrow> (\<forall>(a, b) \<in> set L. PAGE_SIZE dvd a \<and> PAGE_SIZE dvd b)"

lemma carve_loop_paged:
  assumes "\<forall>(addr, sz) \<in> set rsv. PAGE_SIZE dvd addr \<and> PAGE_SIZE dvd u64_add addr sz"
    and "PAGE_SIZE dvd cursor" "PAGE_SIZE dvd e"
  shows "paged (carve_loop cursor e rsv room)"
  using assms
proof (induction cursor e rsv room rule: carve_loop.induct)
  case (1 cursor e rsv room)
  show ?case
  proof (cases "cursor < e")
    case True
    show ?thesis
    proof (cases "next_rsv cursor e rsv None")
      case None
      then show ?thesis using True "1.prems" by (subst carve_loop.simps) (simp add: paged_def)
    next
      case (Some p)
      obtain a b where p: "p = (a, b)" by (cases p)
      have "(a = cursor \<or> a \<in> fst ` set rsv) \<and> (b = e \<or> b \<in> (\<lambda>(addr, sz). u64_add addr sz) ` set rsv)"
        using next_rsv_bounds[of cursor e rsv None a b "{}" "{}"] Some p by auto
      then have "PAGE_SIZE dvd a" "PAGE_SIZE dvd b" using "1.prems" by auto
      then show ?thesis
        using True Some p "1.prems" "1.IH"(1)[OF True Some p[symmetric]] "1.IH"(2)[OF True Some p[symmetric]]
        by (subst carve_loop.simps) (auto simp: paged_def)
    qed
  qed (simp add: carve_loop.simps paged_def)
qed

lemma u64_add_paged: "PAGE_SIZE dvd a \<Longrightarrow> PAGE_SIZE dvd b \<Longrightarrow> PAGE_SIZE dvd u64_add a b"
  by (simp add: u64_add_def dvd_mod)

lemma pmm_carve_reserves_paged:
  assumes "paged rsv" "PAGE_SIZE dvd start" "PAGE_SIZE dvd e"
  shows "paged (pmm_carve_reserves start e rsv max_out)"
proof -
  have "\<forall>(addr, sz) \<in> set rsv. PAGE_SIZE dvd addr \<and> PAGE_SIZE dvd u64_add addr sz"
    using assms(1) u64_add_paged by (auto simp: paged_def)
  then show ?thesis
    using carve_loop_paged[of rsv start e max_out] assms by (simp add: pmm_carve_reserves_def paged_def)
qed

end
