(* ===== verification/PmmInit.thy ===== *)
theory PmmInit
  imports PmmReserve
begin

text \<open>
  Boot-time set-up of the allocator (\<open>kernel/mm/pmm.c\<close>): \<open>pmm_add_region\<close> cuts a memory range into
  maximal aligned blocks, \<open>pmm_add_region_split\<close> does so for the parts of a range that are not
  reserved, and \<open>pmm_init\<close> builds the whole state.  The main result is that \<open>pmm_init\<close> establishes
  the invariant and that the free memory is exactly the platform's RAM minus the reservations.
\<close>

section \<open>Adding a region\<close>

fun region_order :: "nat \<Rightarrow> nat \<Rightarrow> nat \<Rightarrow> nat" where
  "region_order current e 0 = 0"
| "region_order current e (Suc order) =
     (if u64_add current (order_to_size (Suc order)) \<le> e \<and> is_aligned_to_order current (Suc order)
      then Suc order else region_order current e order)"

partial_function (option) add_region_loop :: "nat \<Rightarrow> nat \<Rightarrow> buddy_state \<Rightarrow> buddy_state option" where
  "add_region_loop current e s =
     (if current < e
      then (let order = region_order current e MAX_ORDER
            in Option.bind (set_block_state s current order BLOCK_FREE)
                 (\<lambda>s1. let s2 = free_list_add s1 current order;
                           s3 = s2\<lparr>free_pages := u64_add (free_pages s2) (order_to_pages order)\<rparr>
                       in add_region_loop (u64_add current (order_to_size order)) e s3))
      else Some s)"

definition pmm_add_region :: "nat \<Rightarrow> nat \<Rightarrow> buddy_state \<Rightarrow> buddy_state option" where
  "pmm_add_region start e s = add_region_loop (page_align_up start) e s"

fun add_regions :: "(nat \<times> nat) list \<Rightarrow> buddy_state \<Rightarrow> buddy_state option" where
  "add_regions [] s = Some s"
| "add_regions ((start, e) # L) s = Option.bind (pmm_add_region start e s) (add_regions L)"

definition pmm_add_region_split ::
  "nat \<Rightarrow> nat \<Rightarrow> reserve_state \<times> buddy_state \<Rightarrow> (reserve_state \<times> buddy_state) option" where
  "pmm_add_region_split start e rs =
     (case rs of (r, s) \<Rightarrow>
        if in_split r then None
        else (let r1 = r\<lparr>in_split := True\<rparr>;
                  out = pmm_carve_reserves start e (split_rsv r1) (PMM_SPLIT_RSV_MAX + 1)
              in Option.bind (add_regions out s) (\<lambda>s'. Some (r1\<lparr>in_split := False\<rparr>, s'))))"

section \<open>Initialisation\<close>

datatype platform_kind = PLATFORM_RASPI5 | PLATFORM_X86_64 | PLATFORM_JETSON_ORIN_NANO | PLATFORM_OTHER

text \<open>The build-time constants of \<open>platform.h\<close>, the linker symbol \<open>__kernel_end\<close>, and the RAM end
  that \<open>vmm_init\<close> detects on x86-64.\<close>

record platform =
  plat_kind :: platform_kind
  RAM_BASE :: nat
  RAM_SIZE :: nat
  kernel_end :: nat
  x86_detected_ram_end :: nat

definition init_heap_start :: "platform \<Rightarrow> nat" where
  "init_heap_start p = page_align_up (kernel_end p)"

definition init_heap_end :: "platform \<Rightarrow> nat" where
  "init_heap_end p =
     (case plat_kind p of
        PLATFORM_RASPI5 \<Rightarrow> u64_sub (u64_add (RAM_BASE p) (RAM_SIZE p)) 0x200000
      | PLATFORM_X86_64 \<Rightarrow> if 0 < x86_detected_ram_end p then x86_detected_ram_end p
                            else u64_add (RAM_BASE p) (RAM_SIZE p)
      | _ \<Rightarrow> u64_add (RAM_BASE p) (RAM_SIZE p))"

definition init_regions :: "platform \<Rightarrow> (nat \<times> nat) list" where
  "init_regions p =
     (if plat_kind p = PLATFORM_JETSON_ORIN_NANO
      then [(init_heap_start p, 0xA1000000), (0xA1400000, 0xBDE00000),
            (0xC2000000, 0xFFFE0000), (0x100000000, 0x240000000)]
      else [(init_heap_start p, init_heap_end p)])"

definition init_state :: "platform \<Rightarrow> buddy_state \<Rightarrow> buddy_state" where
  "init_state p s =
     s\<lparr>heap_start := init_heap_start p, heap_end := init_heap_end p,
       max_blocks := RAM_SIZE p div PAGE_SIZE,
       total_pages := u64_sub (init_heap_end p) (init_heap_start p) div PAGE_SIZE,
       reserved_pages := u64_sub (init_heap_start p) (RAM_BASE p) div PAGE_SIZE,
       free_lists := fill (free_lists s) 0 (Suc MAX_ORDER) 0,
       free_counts := fill (free_counts s) 0 (Suc MAX_ORDER) 0,
       block_state := fill (block_state s) 0 (RAM_SIZE p div PAGE_SIZE) BLOCK_ALLOCATED,
       free_pages := 0, alloc_count := 0, free_count := 0, split_count := 0, merge_count := 0\<rparr>"

fun split_regions ::
  "(nat \<times> nat) list \<Rightarrow> reserve_state \<times> buddy_state \<Rightarrow> (reserve_state \<times> buddy_state) option" where
  "split_regions [] rs = Some rs"
| "split_regions ((start, e) # L) rs = Option.bind (pmm_add_region_split start e rs) (split_regions L)"

text \<open>The sanity checks on the list heads at the end of \<open>pmm_init\<close>; a failed one panics.\<close>

definition head_sane :: "buddy_state \<Rightarrow> nat \<Rightarrow> bool" where
  "head_sane s ord =
     (let head = free_lists s ord
      in if head = 0 then True
         else if head < heap_start s \<or> heap_end s \<le> head then False
         else if fb_next (mem s head) \<noteq> 0 \<or> fb_prev (mem s head) \<noteq> 0
              then (let naddr = fb_next (mem s head);
                        n_ok = (naddr = 0 \<or> (heap_start s \<le> naddr \<and> naddr < heap_end s))
                    in \<not> (fb_prev (mem s head) \<noteq> 0 \<or> \<not> n_ok))
              else True)"

definition pmm_init :: "platform \<Rightarrow> reserve_state \<times> buddy_state \<Rightarrow> (reserve_state \<times> buddy_state) option" where
  "pmm_init p rs =
     (case rs of (r, s) \<Rightarrow>
        Option.bind (split_regions (init_regions p) (r, init_state p s))
          (\<lambda>(r', s'). if list_all (head_sane s') [0 ..< Suc MAX_ORDER]
                      then Some (r', s'\<lparr>pmm_initialized := True\<rparr>) else None))"

section \<open>A region becomes maximal aligned blocks\<close>

lemma region_order_props:
  assumes "cur < e" "PAGE_SIZE dvd cur" "PAGE_SIZE dvd e" "e + order_to_size MAX_ORDER < U64_MOD" "m \<le> MAX_ORDER"
  defines "ord \<equiv> region_order cur e m"
  shows "ord \<le> m" "cur + order_to_size ord \<le> e" "order_to_size ord dvd cur"
    "\<forall>k. ord < k \<and> k \<le> m \<longrightarrow> \<not> (cur + order_to_size k \<le> e \<and> order_to_size k dvd cur)"
proof -
  have nowrap: "u64_add cur (order_to_size k) = cur + order_to_size k" if "k \<le> MAX_ORDER" for k
    using order_to_size_mono[OF that] assms by (intro u64_add_eq) linarith
  have "ord \<le> m \<and> cur + order_to_size ord \<le> e \<and> order_to_size ord dvd cur \<and>
    (\<forall>k. ord < k \<and> k \<le> m \<longrightarrow> \<not> (cur + order_to_size k \<le> e \<and> order_to_size k dvd cur))"
    using assms(5) unfolding ord_def
  proof (induction m)
    case 0
    have "cur + PAGE_SIZE \<le> e" by (rule pow2_dvd_less_step[OF assms(2,3,1)])
    then show ?case using assms(2) by (auto simp: order_to_size_def order_to_pages_def)
  next
    case (Suc m)
    let ?fits = "cur + order_to_size (Suc m) \<le> e \<and> order_to_size (Suc m) dvd cur"
    have eq: "region_order cur e (Suc m) = (if ?fits then Suc m else region_order cur e m)"
      using nowrap[OF Suc.prems] by (simp add: is_aligned_iff_dvd)
    show ?case
    proof (cases ?fits)
      case True
      then show ?thesis unfolding eq by auto
    next
      case False
      then show ?thesis using Suc unfolding eq by (auto simp: le_Suc_eq)
    qed
  qed
  then show "ord \<le> m" "cur + order_to_size ord \<le> e" "order_to_size ord dvd cur"
    "\<forall>k. ord < k \<and> k \<le> m \<longrightarrow> \<not> (cur + order_to_size k \<le> e \<and> order_to_size k dvd cur)" by auto
qed

text \<open>The state of the region loop: \<open>[lo, cur)\<close> is done, \<open>[cur, e)\<close> is not, nothing free touches the
  region from outside, and no block of the region could have been one order larger.\<close>

definition region_inv :: "nat \<Rightarrow> nat \<Rightarrow> nat \<Rightarrow> (nat \<times> nat) set \<Rightarrow> bool" where
  "region_inv lo cur e B \<longleftrightarrow> 0 < lo \<and> lo \<le> cur \<and> lo - 1 \<notin> covered B \<and> e \<notin> covered B \<and>
     {cur ..< e} \<inter> covered B = {} \<and>
     (\<forall>(k, c) \<in> B. lo \<le> c \<and> c < e \<and> k < MAX_ORDER \<and> order_to_size (Suc k) dvd c \<longrightarrow>
        e < c + order_to_size (Suc k))"

lemma region_step:
  assumes inv: "region_inv lo cur e B" and ord: "ord \<le> MAX_ORDER"
    and fit: "cur + order_to_size ord \<le> e" "order_to_size ord dvd cur"
    and mx: "\<forall>k. ord < k \<and> k \<le> MAX_ORDER \<longrightarrow> \<not> (cur + order_to_size k \<le> e \<and> order_to_size k dvd cur)"
  shows "rng ord cur \<inter> covered B = {}" "ord < MAX_ORDER \<Longrightarrow> (ord, get_buddy_addr cur ord) \<notin> B"
    "region_inv lo (cur + order_to_size ord) e (insert (ord, cur) B)"
proof -
  have i: "0 < lo" "lo \<le> cur" "lo - 1 \<notin> covered B" "e \<notin> covered B" "{cur ..< e} \<inter> covered B = {}"
    and small: "\<And>k c. (k, c) \<in> B \<Longrightarrow> lo \<le> c \<Longrightarrow> c < e \<Longrightarrow> k < MAX_ORDER \<Longrightarrow> order_to_size (Suc k) dvd c \<Longrightarrow>
        e < c + order_to_size (Suc k)"
    using inv unfolding region_inv_def by blast+
  have sub: "rng ord cur \<subseteq> {cur ..< e}" using fit(1) by (auto simp: rng_iff)
  then show "rng ord cur \<inter> covered B = {}" using i(5) by blast
  show "(ord, get_buddy_addr cur ord) \<notin> B" if lt: "ord < MAX_ORDER"
  proof
    assume b: "(ord, get_buddy_addr cur ord) \<in> B"
    then have cov: "rng ord (get_buddy_addr cur ord) \<subseteq> covered B" unfolding covered_iff subset_iff by blast
    from fit(2) show False
    proof (cases rule: buddy_cases)
      case lower
      then have "cur + order_to_size ord \<in> covered B" using cov rng_self by auto
      moreover have "cur + order_to_size ord < e \<or> cur + order_to_size ord = e" using fit(1) by auto
      ultimately show False using i(4,5) by (auto simp: disjoint_iff)
    next
      case (upper p)
      show False
      proof (cases "lo \<le> p")
        case True
        have "p < e" "p + order_to_size (Suc ord) \<le> e" using upper fit(1) order_to_size_pos[of ord] unfolding order_to_size_Suc by linarith+
        then show False using small[of ord p] b upper True lt by auto
      next
        case False
        then have "lo - 1 \<in> rng ord p" using i(1,2) upper by (auto simp: rng_iff)
        then show False using cov upper i(3) by auto
      qed
    qed
  qed
  have "e < cur + order_to_size (Suc ord)" if "ord < MAX_ORDER" "order_to_size (Suc ord) dvd cur"
    using mx that by (meson Suc_leI lessI not_le)
  moreover have "lo - 1 \<notin> rng ord cur" "e \<notin> rng ord cur" using i(1,2) sub fit(1) by (auto simp: rng_iff)
  moreover have "{cur + order_to_size ord ..< e} \<inter> (rng ord cur \<union> covered B) = {}"
    using i(5) by (auto simp: rng_iff disjoint_iff)
  ultimately show "region_inv lo (cur + order_to_size ord) e (insert (ord, cur) B)"
    using i small unfolding region_inv_def by auto
qed

lemma core_weaken: "pmm_core s FL {} \<Longrightarrow> pmm_core s FL X"
  by (auto simp: pmm_core_def block_map_ok_def)

lemma add_region_loop_ok:
  assumes "pmm_inv s FL" "region_inv lo cur e (blocks FL)" "cur \<le> e"
    and "PAGE_SIZE dvd cur" "PAGE_SIZE dvd e" "heap_start s \<le> cur" "e \<le> heap_end s"
    and "heap_end s + order_to_size MAX_ORDER < U64_MOD"
  shows "\<exists>s' FL'. add_region_loop cur e s = Some s' \<and> pmm_inv s' FL' \<and> same_heap s s' \<and>
    covered (blocks FL') = covered (blocks FL) \<union> {cur ..< e}"
  using assms
proof (induction "e - cur" arbitrary: cur s FL rule: less_induct)
  case less
  show ?case
  proof (cases "cur < e")
    case False
    then have "add_region_loop cur e s = Some s" by (simp add: add_region_loop.simps)
    then show ?thesis using less.prems False by (intro exI[of _ s] exI[of _ FL]) simp
  next
    case True
    define ord where "ord = region_order cur e MAX_ORDER"
    have e: "e + order_to_size MAX_ORDER < U64_MOD" using less.prems(7,8) by linarith
    note o = region_order_props[OF True less.prems(4,5) e le_refl, folded ord_def]
    note st = region_step[OF less.prems(2) o]
    have core: "pmm_core s FL (rng ord cur)" and geo: "heap_geometry s"
      using less.prems(1) core_weaken by (auto simp: pmm_inv_def pmm_core_def)
    have inh: "in_heap s ord cur" using o(2) less.prems(6,7) by (simp add: in_heap_def)
    let ?s2 = "free_list_add (mark s ord cur BLOCK_FREE) cur ord" and ?FL = "FL(ord := cur # FL ord)"
    let ?s3 = "?s2\<lparr>free_pages := u64_add (free_pages ?s2) (order_to_pages ord)\<rparr>"
    have put: "pmm_core ?s2 ?FL (rng ord cur - rng ord cur)"
        "covered (blocks ?FL) = rng ord cur \<union> covered (blocks FL)"
      using core_put[OF core o(1) o(3) inh subset_refl st(1)] st(2) o(1) by (auto simp: blocks_iff)
    then have core3: "pmm_core ?s3 ?FL {}" by (subst pmm_core_cong[of _ ?s2]) simp_all
    have lp: "listed_pages ?FL = listed_pages FL + order_to_pages ord" by (rule listed_pages_add[OF o(1)])
    have inv3: "pmm_inv ?s3 ?FL"
      using core3 listed_pages_less[OF core3] lp less.prems(1) by (simp add: pmm_inv_def u64_add_eq)
    have B: "blocks ?FL = insert (ord, cur) (blocks FL)" by (rule blocks_add[OF o(1)])
    let ?c = "cur + order_to_size ord"
    have next_cur: "u64_add cur (order_to_size ord) = ?c" using o(2) e by (intro u64_add_eq) linarith
    have step: "add_region_loop cur e s = add_region_loop ?c e ?s3"
      using True set_block_state_mark[OF geo inh o(3)] next_cur
      by (subst add_region_loop.simps) (simp add: Let_def flip: ord_def)
    have "\<exists>s' FL'. add_region_loop ?c e ?s3 = Some s' \<and> pmm_inv s' FL' \<and> same_heap ?s3 s' \<and>
        covered (blocks FL') = covered (blocks ?FL) \<union> {?c ..< e}"
    proof (rule less.hyps[OF _ inv3])
      show "e - ?c < e - cur" using True order_to_size_pos[of ord] by linarith
      show "region_inv lo ?c e (blocks ?FL)" using st(3) by (simp add: B)
      show "PAGE_SIZE dvd ?c" using less.prems(4) page_dvd_order_to_size by (intro dvd_add)
    qed (use less.prems o(2) in auto)
    moreover have "rng ord cur \<union> {?c ..< e} = {cur ..< e}" using o(2) by (auto simp: rng_iff)
    ultimately show ?thesis unfolding step put(2) same_heap_def by auto
  qed
qed

section \<open>Lists of regions\<close>

lemma page_align_up_id: "PAGE_SIZE dvd a \<Longrightarrow> a + PAGE_SIZE \<le> U64_MOD \<Longrightarrow> page_align_up a = a"
  by (auto simp: page_align_up_def u64_add_eq)

lemma pmm_add_region_ok:
  assumes inv: "pmm_inv s FL" and ab: "0 < a" "a < b" "PAGE_SIZE dvd a" "PAGE_SIZE dvd b"
    and heap: "heap_start s \<le> a" "b \<le> heap_end s" "heap_end s + order_to_size MAX_ORDER < U64_MOD"
    and free: "{a - 1 .. b} \<inter> covered (blocks FL) = {}"
  shows "\<exists>s' FL'. pmm_add_region a b s = Some s' \<and> pmm_inv s' FL' \<and> same_heap s s' \<and>
    covered (blocks FL') = covered (blocks FL) \<union> {a ..< b}"
proof -
  have "a + PAGE_SIZE \<le> b" by (rule pow2_dvd_less_step[OF ab(3,4,2)])
  then have id: "page_align_up a = a" using heap ab by (intro page_align_up_id) auto
  have "region_inv a a b (blocks FL)" unfolding region_inv_def
  proof (intro conjI)
    show "a - 1 \<notin> covered (blocks FL)" "b \<notin> covered (blocks FL)" "{a ..< b} \<inter> covered (blocks FL) = {}"
      using free ab(2) by (auto simp: disjoint_iff)
    have "c \<in> covered (blocks FL)" if "(k, c) \<in> blocks FL" for k c
      using that rng_self[of c k] unfolding covered_iff by blast
    then have "\<not> (a \<le> c \<and> c < b)" if "(k, c) \<in> blocks FL" for k c
      using free that by (fastforce simp: disjoint_iff)
    then show "\<forall>(k, c) \<in> blocks FL. a \<le> c \<and> c < b \<and> k < MAX_ORDER \<and> order_to_size (Suc k) dvd c \<longrightarrow>
        b < c + order_to_size (Suc k)" by fast
  qed (use ab in auto)
  from add_region_loop_ok[OF inv this _ ab(3,4) heap] ab(2) show ?thesis
    unfolding pmm_add_region_def id by simp
qed

lemma apart_ranges: "apart lo e L \<Longrightarrow> ranges L \<subseteq> {lo ..< e}"
proof (induction L arbitrary: lo)
  case (Cons r L)
  obtain a b where "r = (a, b)" by (cases r)
  then show ?case using Cons.IH[of "Suc b"] Cons.prems by auto
qed simp

lemma add_regions_ok:
  assumes "pmm_inv s FL" "apart lo e L" "paged L" "0 < lo" "heap_start s \<le> lo" "e \<le> heap_end s"
    and "heap_end s + order_to_size MAX_ORDER < U64_MOD" "{lo - 1 .. e} \<inter> covered (blocks FL) = {}"
  shows "\<exists>s' FL'. add_regions L s = Some s' \<and> pmm_inv s' FL' \<and> same_heap s s' \<and>
    covered (blocks FL') = covered (blocks FL) \<union> ranges L"
  using assms
proof (induction L arbitrary: s FL lo)
  case Nil
  then show ?case by (intro exI[of _ s] exI[of _ FL]) simp
next
  case (Cons r L)
  obtain a b where r: "r = (a, b)" by (cases r)
  have ab: "lo \<le> a" "a < b" "b \<le> e" "apart (Suc b) e L" "PAGE_SIZE dvd a" "PAGE_SIZE dvd b" "paged L"
    using Cons.prems by (auto simp: r paged_def)
  have "{a - 1 .. b} \<subseteq> {lo - 1 .. e}" using ab by auto
  then have free: "{a - 1 .. b} \<inter> covered (blocks FL) = {}" using Cons.prems(8) by blast
  have "heap_start s \<le> a" "b \<le> heap_end s" "0 < a" using Cons.prems ab by auto
  then obtain s1 FL1 where 1: "pmm_add_region a b s = Some s1" "pmm_inv s1 FL1" "same_heap s s1"
      "covered (blocks FL1) = covered (blocks FL) \<union> {a ..< b}"
    using pmm_add_region_ok[OF Cons.prems(1) _ ab(2,5,6) _ _ Cons.prems(7) free] by blast
  have hs: "heap_start s1 \<le> Suc b" "e \<le> heap_end s1" "heap_end s1 + order_to_size MAX_ORDER < U64_MOD"
    using 1(3) Cons.prems ab by (auto simp: same_heap_def)
  have "{Suc b - 1 .. e} \<inter> covered (blocks FL1) = {}"
    using Cons.prems(8) ab unfolding 1(4) by (auto simp: disjoint_iff)
  then obtain s' FL' where "add_regions L s1 = Some s'" "pmm_inv s' FL'" "same_heap s1 s'"
      "covered (blocks FL') = covered (blocks FL1) \<union> ranges L"
    using Cons.IH[OF 1(2) ab(4,7) _ hs] by auto
  then show ?case using 1 same_heap_trans[OF 1(3)] by (intro exI[of _ s'] exI[of _ FL']) (auto simp: r)
qed

lemma split_rsv_length: "length (split_rsv r) \<le> PMM_SPLIT_RSV_MAX"
  by (simp add: split_rsv_def dtb_get_memreserves_def Let_def)

lemma split_rsv_cong [simp]: "split_rsv (r\<lparr>in_split := b\<rparr>) = split_rsv r"
  by (simp add: split_rsv_def dtb_get_memreserves_def Let_def)

lemma pmm_add_region_split_ok:
  assumes inv: "pmm_inv s FL" and r: "\<not> in_split r" "paged (split_rsv r)"
    and ab: "0 < a" "PAGE_SIZE dvd a" "PAGE_SIZE dvd b"
    and heap: "heap_start s \<le> a" "b \<le> heap_end s" "heap_end s + order_to_size MAX_ORDER < U64_MOD"
    and free: "{a - 1 .. b} \<inter> covered (blocks FL) = {}"
  shows "\<exists>s' FL'. pmm_add_region_split a b (r, s) = Some (r, s') \<and> pmm_inv s' FL' \<and> same_heap s s' \<and>
    covered (blocks FL') = covered (blocks FL) \<union> ({a ..< b} - reserved (split_rsv r))"
proof -
  let ?out = "pmm_carve_reserves a b (split_rsv r) (PMM_SPLIT_RSV_MAX + 1)"
  have "length (split_rsv r) < PMM_SPLIT_RSV_MAX + 1" using split_rsv_length[of r] by simp
  note c = pmm_carve_reserves_ok[OF this, of a b]
  have "paged ?out" by (rule pmm_carve_reserves_paged[OF r(2) ab(2,3)])
  from add_regions_ok[OF inv c(2) this ab(1) heap free]
  obtain s' FL' where "add_regions ?out s = Some s'" "pmm_inv s' FL'" "same_heap s s'"
      "covered (blocks FL') = covered (blocks FL) \<union> ({a ..< b} - reserved (split_rsv r))"
    unfolding c(1) by blast
  moreover have "pmm_add_region_split a b (r, s) = Some (r, s')"
    using calculation(1) r(1) by (simp add: pmm_add_region_split_def Let_def)
  ultimately show ?thesis by blast
qed

lemma split_regions_ok:
  assumes "pmm_inv s FL" "apart lo e L" "paged L" "0 < lo" "heap_start s \<le> lo" "e \<le> heap_end s"
    and "heap_end s + order_to_size MAX_ORDER < U64_MOD" "{lo - 1 .. e} \<inter> covered (blocks FL) = {}"
    and r: "\<not> in_split r" "paged (split_rsv r)"
  shows "\<exists>s' FL'. split_regions L (r, s) = Some (r, s') \<and> pmm_inv s' FL' \<and> same_heap s s' \<and>
    covered (blocks FL') = covered (blocks FL) \<union> (ranges L - reserved (split_rsv r))"
  using assms(1-8)
proof (induction L arbitrary: s FL lo)
  case Nil
  then show ?case by (intro exI[of _ s] exI[of _ FL]) simp
next
  case (Cons x L)
  obtain a b where x: "x = (a, b)" by (cases x)
  have ab: "lo \<le> a" "a < b" "b \<le> e" "apart (Suc b) e L" "PAGE_SIZE dvd a" "PAGE_SIZE dvd b" "paged L"
    using Cons.prems by (auto simp: x paged_def)
  have "{a - 1 .. b} \<subseteq> {lo - 1 .. e}" using ab by auto
  then have free: "{a - 1 .. b} \<inter> covered (blocks FL) = {}" using Cons.prems(8) by blast
  have "heap_start s \<le> a" "b \<le> heap_end s" "0 < a" using Cons.prems ab by auto
  then obtain s1 FL1 where 1: "pmm_add_region_split a b (r, s) = Some (r, s1)" "pmm_inv s1 FL1" "same_heap s s1"
      "covered (blocks FL1) = covered (blocks FL) \<union> ({a ..< b} - reserved (split_rsv r))"
    using pmm_add_region_split_ok[OF Cons.prems(1) r _ ab(5,6) _ _ Cons.prems(7) free] by blast
  have hs: "heap_start s1 \<le> Suc b" "e \<le> heap_end s1" "heap_end s1 + order_to_size MAX_ORDER < U64_MOD"
    using 1(3) Cons.prems ab by (auto simp: same_heap_def)
  have "{Suc b - 1 .. e} \<inter> covered (blocks FL1) = {}"
    using Cons.prems(8) ab unfolding 1(4) by (auto simp: disjoint_iff)
  then obtain s' FL' where "split_regions L (r, s1) = Some (r, s')" "pmm_inv s' FL'" "same_heap s1 s'"
      "covered (blocks FL') = covered (blocks FL1) \<union> (ranges L - reserved (split_rsv r))"
    using Cons.IH[OF 1(2) ab(4,7) _ hs] by auto
  then show ?case using 1 same_heap_trans[OF 1(3)] by (intro exI[of _ s'] exI[of _ FL']) (auto simp: x)
qed

section \<open>Initialisation establishes the invariant\<close>

lemma head_sane_inv:
  assumes inv: "pmm_inv s FL" and ord: "ord \<le> MAX_ORDER"
  shows "head_sane s ord"
proof (cases "FL ord")
  case Nil
  then have "free_lists s ord = 0"
    using inv ord unfolding pmm_inv_def pmm_core_def free_lists_rep_def by force
  then show ?thesis by (simp add: head_sane_def)
next
  case (Cons a as)
  have core: "pmm_core s FL {}" using inv by (simp add: pmm_inv_def)
  have d: "free_lists s ord = a" "fb_prev (mem s a) = 0" "dll (mem s) a (fb_next (mem s a)) as"
    using core ord Cons unfolding pmm_core_def free_lists_rep_def by force+
  have heap: "heap_start s \<le> c \<and> c < heap_end s" if "c \<in> set (FL ord)" for c
    using block_unfold(2)[OF core ord that] order_to_size_pos[of ord] unfolding in_heap_def by linarith
  have "fb_next (mem s a) = 0 \<or> fb_next (mem s a) \<in> set (FL ord)"
    using dll_head[OF d(3)] Cons by (auto split: list.splits)
  then have "fb_next (mem s a) = 0 \<or> (heap_start s \<le> fb_next (mem s a) \<and> fb_next (mem s a) < heap_end s)"
    using heap by blast
  moreover have "heap_start s \<le> a" "a < heap_end s" using heap[of a] Cons by auto
  ultimately show ?thesis using d(1,2) by (auto simp: head_sane_def Let_def)
qed

text \<open>What \<open>pmm_init\<close> needs of the platform's constants.\<close>

definition platform_ok :: "platform \<Rightarrow> bool" where
  "platform_ok p \<longleftrightarrow> 0 < kernel_end p \<and> kernel_end p + PAGE_SIZE \<le> U64_MOD \<and> RAM_BASE p < init_heap_start p \<and>
     PAGE_SIZE dvd RAM_SIZE p \<and> PAGE_SIZE dvd init_heap_end p \<and>
     init_heap_end p < init_heap_start p + RAM_SIZE p \<and> init_heap_start p + RAM_SIZE p < U64_MOD \<and>
     init_heap_end p + order_to_size MAX_ORDER < U64_MOD \<and>
     apart (init_heap_start p) (init_heap_end p) (init_regions p)"

lemma init_heap_start_props:
  assumes "0 < kernel_end p" "kernel_end p + PAGE_SIZE \<le> U64_MOD"
  shows "PAGE_SIZE dvd init_heap_start p" "kernel_end p \<le> init_heap_start p"
  using assms unfolding init_heap_start_def page_align_up_def by (auto simp: u64_add_eq)

lemma init_state_inv:
  assumes "platform_ok p"
  shows "pmm_inv (init_state p s) (\<lambda>_. [])" "heap_start (init_state p s) = init_heap_start p"
    "heap_end (init_state p s) = init_heap_end p" "pmm_initialized (init_state p s) = pmm_initialized s"
proof -
  have B: "blocks (\<lambda>_. []) = {}" by (simp add: blocks_def)
  have "heap_geometry (init_state p s)"
    using assms init_heap_start_props[of p] by (auto simp: heap_geometry_def init_state_def platform_ok_def)
  moreover have "free_lists_rep (init_state p s) (\<lambda>_. [])" by (simp add: free_lists_rep_def init_state_def)
  moreover have "block_map_ok (init_state p s) {} {}" by (simp add: block_map_ok_def init_state_def covered_def)
  ultimately show "pmm_inv (init_state p s) (\<lambda>_. [])"
    by (simp add: pmm_inv_def pmm_core_def B separate_def blocks_ok_def aligned_blocks_def disjoint_blocks_def
        coalesced_def listed_pages_def) (simp add: init_state_def)
qed (simp_all add: init_state_def)

lemma init_regions_paged: "platform_ok p \<Longrightarrow> paged (init_regions p)"
  using init_heap_start_props[of p] by (auto simp: paged_def init_regions_def platform_ok_def)

lemma pmm_init_establishes:
  assumes p: "platform_ok p" and r: "\<not> in_split r" "paged (split_rsv r)"
  shows "\<exists>s'. pmm_init p (r, s) = Some (r, s') \<and> pmm_valid s' \<and>
    free_mem s' = ranges (init_regions p) - reserved (split_rsv r) \<and>
    heap_start s' = init_heap_start p \<and> heap_end s' = init_heap_end p"
proof -
  have ap: "apart (init_heap_start p) (init_heap_end p) (init_regions p)"
    and pos: "0 < init_heap_start p" and top: "init_heap_end p + order_to_size MAX_ORDER < U64_MOD"
    using p init_heap_start_props[of p] by (auto simp: platform_ok_def)
  note i = init_state_inv[OF p, of s]
  obtain s1 FL where s1: "split_regions (init_regions p) (r, init_state p s) = Some (r, s1)" "pmm_inv s1 FL"
      "same_heap (init_state p s) s1" "covered (blocks FL) = ranges (init_regions p) - reserved (split_rsv r)"
    using split_regions_ok[OF i(1) ap init_regions_paged[OF p] pos _ _ _ _ r] top
    by (auto simp: i(2,3) blocks_def covered_def)
  let ?s = "s1\<lparr>pmm_initialized := True\<rparr>"
  have "list_all (head_sane s1) [0 ..< Suc MAX_ORDER]"
    using head_sane_inv[OF s1(2)] by (auto simp: list_all_iff)
  then have "pmm_init p (r, s) = Some (r, ?s)" using s1(1) by (simp add: pmm_init_def)
  moreover have "pmm_core ?s FL {}" using s1(2) by (subst pmm_core_cong[of _ s1]) (simp_all add: pmm_inv_def)
  then have inv: "pmm_inv ?s FL" using s1(2) by (simp add: pmm_inv_def)
  ultimately show ?thesis
    using s1(3,4) free_mem_eq[OF inv] i by (auto simp: pmm_valid_def same_heap_def)
qed

end
