(* ===== verification/PmmProps.thy ===== *)
theory PmmProps
  imports PmmInit
begin

text \<open>
  The properties of the physical memory manager, stated over the model's functions and the two
  observations \<open>free_mem\<close> (free bytes according to \<open>block_state[]\<close>) and \<open>pmm_valid\<close>.
\<close>

section \<open>Concrete states for the witnesses\<close>

text \<open>The QEMU platform with one firmware and one user reservation.\<close>

definition qemu_platform :: platform where
  "qemu_platform = \<lparr>plat_kind = PLATFORM_OTHER, RAM_BASE = 0x40000000, RAM_SIZE = 0x40000000,
     kernel_end = 0x40212345, x86_detected_ram_end = 0\<rparr>"

definition qemu_reserves :: reserve_state where
  "qemu_reserves = \<lparr>pmm_user_reserves = [(0x48000000, 0x100000)], g_memreserves = [(0x4FC00000, 0x400000)],
     in_split = False\<rparr>"

text \<open>A heap of two pages, free as one block of order 1.\<close>

definition tiny_lists :: "nat \<Rightarrow> nat list" where
  "tiny_lists ord = (if ord = 1 then [8192] else [])"

definition tiny_heap :: buddy_state where
  "tiny_heap = \<lparr>free_lists = (\<lambda>ord. if ord = 1 then 8192 else 0), free_counts = (\<lambda>ord. if ord = 1 then 1 else 0),
     heap_start = 8192, heap_end = 16384, total_pages = 2, free_pages = 2, reserved_pages = 1,
     alloc_count = 0, free_count = 0, split_count = 0, merge_count = 0, pmm_initialized = True,
     block_state = (\<lambda>i. if i < 2 then BLOCK_FREE else BLOCK_ALLOCATED),
     mem = (\<lambda>_. \<lparr>fb_next = 0, fb_prev = 0\<rparr>), max_blocks = 4\<rparr>"

lemma tiny_blocks: "blocks tiny_lists = {(Suc 0, 8192)}"
  by (auto simp: blocks_def tiny_lists_def split: if_splits)

lemma tiny_covered: "covered {(Suc 0, 8192)} = {8192 ..< 16384}"
  by (auto simp: covered_def rng_def order_to_size_def order_to_pages_def)

lemma tiny_inv: "pmm_inv tiny_heap tiny_lists"
proof -
  have "get_buddy_addr 8192 1 \<noteq> 8192"
    by (rule buddy_neq) (simp add: order_to_size_def order_to_pages_def)
  then have "blocks_ok tiny_heap (blocks tiny_lists)"
    by (simp add: tiny_blocks blocks_ok_def aligned_blocks_def disjoint_blocks_def coalesced_def in_heap_def
        tiny_heap_def order_to_size_def order_to_pages_def)
  moreover have "block_map_ok tiny_heap (blocks tiny_lists) {}"
    unfolding tiny_blocks block_map_ok_def tiny_covered by (auto simp: page_addr_def tiny_heap_def)
  moreover have "listed_pages tiny_lists = 2"
  proof -
    have "length (tiny_lists ord) * order_to_pages ord = (if ord = 1 then 2 else 0)" for ord
      by (simp add: tiny_lists_def order_to_pages_def)
    then show ?thesis by (simp add: listed_pages_def)
  qed
  moreover have "separate tiny_lists" by (auto simp: separate_def tiny_lists_def)
  ultimately show ?thesis
    by (simp add: pmm_inv_def pmm_core_def heap_geometry_def free_lists_rep_def)
      (simp add: tiny_heap_def tiny_lists_def)
qed

lemma tiny_valid: "pmm_valid tiny_heap" and tiny_free: "free_mem tiny_heap = {8192 ..< 16384}"
proof -
  show "pmm_valid tiny_heap" using tiny_inv by (auto simp: pmm_valid_def tiny_heap_def)
  show "free_mem tiny_heap = {8192 ..< 16384}" using free_mem_eq[OF tiny_inv] tiny_blocks tiny_covered by simp
qed

lemma request_order_1: "request_order (Suc 0) = 0" and request_ok_1: "request_ok 1"
  by (simp_all add: request_order_def log2_ceil_def request_ok_def order_to_pages_def)

lemma block_bytes_1: "block_bytes (Suc 0) a = {a ..< a + 4096}"
  by (simp add: block_bytes_def request_order_1 order_to_size_def order_to_pages_def)

section \<open>Initialisation\<close>

text \<open>C1: \<open>pmm_init\<close> returns (no panic, no endless loop), establishes the allocator's invariant, and
  makes free exactly the bytes of the platform's RAM regions that no firmware or user reservation
  covers, when region bounds and reservations are page-aligned.\<close>

theorem pmm_init_correct:
  assumes "platform_ok p" "\<not> in_split r" "paged (split_rsv r)"
  shows "\<exists>s'. pmm_init p (r, s) = Some (r, s') \<and> pmm_valid s' \<and>
    free_mem s' = ranges (init_regions p) - reserved (split_rsv r)"
  using pmm_init_establishes[OF assms] by blast

lemma qemu_platform_ok: "platform_ok qemu_platform"
  by (simp add: platform_ok_def qemu_platform_def init_heap_start_def init_heap_end_def init_regions_def
      page_align_up_def u64_add_def order_to_size_def order_to_pages_def)

lemma qemu_regions: "init_regions qemu_platform = [(0x40213000, 0x80000000)]"
  by (simp add: init_regions_def qemu_platform_def init_heap_start_def init_heap_end_def page_align_up_def u64_add_def)

lemma qemu_rsv: "split_rsv qemu_reserves = [(0x4FC00000, 0x400000), (0x48000000, 0x100000)]"
  by (simp add: split_rsv_def qemu_reserves_def dtb_get_memreserves_def)

theorem pmm_init_correct_witness:
  "\<exists>s'. pmm_init qemu_platform (qemu_reserves, tiny_heap) = Some (qemu_reserves, s') \<and> pmm_valid s' \<and>
    0x48000000 \<notin> free_mem s' \<and> 0x48100000 \<in> free_mem s' \<and> 0x40212000 \<notin> free_mem s'"
proof -
  have r: "\<not> in_split qemu_reserves" "paged (split_rsv qemu_reserves)"
    by (simp_all add: qemu_rsv paged_def) (simp add: qemu_reserves_def)
  from pmm_init_correct[OF qemu_platform_ok r, of tiny_heap] show ?thesis
    by (auto simp: qemu_rsv qemu_regions u64_add_def)
qed

text \<open>C2: \<open>pmm_carve_reserves\<close>, given one more output slot than there are reservations, returns
  ascending, non-empty ranges with a gap after each, at most one more than there are reservations,
  and their union is exactly the region minus the reserved bytes.\<close>

theorem pmm_carve_reserves_exact:
  assumes "length rsv < max_out"
  shows "ranges (pmm_carve_reserves start e rsv max_out) = {start ..< e} - reserved rsv \<and>
    apart start e (pmm_carve_reserves start e rsv max_out) \<and>
    length (pmm_carve_reserves start e rsv max_out) \<le> Suc (length rsv)"
  using pmm_carve_reserves_ok[OF assms] by blast

theorem pmm_carve_reserves_exact_witness:
  "ranges (pmm_carve_reserves 0 100 [(40, 10), (20, 25), (90, 50)] 4) = {0 ..< 20} \<union> {50 ..< 90}"
proof -
  let ?rsv = "[(40, 10), (20, 25), (90, 50)] :: (nat \<times> nat) list"
  have "reserved ?rsv = {40 ..< 50} \<union> {20 ..< 45} \<union> {90 ..< 140}" by (simp add: u64_add_def Un_assoc)
  moreover have "ranges (pmm_carve_reserves 0 100 ?rsv 4) = {0 ..< 100} - reserved ?rsv"
    by (rule conjunct1[OF pmm_carve_reserves_exact]) simp
  ultimately show ?thesis by (simp only:) (rule set_eqI, simp only: Un_iff Diff_iff atLeastLessThan_iff, arith)
qed

section \<open>Allocation and release\<close>

text \<open>C3: in a valid state a request of 1 to \<open>2^19\<close> pages always returns.  Either the result is a
  non-null block of the rounded size, aligned to it, all of whose bytes were free, and exactly
  these bytes stop being free; or the result is NULL, the state is unchanged, and no aligned run of
  the rounded size was free at all.\<close>

theorem pmm_alloc_pages_correct:
  assumes "pmm_valid s" "request_ok n"
  shows "(\<exists>a s'. pmm_alloc_pages n s = Some (a, s') \<and> a \<noteq> 0 \<and> pmm_valid s' \<and> same_heap s s' \<and>
      block_aligned n a \<and> block_bytes n a \<subseteq> free_mem s \<and> free_mem s' = free_mem s - block_bytes n a) \<or>
    (pmm_alloc_pages n s = Some (0, s) \<and> (\<nexists>a. block_aligned n a \<and> block_bytes n a \<subseteq> free_mem s))"
  using assms by (rule pmm_alloc_pages_cases)

theorem pmm_alloc_pages_correct_witness:
  "\<exists>a s'. pmm_alloc_pages 1 tiny_heap = Some (a, s') \<and> a \<noteq> 0 \<and> pmm_valid s' \<and>
    {a ..< a + 4096} \<subseteq> {8192 ..< 16384} \<and> free_mem s' = {8192 ..< 16384} - {a ..< a + 4096}"
proof -
  have "block_aligned 1 8192 \<and> block_bytes 1 8192 \<subseteq> free_mem tiny_heap"
    by (simp add: block_aligned_def block_bytes_1 request_order_1 tiny_free order_to_size_def order_to_pages_def)
  with pmm_alloc_pages_correct[OF tiny_valid request_ok_1] show ?thesis
    unfolding One_nat_def block_bytes_1 tiny_free by blast
qed

text \<open>C4: freeing an aligned block inside the heap none of whose bytes is free returns, keeps the
  invariant, and makes exactly the block's bytes free, whatever merging takes place.\<close>

theorem pmm_free_pages_correct:
  assumes "pmm_valid s" "request_ok n" "block_aligned n a"
    and "block_bytes n a \<subseteq> heap_bytes s" "block_bytes n a \<inter> free_mem s = {}"
  shows "\<exists>s'. pmm_free_pages a n s = Some s' \<and> pmm_valid s' \<and> free_mem s' = free_mem s \<union> block_bytes n a"
  using pmm_free_pages_block[OF assms] by blast

text \<open>The tiny heap after its first page was allocated.\<close>

definition tiny_used :: buddy_state where
  "tiny_used = (case pmm_alloc_pages 1 tiny_heap of Some (a, s) \<Rightarrow> s | None \<Rightarrow> tiny_heap)"

lemma tiny_alloc: "\<exists>s. pmm_alloc_pages 1 tiny_heap = Some (8192, s)"
proof -
  have 0: "buddy_alloc_from 0 0 tiny_heap = buddy_alloc_from (Suc 0) 0 tiny_heap"
    by (subst buddy_alloc_from.simps) (simp add: tiny_heap_def)
  have "buddy_alloc_from (Suc 0) 0 tiny_heap =
      (case free_list_pop tiny_heap 1 of (blk, s1) \<Rightarrow> finish_alloc blk 1 0 s1)"
    by (subst buddy_alloc_from.simps) (simp add: tiny_heap_def)
  then have "\<exists>s. buddy_alloc 0 tiny_heap = Some (8192, s)"
    unfolding buddy_alloc_def 0
    by (simp add: free_list_pop_def finish_alloc_def set_block_state_def addr_to_block_index_def
        u64_sub_def u64_add_def order_to_pages_def order_to_size_def free_list_add_def Let_def tiny_heap_def)
  then obtain s where "buddy_alloc 0 tiny_heap = Some (8192, s)" ..
  moreover have "pmm_initialized tiny_heap" by (simp add: tiny_heap_def)
  ultimately show ?thesis by (simp add: pmm_alloc_pages_def log2_ceil_def)
qed

lemma tiny_used_props:
  "pmm_valid tiny_used" "free_mem tiny_used = {12288 ..< 16384}" "heap_bytes tiny_used = {8192 ..< 16384}"
proof -
  obtain s where s: "pmm_alloc_pages 1 tiny_heap = Some (8192, s)" using tiny_alloc by blast
  then have u: "tiny_used = s" by (simp add: tiny_used_def)
  from pm.alloc_block[OF tiny_valid request_ok_1 s]
  show "pmm_valid tiny_used" "free_mem tiny_used = {12288 ..< 16384}" "heap_bytes tiny_used = {8192 ..< 16384}"
    unfolding u tiny_free One_nat_def block_bytes_1 by (auto simp: heap_bytes_def tiny_heap_def)
qed

theorem pmm_free_pages_correct_witness:
  "\<exists>s'. pmm_free_pages 8192 1 tiny_used = Some s' \<and> pmm_valid s' \<and> free_mem s' = {8192 ..< 16384}"
proof -
  have "block_aligned 1 8192"
    by (simp add: block_aligned_def request_order_1 order_to_size_def order_to_pages_def)
  moreover have "block_bytes 1 8192 \<subseteq> heap_bytes tiny_used" "block_bytes 1 8192 \<inter> free_mem tiny_used = {}"
    by (simp_all add: block_bytes_1 tiny_used_props)
  ultimately show ?thesis
    using pmm_free_pages_correct[OF tiny_used_props(1) request_ok_1, of 8192]
    by (auto simp: tiny_used_props block_bytes_1)
qed

text \<open>C5: a free whose first page is already free is rejected without any change, for every count
  up to \<open>2^63\<close> (double free, or free of a block that was already merged into a larger one).\<close>

theorem pmm_double_free_rejected:
  assumes "pmm_valid s" "a \<in> free_mem s" "n \<le> 2 ^ 63"
  shows "pmm_free_pages a n s = Some s"
  using assms by (rule pmm_free_pages_double)

theorem pmm_double_free_rejected_witness: "pmm_free_pages 12288 1 tiny_heap = Some tiny_heap"
  using pmm_double_free_rejected[OF tiny_valid, of 12288 1] by (simp add: tiny_free)

text \<open>C6: any client of \<open>pmm_alloc_pages\<close> and \<open>pmm_free_pages\<close> that frees only blocks it holds, in
  any order and with any interleaving of failed requests: two live blocks never overlap, every free
  of a live block returns, and once all blocks are freed the free memory is what it was at first.\<close>

theorem pmm_client_isolation:
  assumes "pmm_valid s0" "pm.client_step\<^sup>*\<^sup>* (s0, []) (s, L)"
  shows "(\<forall>i j. i < j \<and> j < length L \<longrightarrow>
      block_bytes (fst (L ! i)) (snd (L ! i)) \<inter> block_bytes (fst (L ! j)) (snd (L ! j)) = {}) \<and>
    (\<forall>(n, a) \<in> set L. \<exists>s'. pmm_free_pages a n s = Some s') \<and> (L = [] \<longrightarrow> free_mem s = free_mem s0)"
proof (intro conjI)
  show "\<forall>i j. i < j \<and> j < length L \<longrightarrow>
      block_bytes (fst (L ! i)) (snd (L ! i)) \<inter> block_bytes (fst (L ! j)) (snd (L ! j)) = {}"
    using pm.live_blocks_disjoint[OF assms(2,1)] by simp
  show "\<forall>(n, a) \<in> set L. \<exists>s'. pmm_free_pages a n s = Some s'"
    using pm.free_not_stuck[OF assms(2,1)] by fast
  show "L = [] \<longrightarrow> free_mem s = free_mem s0" using pm.no_leak[of s0 s] assms by blast
qed

theorem pmm_client_isolation_witness:
  "\<exists>a s. pmm_alloc_pages 1 tiny_heap = Some (a, s) \<and> (\<exists>s'. pmm_free_pages a 1 s = Some s')"
proof -
  obtain s where s: "pmm_alloc_pages 1 tiny_heap = Some (8192, s)" using tiny_alloc by blast
  have "pm.client_step (tiny_heap, []) (s, [(1, 8192)])" using pm.client_step.got[OF request_ok_1 s, of "[]"] by simp
  from pmm_client_isolation[OF tiny_valid r_into_rtranclp[of pm.client_step, OF this]] s show ?thesis by auto
qed

text \<open>C7: \<open>pmm_alloc_pages_low\<close> meets the same contract, and the block it returns starts no higher
  than any aligned free run of the rounded size.\<close>

theorem pmm_alloc_pages_low_lowest:
  assumes "pmm_valid s" "request_ok n"
  shows "(\<exists>a s'. pmm_alloc_pages_low n s = Some (a, s') \<and> a \<noteq> 0 \<and> pmm_valid s' \<and> same_heap s s' \<and>
      block_aligned n a \<and> block_bytes n a \<subseteq> free_mem s \<and> free_mem s' = free_mem s - block_bytes n a \<and>
      (\<forall>b. block_aligned n b \<and> block_bytes n b \<subseteq> free_mem s \<longrightarrow> a \<le> b)) \<or>
    (pmm_alloc_pages_low n s = Some (0, s) \<and> (\<nexists>a. block_aligned n a \<and> block_bytes n a \<subseteq> free_mem s))"
  using assms by (rule pmm_alloc_pages_low_cases)

theorem pmm_alloc_pages_low_lowest_witness:
  "\<exists>s'. pmm_alloc_pages_low 1 tiny_heap = Some (8192, s') \<and> free_mem s' = {12288 ..< 16384}"
proof -
  have al: "block_aligned 1 8192 \<and> block_bytes 1 8192 \<subseteq> free_mem tiny_heap"
    by (simp add: block_aligned_def block_bytes_1 request_order_1 tiny_free order_to_size_def order_to_pages_def)
  with pmm_alloc_pages_low_lowest[OF tiny_valid request_ok_1]
  obtain a s' where a: "pmm_alloc_pages_low 1 tiny_heap = Some (a, s')" "block_bytes 1 a \<subseteq> free_mem tiny_heap"
      "free_mem s' = free_mem tiny_heap - block_bytes 1 a" "a \<le> 8192" by blast
  then have "a = 8192" unfolding One_nat_def block_bytes_1 tiny_free by auto
  then show ?thesis using a unfolding One_nat_def block_bytes_1 tiny_free by auto
qed

section \<open>Counters\<close>

text \<open>C8: in every valid state \<open>free_pages\<close> is the number of free pages, the per-order counters add up
  to it, and the used pages that \<open>pmm_get_stats\<close> reports are the rest of the total.\<close>

theorem pmm_page_accounting:
  assumes "pmm_valid s" "total_pages s = (heap_end s - heap_start s) div PAGE_SIZE"
  shows "card (free_mem s) = PAGE_SIZE * pmm_get_free_pages s \<and>
    (\<Sum>ord \<le> MAX_ORDER. free_counts s ord * order_to_pages ord) = pmm_get_free_pages s \<and>
    st_used_pages (pmm_get_stats s) + st_free_pages (pmm_get_stats s) = pmm_get_total_pages s"
proof -
  obtain FL where FL: "pmm_inv s FL" "free_mem s = covered (blocks FL)" "heap_geometry s" using pmm_validE[OF assms(1)] .
  then have core: "pmm_core s FL {}" and fp: "free_pages s = listed_pages FL" by (auto simp: pmm_inv_def)
  then have sep: "separate FL" "disjoint_blocks (blocks FL)" and cnt: "\<forall>ord \<le> MAX_ORDER. free_counts s ord = length (FL ord)"
    by (auto simp: pmm_core_def blocks_ok_def free_lists_rep_def)
  have "PAGE_SIZE * free_pages s \<le> heap_end s - heap_start s" using listed_pages_bound[OF core] fp by simp
  then have le: "free_pages s \<le> total_pages s" unfolding assms(2) by (simp add: less_eq_div_iff_mult_less_eq mult.commute)
  have "total_pages s < U64_MOD"
    using FL(3) unfolding assms(2) heap_geometry_def by (auto simp: div_less_dividend le_less_trans[OF div_le_dividend])
  then show ?thesis
    using listed_pages_card[OF sep] FL(2) fp cnt le
    by (simp add: pmm_get_free_pages_def pmm_get_stats_def pmm_get_total_pages_def listed_pages_def u64_sub_eq)
qed

theorem pmm_page_accounting_witness:
  "card (free_mem tiny_heap) = 8192 \<and> st_used_pages (pmm_get_stats tiny_heap) = 0"
  using pmm_page_accounting[OF tiny_valid]
  by (simp add: pmm_get_free_pages_def pmm_get_stats_def pmm_get_total_pages_def) (simp add: tiny_heap_def)

section \<open>Limits of the code\<close>

text \<open>C9: request sizes outside the supported range.  Counts from \<open>2^19 + 1\<close> to \<open>2^63\<close> are refused
  without touching the state; above \<open>2^63\<close> the loop of \<open>log2_ceil\<close> shifts its bit out and never ends,
  so neither \<open>pmm_alloc_pages\<close> nor \<open>pmm_free_pages\<close> (for an address in the heap) returns.\<close>

theorem pmm_oversized_requests:
  assumes "pmm_initialized s" "order_to_pages MAX_ORDER < n" "n < U64_MOD"
  shows "pmm_alloc_pages n s = (if n \<le> 2 ^ 63 then Some (0, s) else None)"
proof (cases "n \<le> 2 ^ 63")
  case True
  obtain j where j: "log2_ceil n = Some j" "n \<le> 2 ^ j" using log2_ceil_returns[OF True] .
  have "MAX_ORDER < j"
  proof (rule ccontr)
    assume "\<not> MAX_ORDER < j"
    then have "(2::nat) ^ j \<le> 2 ^ 19" by (intro power_increasing) auto
    then show False using j(2) assms(2) by (simp add: order_to_pages_def)
  qed
  then show ?thesis using True j assms by (simp add: pmm_alloc_pages_def)
next
  case False
  then have "log2_ceil n = None" using assms(3) by (intro log2_ceil_diverges) simp_all
  then show ?thesis using False assms by (simp add: pmm_alloc_pages_def order_to_pages_def)
qed

theorem pmm_oversized_requests_witness:
  "pmm_alloc_pages (2 ^ 63 + 1) tiny_heap = None \<and> pmm_alloc_pages (2 ^ 20) tiny_heap = Some (0, tiny_heap)"
  using pmm_oversized_requests[of tiny_heap "2 ^ 63 + 1"] pmm_oversized_requests[of tiny_heap "2 ^ 20"]
  by (simp add: order_to_pages_def) (simp add: tiny_heap_def)

text \<open>A reservation strictly inside one page leaves two output ranges in that page.\<close>

lemma carve_inside_page:
  assumes "0 < off" "0 < sz" "off + sz < PAGE_SIZE" "a + PAGE_SIZE < U64_MOD"
  shows "pmm_carve_reserves a (a + PAGE_SIZE) [(a + off, sz)] (PMM_SPLIT_RSV_MAX + 1) =
    [(a, a + off), (a + off + sz, a + PAGE_SIZE)]"
proof -
  have re: "u64_add (a + off) sz = a + off + sz" using assms by (intro u64_add_eq) simp
  have 1: "next_rsv a (a + PAGE_SIZE) [(a + off, sz)] None = Some (a + off, a + off + sz)"
    using assms by (simp add: re Let_def)
  have 2: "next_rsv (a + off + sz) (a + PAGE_SIZE) [(a + off, sz)] None = None"
    using assms by (simp add: re Let_def)
  have "carve_loop (a + off + sz) (a + PAGE_SIZE) [(a + off, sz)] 2056 = [(a + off + sz, a + PAGE_SIZE)]"
    using assms 2 by (subst carve_loop.simps) simp
  then have "carve_loop a (a + PAGE_SIZE) [(a + off, sz)] 2057 = [(a, a + off), (a + off + sz, a + PAGE_SIZE)]"
    using assms 1 by (subst carve_loop.simps) simp
  then show ?thesis by (simp add: pmm_carve_reserves_def)
qed

lemma region_order_short:
  assumes "e < cur + PAGE_SIZE" "cur + order_to_size MAX_ORDER < U64_MOD" "m \<le> MAX_ORDER"
  shows "region_order cur e m = 0"
  using assms(3)
proof (induction m)
  case (Suc m)
  have "u64_add cur (order_to_size (Suc m)) = cur + order_to_size (Suc m)"
    using order_to_size_mono[OF Suc.prems] assms(2) by (intro u64_add_eq) linarith
  then show ?case using Suc assms(1) page_le_order_to_size[of "Suc m"] by simp
qed simp

text \<open>C10: reservations that are not page-aligned are not honoured.  For a reservation strictly inside a
  page of the heap, \<open>pmm_add_region_split\<close> marks the whole page free and puts it on the list of order
  0, so the reserved bytes can be handed out.\<close>

theorem pmm_partial_page_reserve_lost:
  assumes "heap_geometry s" "heap_start s \<le> a" "a + PAGE_SIZE \<le> heap_end s" "PAGE_SIZE dvd a"
    and "heap_end s + order_to_size MAX_ORDER < U64_MOD" "0 < off" "0 < sz" "off + sz < PAGE_SIZE"
    and "r = \<lparr>pmm_user_reserves = [(a + off, sz)], g_memreserves = [], in_split = False\<rparr>"
  shows "\<exists>s'. pmm_add_region_split a (a + PAGE_SIZE) (r, s) = Some (r, s') \<and>
    a + off \<in> reserved (split_rsv r) \<and> a + off \<in> free_mem s' \<and> free_lists s' 0 = a"
proof -
  have rsv: "split_rsv r = [(a + off, sz)]" by (simp add: assms(9) split_rsv_def dtb_get_memreserves_def)
  have top: "a + order_to_size MAX_ORDER < U64_MOD" "a + PAGE_SIZE < U64_MOD"
    using assms(3,5) page_le_order_to_size[of MAX_ORDER] by linarith+
  let ?s1 = "mark s 0 a BLOCK_FREE"
  let ?s2 = "(free_list_add ?s1 a 0)\<lparr>free_pages := u64_add (free_pages (free_list_add ?s1 a 0)) (order_to_pages 0)\<rparr>"
  have "set_block_state s a 0 BLOCK_FREE = Some ?s1"
    using assms(1-4) by (intro set_block_state_mark) (auto simp: in_heap_def order_to_size_def order_to_pages_def)
  moreover have "region_order a (a + off) MAX_ORDER = 0" using assms(8) top(1) by (intro region_order_short) auto
  moreover have "u64_add a (order_to_size 0) = a + PAGE_SIZE"
    using top(2) by (simp add: order_to_size_def order_to_pages_def u64_add_eq)
  moreover have "add_region_loop (a + PAGE_SIZE) (a + off) ?s2 = Some ?s2"
    using assms(8) by (subst add_region_loop.simps) simp
  ultimately have "add_region_loop a (a + off) s = Some ?s2"
    using assms(6) by (subst add_region_loop.simps) (simp add: Let_def)
  moreover have "page_align_up a = a" using assms(4) top(2) by (intro page_align_up_id) auto
  ultimately have 1: "pmm_add_region a (a + off) s = Some ?s2" by (simp add: pmm_add_region_def)
  have "page_align_up (a + off + sz) = a + PAGE_SIZE"
  proof -
    obtain q where q: "a = PAGE_SIZE * q" using assms(4) ..
    have u: "u64_add (a + off + sz) (PAGE_SIZE - 1) = PAGE_SIZE * Suc q + (off + sz - 1)"
      using assms(6-8) q top(1) by (subst u64_add_eq) (auto simp: order_to_size_def order_to_pages_def)
    have "(PAGE_SIZE * Suc q + t) div PAGE_SIZE = Suc q" if "t < PAGE_SIZE" for t using that by (intro div_nat_eqI) auto
    moreover have "off + sz - 1 < PAGE_SIZE" using assms(8) by simp
    ultimately show ?thesis unfolding page_align_up_def u by (simp add: q)
  qed
  then have 2: "pmm_add_region (a + off + sz) (a + PAGE_SIZE) ?s2 = Some ?s2"
    by (simp add: pmm_add_region_def add_region_loop.simps)
  have "pmm_add_region_split a (a + PAGE_SIZE) (r, s) = Some (r, ?s2)"
    using carve_inside_page[OF assms(6-8) top(2)] 1 2
    by (simp add: pmm_add_region_split_def rsv Let_def) (simp add: assms(9))
  moreover have "a + off \<in> reserved (split_rsv r)"
    using assms(7,8) top(2) by (simp add: rsv u64_add_eq)
  moreover have "a + off \<in> free_mem ?s2"
  proof -
    have "PAGE_SIZE dvd a - heap_start s" using assms(1,4) by (simp add: heap_geometry_def)
    then obtain q where "a - heap_start s = PAGE_SIZE * q" ..
    then have q: "page_addr s q = a" using assms(2) by (simp add: page_addr_def)
    moreover have "q < max_blocks s" using q assms(1,3) by (auto simp: page_addr_def heap_geometry_def)
    moreover have "block_state ?s2 q = BLOCK_FREE" using q by (simp add: mark_def)
    moreover have "page_addr ?s2 q = page_addr s q" by (simp add: page_addr_def)
    ultimately show ?thesis using assms(8) unfolding free_mem_def by (intro CollectI exI[of _ q]) auto
  qed
  ultimately show ?thesis by (intro exI[of _ ?s2]) (simp add: free_list_add_def Let_def)
qed

theorem pmm_partial_page_reserve_lost_witness:
  "\<exists>r s'. 8192 + 100 \<in> reserved (split_rsv r) \<and> 8192 + 100 \<in> free_mem s' \<and>
    pmm_add_region_split 8192 (8192 + PAGE_SIZE) (r, init_state \<lparr>plat_kind = PLATFORM_OTHER, RAM_BASE = 4096,
      RAM_SIZE = 16384, kernel_end = 8192, x86_detected_ram_end = 0\<rparr> tiny_heap) = Some (r, s')"
proof -
  let ?p = "\<lparr>plat_kind = PLATFORM_OTHER, RAM_BASE = 4096, RAM_SIZE = 16384, kernel_end = 8192,
    x86_detected_ram_end = 0\<rparr>"
  let ?s = "init_state ?p tiny_heap"
  have "platform_ok ?p"
    by (simp add: platform_ok_def init_heap_start_def init_heap_end_def init_regions_def page_align_up_def
        u64_add_def order_to_size_def order_to_pages_def)
  note i = init_state_inv[OF this, of tiny_heap]
  have "heap_geometry ?s" using i(1) by (simp add: pmm_inv_def pmm_core_def)
  moreover have "heap_start ?s = 8192" "heap_end ?s = 20480"
    by (simp_all add: i init_heap_start_def init_heap_end_def page_align_up_def u64_add_def)
  ultimately show ?thesis
    using pmm_partial_page_reserve_lost[of ?s 8192 100 50 "\<lparr>pmm_user_reserves = [(8192 + 100, 50)], g_memreserves = [], in_split = False\<rparr>"]
    by (fastforce simp: order_to_size_def order_to_pages_def)
qed

end
