(* ===== verification/IpcQueue.thy ===== *)
theory IpcQueue
  imports Prelude
begin

text \<open>
  Priority message queues (\<open>kernel/ipc/ipc.c\<close>): four ring buffers in one byte buffer, selection of
  the level to receive from, and the send and receive paths.

  A task is its number.  A wait queue is the list of blocked tasks, head first.  \<open>msg_send_priority\<close>
  and \<open>msg_recv\<close> hold the queue lock except while they wait, so each is a sequence of atomic
  attempts: \<open>msg_send_try\<close> and \<open>msg_recv_try\<close> are the code from one acquisition of the lock to the
  next release, and tell whether the call returned, blocked on a wait queue, or yielded to try
  again.
\<close>

section \<open>State\<close>

abbreviation (input) MSG_PRIO_LOW :: nat where "MSG_PRIO_LOW \<equiv> 0"
abbreviation (input) MSG_PRIO_NORMAL :: nat where "MSG_PRIO_NORMAL \<equiv> 1"
abbreviation (input) MSG_PRIO_URGENT :: nat where "MSG_PRIO_URGENT \<equiv> 3"
abbreviation (input) MSG_PRIO_COUNT :: nat where "MSG_PRIO_COUNT \<equiv> 4"
abbreviation (input) MSG_STARVATION_THRESHOLD :: nat where "MSG_STARVATION_THRESHOLD \<equiv> 8"
abbreviation (input) MSG_QUEUE_MAX_CAPACITY :: nat where "MSG_QUEUE_MAX_CAPACITY \<equiv> 65536"
abbreviation (input) MSG_NO_WAIT :: int where "MSG_NO_WAIT \<equiv> 0"

abbreviation (input) IPC_OK :: int where "IPC_OK \<equiv> 0"
abbreviation (input) IPC_ERR_FULL :: int where "IPC_ERR_FULL \<equiv> -2"
abbreviation (input) IPC_ERR_EMPTY :: int where "IPC_ERR_EMPTY \<equiv> -3"
abbreviation (input) IPC_ERR_TIMEOUT :: int where "IPC_ERR_TIMEOUT \<equiv> -4"
abbreviation (input) IPC_ERR_INVALID :: int where "IPC_ERR_INVALID \<equiv> -5"
abbreviation (input) IPC_ERR_BUSY :: int where "IPC_ERR_BUSY \<equiv> -6"

record prio_buffer =
  pb_head :: nat
  pb_tail :: nat
  pb_count :: nat

record msg_queue =
  mq_id :: nat
  msg_size :: nat
  capacity :: nat
  total_capacity :: nat
  total_count :: nat
  buffer :: "nat \<Rightarrow> u8"
  send_waiters :: "nat list"
  recv_waiters :: "nat list"
  prio :: "nat \<Rightarrow> prio_buffer"
  high_prio_recv_count :: nat
  msgs_sent :: nat
  msgs_recv :: nat
  high_water :: nat
  prio_msgs_sent :: "nat \<Rightarrow> nat"

text \<open>The queue that \<open>msg_queue_create\<close> sets up in the zeroed page; the identifier comes later.\<close>

definition init_queue :: "nat \<Rightarrow> nat \<Rightarrow> msg_queue" where
  "init_queue cap sz =
     \<lparr>mq_id = 0, msg_size = sz, capacity = cap, total_capacity = u64_mul cap MSG_PRIO_COUNT, total_count = 0,
      buffer = (\<lambda>_. 0), send_waiters = [], recv_waiters = [],
      prio = (\<lambda>_. \<lparr>pb_head = 0, pb_tail = 0, pb_count = 0\<rparr>), high_prio_recv_count = 0,
      msgs_sent = 0, msgs_recv = 0, high_water = 0, prio_msgs_sent = (\<lambda>_. 0)\<rparr>"

section \<open>Helpers\<close>

text \<open>\<open>ipc_memcpy\<close> into and out of a byte array at an offset.\<close>

fun mem_write :: "(nat \<Rightarrow> u8) \<Rightarrow> nat \<Rightarrow> u8 list \<Rightarrow> nat \<Rightarrow> u8" where
  "mem_write b off [] = b"
| "mem_write b off (x # xs) = mem_write (b(off := x)) (Suc off) xs"

fun mem_read :: "(nat \<Rightarrow> u8) \<Rightarrow> nat \<Rightarrow> nat \<Rightarrow> u8 list" where
  "mem_read b off 0 = []"
| "mem_read b off (Suc n) = b off # mem_read b (Suc off) n"

definition ms_to_ticks :: "nat \<Rightarrow> nat \<Rightarrow> nat" where
  "ms_to_ticks freq ms = u64_mul ms freq div 1000"

definition timeout_expired :: "nat \<Rightarrow> nat \<Rightarrow> nat \<Rightarrow> bool" where
  "timeout_expired now start_time timeout_ticks \<longleftrightarrow> timeout_ticks \<le> u64_sub now start_time"

text \<open>The queue part of \<open>block_on_queue\<close> and \<open>wake_one\<close>: the waiter list is a stack.\<close>

definition block_on_queue :: "nat \<Rightarrow> nat list \<Rightarrow> nat list" where
  "block_on_queue current wait_queue = current # wait_queue"

definition wake_one :: "nat list \<Rightarrow> nat option \<times> nat list" where
  "wake_one wait_queue = (case wait_queue of [] \<Rightarrow> (None, []) | t # ts \<Rightarrow> (Some t, ts))"

definition prio_slot :: "msg_queue \<Rightarrow> nat \<Rightarrow> nat \<Rightarrow> nat" where
  "prio_slot q p idx = u64_add (u64_mul (u64_mul p (capacity q)) (msg_size q)) (u64_mul idx (msg_size q))"

definition clamp_priority :: "int \<Rightarrow> nat" where
  "clamp_priority priority =
     (let p1 = (if priority < int MSG_PRIO_LOW then int MSG_PRIO_LOW else priority);
          p2 = (if p1 > int MSG_PRIO_URGENT then int MSG_PRIO_URGENT else p1)
      in nat p2)"

section \<open>Sending\<close>

datatype attempt =
  Returned int msg_queue "nat option" "u8 list"
| Blocked msg_queue
| Yielded
| Rejected int

text \<open>The part of \<open>msg_send_priority\<close> after the wait loop.  \<open>msg\<close> has \<open>msg_size\<close> bytes.\<close>

definition enqueue :: "msg_queue \<Rightarrow> nat \<Rightarrow> u8 list \<Rightarrow> msg_queue \<times> nat option" where
  "enqueue q p msg =
     (let pb = prio q p;
          buf = mem_write (buffer q) (prio_slot q p (pb_head pb)) msg;
          pb' = pb\<lparr>pb_head := u64_add (pb_head pb) 1 mod capacity q, pb_count := u64_add (pb_count pb) 1\<rparr>;
          tc = u64_add (total_count q) 1;
          (woken, ws) = wake_one (recv_waiters q)
      in (q\<lparr>buffer := buf, prio := (prio q)(p := pb'), total_count := tc,
            msgs_sent := u64_add (msgs_sent q) 1,
            prio_msgs_sent := (prio_msgs_sent q)(p := u64_add (prio_msgs_sent q p) 1),
            high_water := (if tc > high_water q then tc else high_water q),
            recv_waiters := ws\<rparr>, woken))"

definition msg_send_try ::
  "nat \<Rightarrow> u8 list option \<Rightarrow> int \<Rightarrow> int \<Rightarrow> nat \<Rightarrow> nat \<Rightarrow> nat \<Rightarrow> msg_queue option \<Rightarrow> attempt" where
  "msg_send_try current msg priority timeout_ms start_time timeout_ticks now queue =
     (case (queue, msg) of
        (Some q, Some m) \<Rightarrow>
          (let p = clamp_priority priority
           in if pb_count (prio q p) \<ge> capacity q
              then if timeout_ms = MSG_NO_WAIT then Returned IPC_ERR_FULL q None []
                   else if timeout_ms > 0 \<and> timeout_expired now start_time timeout_ticks
                        then Returned IPC_ERR_TIMEOUT q None []
                   else if timeout_ms < 0
                        then Blocked (q\<lparr>send_waiters := block_on_queue current (send_waiters q)\<rparr>)
                   else Yielded
              else (case enqueue q p m of (q', woken) \<Rightarrow> Returned IPC_OK q' woken []))
      | _ \<Rightarrow> Rejected IPC_ERR_INVALID)"

definition msg_send_try_normal ::
  "nat \<Rightarrow> u8 list option \<Rightarrow> int \<Rightarrow> nat \<Rightarrow> nat \<Rightarrow> nat \<Rightarrow> msg_queue option \<Rightarrow> attempt" where
  "msg_send_try_normal current msg timeout_ms start_time timeout_ticks now queue =
     msg_send_try current msg (int MSG_PRIO_NORMAL) timeout_ms start_time timeout_ticks now queue"

section \<open>Receiving\<close>

fun lowest_level :: "msg_queue \<Rightarrow> nat list \<Rightarrow> nat option" where
  "lowest_level q [] = None"
| "lowest_level q (p # ps) = (if pb_count (prio q p) > 0 then Some p else lowest_level q ps)"

definition select_recv_priority :: "msg_queue \<Rightarrow> nat option \<times> msg_queue" where
  "select_recv_priority q =
     (case (if high_prio_recv_count q \<ge> MSG_STARVATION_THRESHOLD
            then lowest_level q [MSG_PRIO_LOW ..< Suc MSG_PRIO_URGENT] else None) of
        Some p \<Rightarrow> (Some p, q\<lparr>high_prio_recv_count := 0\<rparr>)
      | None \<Rightarrow>
          (case lowest_level q (rev [MSG_PRIO_LOW ..< Suc MSG_PRIO_URGENT]) of
             None \<Rightarrow> (None, q)
           | Some p \<Rightarrow> (Some p, q\<lparr>high_prio_recv_count :=
                                    (if p > MSG_PRIO_LOW then u32_add (high_prio_recv_count q) 1 else 0)\<rparr>)))"

definition dequeue :: "msg_queue \<Rightarrow> nat \<Rightarrow> u8 list \<times> msg_queue \<times> nat option" where
  "dequeue q p =
     (let pb = prio q p;
          msg = mem_read (buffer q) (prio_slot q p (pb_tail pb)) (msg_size q);
          pb' = pb\<lparr>pb_tail := u64_add (pb_tail pb) 1 mod capacity q, pb_count := u64_sub (pb_count pb) 1\<rparr>;
          (woken, ws) = wake_one (send_waiters q)
      in (msg, q\<lparr>prio := (prio q)(p := pb'), total_count := u64_sub (total_count q) 1,
                 msgs_recv := u64_add (msgs_recv q) 1, send_waiters := ws\<rparr>, woken))"

text \<open>\<open>dst\<close> tells whether the caller's message pointer is not \<open>NULL\<close>.\<close>

definition msg_recv_try ::
  "nat \<Rightarrow> bool \<Rightarrow> int \<Rightarrow> nat \<Rightarrow> nat \<Rightarrow> nat \<Rightarrow> msg_queue option \<Rightarrow> attempt" where
  "msg_recv_try current dst timeout_ms start_time timeout_ticks now queue =
     (case queue of
        None \<Rightarrow> Rejected IPC_ERR_INVALID
      | Some q \<Rightarrow>
          if \<not> dst then Rejected IPC_ERR_INVALID
          else if total_count q = 0
          then if timeout_ms = MSG_NO_WAIT then Returned IPC_ERR_EMPTY q None []
               else if timeout_ms > 0 \<and> timeout_expired now start_time timeout_ticks
                    then Returned IPC_ERR_TIMEOUT q None []
               else if timeout_ms < 0
                    then Blocked (q\<lparr>recv_waiters := block_on_queue current (recv_waiters q)\<rparr>)
               else Yielded
          else (case select_recv_priority q of
                  (None, q1) \<Rightarrow> Returned IPC_ERR_EMPTY q1 None []
                | (Some p, q1) \<Rightarrow>
                    (case dequeue q1 p of (msg, q2, woken) \<Rightarrow> Returned IPC_OK q2 woken msg)))"

definition msg_queue_count :: "msg_queue option \<Rightarrow> nat" where
  "msg_queue_count queue = (case queue of None \<Rightarrow> 0 | Some q \<Rightarrow> total_count q)"

definition msg_queue_stats :: "msg_queue \<Rightarrow> nat \<times> nat \<times> nat" where
  "msg_queue_stats q = (msgs_sent q, msgs_recv q, high_water q)"

section \<open>Byte arrays\<close>

lemma mem_write_eq:
  "mem_write b off xs = (\<lambda>i. if off \<le> i \<and> i < off + length xs then xs ! (i - off) else b i)"
proof (induction xs arbitrary: b off)
  case (Cons x xs)
  show ?case unfolding mem_write.simps Cons.IH by (auto simp: fun_eq_iff nth_Cons')
qed (auto simp: fun_eq_iff)

lemma mem_write_in: "off \<le> i \<Longrightarrow> i < off + length xs \<Longrightarrow> mem_write b off xs i = xs ! (i - off)"
  and mem_write_out: "i < off \<or> off + length xs \<le> i \<Longrightarrow> mem_write b off xs i = b i"
  by (auto simp: mem_write_eq)

lemma mem_read_eq: "mem_read b off n = map b [off ..< off + n]"
  by (induction n arbitrary: off) (auto simp: upt_rec)

lemma mem_read_write_same: "length xs = n \<Longrightarrow> mem_read (mem_write b off xs) off n = xs"
  by (auto simp: mem_read_eq mem_write_in intro!: nth_equalityI)

lemma mem_read_write_other:
  "off' + n \<le> off \<or> off + length xs \<le> off' \<Longrightarrow> mem_read (mem_write b off xs) off' n = mem_read b off' n"
  by (auto simp: mem_read_eq mem_write_out)

section \<open>Queues as four lists\<close>

definition slot_offset :: "msg_queue \<Rightarrow> nat \<Rightarrow> nat \<Rightarrow> nat" where
  "slot_offset q p idx = (p * capacity q + idx) * msg_size q"

definition ring_msg :: "msg_queue \<Rightarrow> nat \<Rightarrow> nat \<Rightarrow> u8 list" where
  "ring_msg q p i =
     mem_read (buffer q) (slot_offset q p ((pb_tail (prio q p) + i) mod capacity q)) (msg_size q)"

definition level :: "msg_queue \<Rightarrow> nat \<Rightarrow> u8 list list" where
  "level q p = map (ring_msg q p) [0 ..< pb_count (prio q p)]"

definition level_ok :: "msg_queue \<Rightarrow> nat \<Rightarrow> bool" where
  "level_ok q p \<longleftrightarrow> pb_tail (prio q p) < capacity q \<and> pb_count (prio q p) \<le> capacity q \<and>
     pb_head (prio q p) = (pb_tail (prio q p) + pb_count (prio q p)) mod capacity q"

definition queue_inv :: "msg_queue \<Rightarrow> bool" where
  "queue_inv q \<longleftrightarrow> 0 < capacity q \<and> capacity q \<le> MSG_QUEUE_MAX_CAPACITY \<and> 0 < msg_size q \<and>
     total_capacity q = capacity q * MSG_PRIO_COUNT \<and> total_capacity q * msg_size q < U64_MOD \<and>
     (\<forall>p < MSG_PRIO_COUNT. level_ok q p) \<and>
     total_count q = (\<Sum>p < MSG_PRIO_COUNT. pb_count (prio q p)) \<and>
     total_count q \<le> high_water q \<and> high_water q \<le> total_capacity q \<and>
     high_prio_recv_count q \<le> MSG_STARVATION_THRESHOLD"

lemma init_queue_inv:
  assumes "0 < cap" "cap \<le> MSG_QUEUE_MAX_CAPACITY" "0 < sz" "cap * MSG_PRIO_COUNT * sz < U64_MOD"
  shows "queue_inv (init_queue cap sz)"
  using assms by (auto simp: queue_inv_def init_queue_def level_ok_def u64_mul_eq)

lemma init_queue_empty: "level (init_queue cap sz) p = []"
  by (simp add: level_def init_queue_def)

lemma length_level [simp]: "length (level q p) = pb_count (prio q p)"
  by (simp add: level_def)

lemma clamp_less [simp]: "clamp_priority priority < MSG_PRIO_COUNT"
  by (auto simp: clamp_priority_def Let_def)

lemma slot_bound:
  assumes "p < MSG_PRIO_COUNT" "i < capacity q" "total_capacity q = capacity q * MSG_PRIO_COUNT"
  shows "slot_offset q p i + msg_size q \<le> total_capacity q * msg_size q"
proof -
  have "p * capacity q + capacity q \<le> capacity q * MSG_PRIO_COUNT"
    using assms(1) mult_le_mono1[of "Suc p" MSG_PRIO_COUNT "capacity q"] by (simp add: mult.commute)
  then have "Suc (p * capacity q + i) \<le> total_capacity q" using assms(2,3) by linarith
  then have "Suc (p * capacity q + i) * msg_size q \<le> total_capacity q * msg_size q" by (rule mult_le_mono1)
  then show ?thesis by (simp add: slot_offset_def)
qed

text \<open>The slot arithmetic of the code does not wrap.\<close>

lemma prio_slot_eq:
  assumes inv: "queue_inv q" and p: "p < MSG_PRIO_COUNT" and i: "i < capacity q"
  shows "prio_slot q p i = slot_offset q p i"
proof -
  have tc: "total_capacity q = capacity q * MSG_PRIO_COUNT" and top: "total_capacity q * msg_size q < U64_MOD"
    and ms: "0 < msg_size q" using inv by (auto simp: queue_inv_def)
  have "slot_offset q p i + msg_size q < U64_MOD" using slot_bound[OF p i tc] top by simp
  then have lt: "p * capacity q * msg_size q + i * msg_size q < U64_MOD"
    by (simp add: slot_offset_def add_mult_distrib)
  have "p * capacity q \<le> p * capacity q * msg_size q" using ms by simp
  then have "p * capacity q < U64_MOD" using lt by linarith
  then show ?thesis using lt by (simp add: prio_slot_def slot_offset_def u64_mul_eq u64_add_eq add_mult_distrib)
qed

text \<open>Different slots do not overlap.\<close>

lemma slots_disjoint:
  assumes "p < MSG_PRIO_COUNT" "i < capacity q" "j < capacity q" "(p, i) \<noteq> (r, j)"
  shows "slot_offset q p i + msg_size q \<le> slot_offset q r j \<or> slot_offset q r j + msg_size q \<le> slot_offset q p i"
proof -
  have ne: "p * capacity q + i \<noteq> r * capacity q + j"
  proof
    assume eq: "p * capacity q + i = r * capacity q + j"
    then have "(p * capacity q + i) div capacity q = (r * capacity q + j) div capacity q"
      "(p * capacity q + i) mod capacity q = (r * capacity q + j) mod capacity q" by simp_all
    then show False using assms by simp
  qed
  have step: "slot_offset q a b + msg_size q \<le> slot_offset q c d" if "a * capacity q + b < c * capacity q + d" for a b c d
  proof -
    have "Suc (a * capacity q + b) * msg_size q \<le> (c * capacity q + d) * msg_size q"
      using that by (intro mult_le_mono1) simp
    then show ?thesis by (simp add: slot_offset_def)
  qed
  show ?thesis using ne step by (meson linorder_neqE_nat)
qed

lemma mod_add_neq:
  fixes c :: nat
  assumes "i < c" "j < c" "i \<noteq> j"
  shows "(t + i) mod c \<noteq> (t + j) mod c"
proof
  assume "(t + i) mod c = (t + j) mod c"
  then have "i mod c = j mod c" by (simp add: nat_mod_eq_iff)
  then show False using assms by simp
qed

section \<open>Sending appends, receiving takes the oldest\<close>

lemma enqueue_frame:
  assumes "enqueue q p msg = (q', w)"
  shows "capacity q' = capacity q" "msg_size q' = msg_size q" "total_capacity q' = total_capacity q"
    "send_waiters q' = send_waiters q" "high_prio_recv_count q' = high_prio_recv_count q" "mq_id q' = mq_id q"
    "msgs_recv q' = msgs_recv q" "wake_one (recv_waiters q) = (w, recv_waiters q')"
  using assms by (auto simp: enqueue_def Let_def split: prod.splits)

lemma enqueue_level:
  assumes inv: "queue_inv q" and p: "p < MSG_PRIO_COUNT" and room: "pb_count (prio q p) < capacity q"
    and len: "length msg = msg_size q" and eq: "enqueue q p msg = (q', w)"
  shows "queue_inv q'" "level q' p = level q p @ [msg]" "r < MSG_PRIO_COUNT \<Longrightarrow> r \<noteq> p \<Longrightarrow> level q' r = level q r"
    "total_count q' = Suc (total_count q)"
proof -
  let ?c = "capacity q" and ?pb = "prio q p"
  have i: "0 < ?c" "?c \<le> 65536" "0 < msg_size q" "total_capacity q = ?c * 4" "total_capacity q * msg_size q < U64_MOD"
      "\<forall>p < 4. level_ok q p" "total_count q = (\<Sum>p < 4. pb_count (prio q p))" "total_count q \<le> high_water q"
      "high_water q \<le> total_capacity q" "high_prio_recv_count q \<le> 8"
    using inv by (auto simp: queue_inv_def)
  have lp: "pb_tail ?pb < ?c" "pb_head ?pb = (pb_tail ?pb + pb_count ?pb) mod ?c" using i(6) p by (auto simp: level_ok_def)
  have hd: "pb_head ?pb < ?c" using lp(2) i(1) by simp
  define off where "off = slot_offset q p (pb_head ?pb)"
  have off: "prio_slot q p (pb_head ?pb) = off" unfolding off_def by (rule prio_slot_eq[OF inv p hd])
  have cnt: "u64_add (pb_count ?pb) 1 = Suc (pb_count ?pb)" "u64_add (pb_head ?pb) 1 = Suc (pb_head ?pb)"
    using room hd i(2) by (auto simp: u64_add_eq)
  have tc: "total_count q + 1 \<le> ?c * 4"
  proof -
    have le: "pb_count (prio q r) \<le> ?c" if "r < 4" for r using i(6) that by (simp add: level_ok_def)
    have "(\<Sum>r < 4. pb_count (prio q r)) < (\<Sum>r < (4::nat). ?c)"
      using room le p by (intro sum_strict_mono_ex1) auto
    then show ?thesis using i(7) by simp
  qed
  then have tc1: "u64_add (total_count q) 1 = Suc (total_count q)" using i(2) by (simp add: u64_add_eq)
  have q': "buffer q' = mem_write (buffer q) off msg"
    "prio q' = (prio q)(p := ?pb\<lparr>pb_head := Suc (pb_head ?pb) mod ?c, pb_count := Suc (pb_count ?pb)\<rparr>)"
    "total_count q' = Suc (total_count q)" "high_water q' = max (high_water q) (Suc (total_count q))"
    using eq unfolding enqueue_def Let_def off cnt tc1 by (auto split: prod.splits)
  note fr = enqueue_frame[OF eq]
  have so: "slot_offset q' a b = slot_offset q a b" for a b by (simp add: slot_offset_def fr)
  show "total_count q' = Suc (total_count q)" by (rule q'(3))
  have old: "ring_msg q' r j = ring_msg q r j" if r: "r < 4" "j < pb_count (prio q r)" for r j
  proof -
    have t: "pb_tail (prio q' r) = pb_tail (prio q r)" by (simp add: q'(2))
    let ?j = "(pb_tail (prio q r) + j) mod ?c"
    have jc: "j < ?c" using r i(6) by (auto simp: level_ok_def)
    have "(p, pb_head ?pb) \<noteq> (r, ?j)"
      using lp(2) mod_add_neq[of j ?c "pb_count ?pb" "pb_tail ?pb"] jc r room by auto
    then have "slot_offset q p (pb_head ?pb) + msg_size q \<le> slot_offset q r ?j \<or>
        slot_offset q r ?j + msg_size q \<le> slot_offset q p (pb_head ?pb)"
      using i(1) by (intro slots_disjoint[OF p hd]) auto
    then show ?thesis unfolding ring_msg_def so t fr q'(1) off_def
      using len by (subst mem_read_write_other) auto
  qed
  have new: "ring_msg q' p (pb_count ?pb) = msg"
    unfolding ring_msg_def so fr q'(1) q'(2) off_def using lp(2) mem_read_write_same[OF len] by simp
  show "level q' p = level q p @ [msg]"
    using old[OF p] new by (simp add: level_def q'(2))
  show "level q' r = level q r" if "r < 4" "r \<noteq> p" using old[OF that(1)] that(2) by (simp add: level_def q'(2))
  have "level_ok q' r" if "r < 4" for r
    using i(6) that lp room by (auto simp: level_ok_def q'(2) fr mod_Suc_eq)
  moreover have "(\<Sum>r < 4. pb_count (prio q' r)) = Suc (\<Sum>r < 4. pb_count (prio q r))"
  proof -
    have p': "p \<in> {..<4}" using p by simp
    have same: "(\<Sum>r \<in> {..<4} - {p}. pb_count (prio q' r)) = (\<Sum>r \<in> {..<4} - {p}. pb_count (prio q r))"
      by (intro sum.cong) (auto simp: q'(2))
    show ?thesis using same by (simp add: sum.remove[OF finite_lessThan p'] q'(2))
  qed
  ultimately show "queue_inv q'" using i tc by (simp add: queue_inv_def fr q'(3,4))
qed

lemma dequeue_frame:
  assumes "dequeue q p = (msg, q', w)"
  shows "capacity q' = capacity q" "msg_size q' = msg_size q" "total_capacity q' = total_capacity q" "buffer q' = buffer q"
    "recv_waiters q' = recv_waiters q" "high_prio_recv_count q' = high_prio_recv_count q" "mq_id q' = mq_id q"
    "high_water q' = high_water q" "msgs_sent q' = msgs_sent q" "wake_one (send_waiters q) = (w, send_waiters q')"
  using assms by (auto simp: dequeue_def Let_def split: prod.splits)

lemma dequeue_level:
  assumes inv: "queue_inv q" and p: "p < MSG_PRIO_COUNT" and some: "0 < pb_count (prio q p)"
    and eq: "dequeue q p = (msg, q', w)"
  shows "queue_inv q'" "level q p = msg # level q' p" "r < MSG_PRIO_COUNT \<Longrightarrow> r \<noteq> p \<Longrightarrow> level q' r = level q r"
    "total_count q = Suc (total_count q')"
proof -
  let ?c = "capacity q" and ?pb = "prio q p"
  have i: "0 < ?c" "?c \<le> 65536" "0 < msg_size q" "total_capacity q = ?c * 4" "total_capacity q * msg_size q < U64_MOD"
      "\<forall>p < 4. level_ok q p" "total_count q = (\<Sum>p < 4. pb_count (prio q p))" "total_count q \<le> high_water q"
      "high_water q \<le> total_capacity q" "high_prio_recv_count q \<le> 8"
    using inv by (auto simp: queue_inv_def)
  have lp: "pb_tail ?pb < ?c" "pb_count ?pb \<le> ?c" "pb_head ?pb = (pb_tail ?pb + pb_count ?pb) mod ?c"
    using i(6) p by (auto simp: level_ok_def)
  have slot: "prio_slot q p (pb_tail ?pb) = slot_offset q p (pb_tail ?pb)" by (rule prio_slot_eq[OF inv p lp(1)])
  have "pb_count ?pb \<le> total_count q" unfolding i(7) using p by (intro member_le_sum) auto
  then have tc: "0 < total_count q" "total_count q < U64_MOD" using some i by auto
  have w: "u64_sub (pb_count ?pb) 1 = pb_count ?pb - 1" "u64_add (pb_tail ?pb) 1 = Suc (pb_tail ?pb)"
    "u64_sub (total_count q) 1 = total_count q - 1"
    using lp some tc i(2) by (auto simp: u64_sub_eq u64_add_eq)
  have q': "prio q' = (prio q)(p := ?pb\<lparr>pb_tail := Suc (pb_tail ?pb) mod ?c, pb_count := pb_count ?pb - 1\<rparr>)"
    "total_count q' = total_count q - 1"
    and msg: "msg = mem_read (buffer q) (slot_offset q p (pb_tail ?pb)) (msg_size q)"
    using eq unfolding dequeue_def Let_def slot w by (auto split: prod.splits)
  note fr = dequeue_frame[OF eq]
  have so: "slot_offset q' a b = slot_offset q a b" for a b by (simp add: slot_offset_def fr)
  show "total_count q = Suc (total_count q')" using q'(2) tc by simp
  have hd: "msg = ring_msg q p 0" unfolding msg ring_msg_def using lp(1) by simp
  have sh: "ring_msg q' p j = ring_msg q p (Suc j)" for j
    unfolding ring_msg_def so fr q'(1) by (simp add: mod_add_left_eq)
  obtain n where n: "pb_count ?pb = Suc n" using some by (cases "pb_count ?pb") auto
  show "level q p = msg # level q' p"
    unfolding level_def n map_upt_Suc hd using sh by (simp add: q'(1) n)
  show "level q' r = level q r" if "r < 4" "r \<noteq> p" using that by (simp add: level_def ring_msg_def so fr q'(1))
  have "level_ok q' r" if "r < 4" for r
  proof (cases "r = p")
    case True
    have "(Suc (pb_tail ?pb) mod ?c + (pb_count ?pb - 1)) mod ?c = (pb_tail ?pb + pb_count ?pb) mod ?c"
      by (simp add: n mod_add_left_eq)
    then show ?thesis using lp True i(1) by (simp add: level_ok_def q'(1) fr)
  next
    case False
    then show ?thesis using i(6) that by (simp add: level_ok_def q'(1) fr)
  qed
  moreover have "Suc (\<Sum>r < 4. pb_count (prio q' r)) = (\<Sum>r < 4. pb_count (prio q r))"
  proof -
    have p': "p \<in> {..<4}" using p by simp
    have same: "(\<Sum>r \<in> {..<4} - {p}. pb_count (prio q' r)) = (\<Sum>r \<in> {..<4} - {p}. pb_count (prio q r))"
      by (intro sum.cong) (auto simp: q'(1))
    show ?thesis using same some by (simp add: sum.remove[OF finite_lessThan p'] q'(1))
  qed
  moreover have "total_count q' = (\<Sum>r < 4. pb_count (prio q' r))" using calculation(2) q'(2) i(7) by linarith
  moreover have "total_count q' \<le> high_water q" using q'(2) i(8) by linarith
  ultimately show "queue_inv q'" using i by (simp add: queue_inv_def fr)
qed

section \<open>Which level is served\<close>

lemma all_less_4: "(\<forall>r < 4. P r) \<longleftrightarrow> P 0 \<and> P 1 \<and> P 2 \<and> P (3::nat)"
  by (auto simp: less_Suc_eq numeral_eq_Suc)

definition starving :: "msg_queue \<Rightarrow> bool" where
  "starving q \<longleftrightarrow> MSG_STARVATION_THRESHOLD \<le> high_prio_recv_count q"

text \<open>The whole selection rule: the lowest non-empty level after eight receives in a row from above
  the lowest level, the highest non-empty level otherwise.\<close>

lemma select_spec:
  assumes inv: "queue_inv q" and some: "0 < total_count q"
  obtains p c where "select_recv_priority q = (Some p, q\<lparr>high_prio_recv_count := c\<rparr>)"
    "p < MSG_PRIO_COUNT" "0 < pb_count (prio q p)" "c \<le> MSG_STARVATION_THRESHOLD"
    "\<forall>r < MSG_PRIO_COUNT. 0 < pb_count (prio q r) \<longrightarrow> (if starving q then p \<le> r else r \<le> p)"
    "c = (if starving q \<or> p = 0 then 0 else Suc (high_prio_recv_count q))"
proof -
  let ?n = "\<lambda>r. pb_count (prio q r)"
  have "total_count q = (\<Sum>p < 4. ?n p)" using inv by (simp add: queue_inv_def)
  then have nz: "\<not> (?n 0 = 0 \<and> ?n 1 = 0 \<and> ?n 2 = 0 \<and> ?n 3 = 0)"
    using some all_less_4[of "\<lambda>r. ?n r = 0"] by auto
  have hc: "high_prio_recv_count q \<le> 8" using inv by (simp add: queue_inv_def)
  have L: "[0 ..< Suc 3] = [0, 1, 2, 3 :: nat]" by (simp add: upt_rec)
  have inc: "u32_add (high_prio_recv_count q) 1 = Suc (high_prio_recv_count q)" using hc by (simp add: u32_add_eq)
  define p :: nat where "p = (if starving q then if 0 < ?n 0 then 0 else if 0 < ?n 1 then 1 else if 0 < ?n 2 then 2 else 3
    else if 0 < ?n 3 then 3 else if 0 < ?n 2 then 2 else if 0 < ?n 1 then 1 else 0)"
  define c where "c = (if starving q \<or> p = 0 then 0 else Suc (high_prio_recv_count q))"
  show thesis
  proof (rule that[of p c])
    show "select_recv_priority q = (Some p, q\<lparr>high_prio_recv_count := c\<rparr>)"
      using nz inc unfolding select_recv_priority_def L c_def p_def starving_def by auto
    show "c \<le> 8" using hc by (simp add: c_def starving_def)
    show "0 < ?n p" using nz by (auto simp: p_def)
    show "\<forall>r < 4. 0 < ?n r \<longrightarrow> (if starving q then p \<le> r else r \<le> p)" unfolding all_less_4 by (simp add: p_def)
  qed (simp_all add: p_def c_def)
qed

end
