(* ===== verification/IpcMailbox.thy ===== *)
theory IpcMailbox
  imports IpcQueue
begin

text \<open>
  What a user of a message queue may rely on: the interface \<open>priority_mailbox\<close>, the history lemma
  for all its clients (per level, messages come out in the order they went in, none lost, none
  invented), and its interpretation on the non-blocking send and receive of \<open>kernel/ipc/ipc.c\<close>.
\<close>

locale priority_mailbox =
  fixes lv :: "'q \<Rightarrow> nat \<Rightarrow> 'm list"
    and inv :: "'q \<Rightarrow> bool"
    and fits :: "'q \<Rightarrow> 'm \<Rightarrow> bool"
    and put :: "'m \<Rightarrow> nat \<Rightarrow> 'q \<Rightarrow> 'q option"
    and get :: "'q \<Rightarrow> ('m \<times> 'q) option"
    and levels :: nat
  assumes put_law: "inv q \<Longrightarrow> p < levels \<Longrightarrow> fits q m \<Longrightarrow> put m p q = Some q' \<Longrightarrow>
      inv q' \<and> fits q' = fits q \<and> (\<forall>r < levels. lv q' r = (if r = p then lv q p @ [m] else lv q r))"
    and get_law: "inv q \<Longrightarrow> get q = Some (m, q') \<Longrightarrow>
      inv q' \<and> fits q' = fits q \<and> (\<exists>p < levels. lv q p = m # lv q' p \<and> (\<forall>r < levels. r \<noteq> p \<longrightarrow> lv q' r = lv q r))"
begin

text \<open>A run with its history: what was accepted at each level and what came out of it.\<close>

inductive history :: "'q \<Rightarrow> (nat \<Rightarrow> 'm list) \<Rightarrow> (nat \<Rightarrow> 'm list) \<Rightarrow> 'q \<Rightarrow> bool" for q0 where
  start: "history q0 (\<lambda>_. []) (\<lambda>_. []) q0"
| sent: "history q0 ins outs q \<Longrightarrow> p < levels \<Longrightarrow> fits q m \<Longrightarrow> put m p q = Some q' \<Longrightarrow>
    history q0 (ins(p := ins p @ [m])) outs q'"
| received: "history q0 ins outs q \<Longrightarrow> get q = Some (m, q') \<Longrightarrow> p < levels \<Longrightarrow> lv q p = m # lv q' p \<Longrightarrow>
    \<forall>r < levels. r \<noteq> p \<longrightarrow> lv q' r = lv q r \<Longrightarrow> history q0 ins (outs(p := outs p @ [m])) q'"

lemma history_inv: "history q0 ins outs q \<Longrightarrow> inv q0 \<Longrightarrow> inv q"
  by (induction rule: history.induct) (use put_law get_law in blast)+

lemma fifo:
  assumes "history q0 ins outs q" "inv q0" "r < levels"
  shows "lv q0 r @ ins r = outs r @ lv q r"
  using assms(1)
proof (induction rule: history.induct)
  case (sent ins outs q p m q')
  have "inv q" using history_inv[OF sent.hyps(1) assms(2)] .
  then have "lv q' r = (if r = p then lv q p @ [m] else lv q r)" using put_law sent.hyps(2-4) assms(3) by blast
  then show ?case using sent.IH by auto
next
  case (received ins outs q m q' p)
  then show ?case using assms(3) by auto
qed simp

text \<open>Every successful receive extends some history.\<close>

lemma history_get:
  assumes "history q0 ins outs q" "inv q0" "get q = Some (m, q')"
  shows "\<exists>p < levels. history q0 ins (outs(p := outs p @ [m])) q'"
proof -
  have "inv q" using history_inv[OF assms(1,2)] .
  then obtain p where "p < levels" "lv q p = m # lv q' p" "\<forall>r < levels. r \<noteq> p \<longrightarrow> lv q' r = lv q r"
    using get_law assms(3) by blast
  then show ?thesis using received[OF assms(1,3)] by blast
qed

end

section \<open>The non-blocking calls\<close>

definition send_nowait :: "u8 list \<Rightarrow> nat \<Rightarrow> msg_queue \<Rightarrow> msg_queue option" where
  "send_nowait m p q =
     (case msg_send_try 0 (Some m) (int p) MSG_NO_WAIT 0 0 0 (Some q) of
        Returned r q' _ _ \<Rightarrow> if r = IPC_OK then Some q' else None
      | _ \<Rightarrow> None)"

definition recv_nowait :: "msg_queue \<Rightarrow> (u8 list \<times> msg_queue) option" where
  "recv_nowait q =
     (case msg_recv_try 0 True MSG_NO_WAIT 0 0 0 (Some q) of
        Returned r q' _ m \<Rightarrow> if r = IPC_OK then Some (m, q') else None
      | _ \<Rightarrow> None)"

definition msg_fits :: "msg_queue \<Rightarrow> u8 list \<Rightarrow> bool" where
  "msg_fits q m \<longleftrightarrow> length m = msg_size q"

lemma clamp_id: "p < MSG_PRIO_COUNT \<Longrightarrow> clamp_priority (int p) = p"
  by (simp add: clamp_priority_def)

lemma wake_high_prio: "queue_inv q \<Longrightarrow> c \<le> MSG_STARVATION_THRESHOLD \<Longrightarrow> queue_inv (q\<lparr>high_prio_recv_count := c\<rparr>)"
  by (auto simp: queue_inv_def level_ok_def)

lemma level_high_prio [simp]: "level (q\<lparr>high_prio_recv_count := c\<rparr>) = level q"
  by (simp add: level_def ring_msg_def slot_offset_def fun_eq_iff)

lemma send_nowait_ok:
  assumes "queue_inv q" "p < MSG_PRIO_COUNT" "msg_fits q m"
  shows "send_nowait m p q = (if pb_count (prio q p) < capacity q then Some (fst (enqueue q p m)) else None)"
  using assms by (simp add: send_nowait_def msg_send_try_def clamp_id split: prod.splits)

text \<open>One receive from a non-empty queue: the whole effect.\<close>

lemma recv_try_ok:
  assumes inv: "queue_inv q" and some: "0 < total_count q"
  obtains p m q' w where "msg_recv_try cur True tmo st ticks now (Some q) = Returned IPC_OK q' w m"
    "queue_inv q'" "p < MSG_PRIO_COUNT" "level q p = m # level q' p"
    "\<forall>r < MSG_PRIO_COUNT. r \<noteq> p \<longrightarrow> level q' r = level q r"
    "\<forall>r < MSG_PRIO_COUNT. level q r \<noteq> [] \<longrightarrow> (if starving q then p \<le> r else r \<le> p)"
    "high_prio_recv_count q' = (if starving q \<or> p = 0 then 0 else Suc (high_prio_recv_count q))"
    "total_count q = Suc (total_count q')" "wake_one (send_waiters q) = (w, send_waiters q')"
    "recv_waiters q' = recv_waiters q" "capacity q' = capacity q" "msg_size q' = msg_size q"
proof -
  obtain p c where s: "select_recv_priority q = (Some p, q\<lparr>high_prio_recv_count := c\<rparr>)" "p < 4"
      "0 < pb_count (prio q p)" "c \<le> 8" "\<forall>r < 4. 0 < pb_count (prio q r) \<longrightarrow> (if starving q then p \<le> r else r \<le> p)"
      "c = (if starving q \<or> p = 0 then 0 else Suc (high_prio_recv_count q))"
    using select_spec[OF inv some] .
  let ?q = "q\<lparr>high_prio_recv_count := c\<rparr>"
  obtain m q' w where d: "dequeue ?q p = (m, q', w)" by (cases "dequeue ?q p") auto
  have inv': "queue_inv ?q" by (rule wake_high_prio[OF inv s(4)])
  have cnt: "0 < pb_count (prio ?q p)" using s(3) by simp
  note dl = dequeue_level[OF inv' s(2) cnt d] and fr = dequeue_frame[OF d]
  have ne: "level q r \<noteq> [] \<longleftrightarrow> 0 < pb_count (prio q r)" for r
    using length_level[of q r] by (metis length_greater_0_conv)
  show thesis
  proof (rule that[of q' w m p])
    show "msg_recv_try cur True tmo st ticks now (Some q) = Returned IPC_OK q' w m"
      using some s(1) d by (simp add: msg_recv_try_def)
    show "\<forall>r < 4. level q r \<noteq> [] \<longrightarrow> (if starving q then p \<le> r else r \<le> p)" using s(5) ne by simp
  qed (use dl fr s in auto)
qed

lemma recv_nowait_ok:
  assumes inv: "queue_inv q" and r: "recv_nowait q = Some (m, q')"
  shows "queue_inv q' \<and> msg_fits q' = msg_fits q \<and> (\<exists>p < MSG_PRIO_COUNT. level q p = m # level q' p \<and>
    (\<forall>r < MSG_PRIO_COUNT. r \<noteq> p \<longrightarrow> level q' r = level q r))"
proof (cases "total_count q = 0")
  case True
  then show ?thesis using r by (simp add: recv_nowait_def msg_recv_try_def)
next
  case False
  then have some: "0 < total_count q" by simp
  obtain p m1 q1 w where "msg_recv_try 0 True MSG_NO_WAIT 0 0 0 (Some q) = Returned IPC_OK q1 w m1" "queue_inv q1"
      "p < 4" "level q p = m1 # level q1 p" "\<forall>r < 4. r \<noteq> p \<longrightarrow> level q1 r = level q r" "msg_size q1 = msg_size q"
    by (rule recv_try_ok[OF inv some, of 0 MSG_NO_WAIT 0 0 0])
  then show ?thesis using r by (auto simp: recv_nowait_def msg_fits_def fun_eq_iff)
qed

interpretation mb: priority_mailbox level queue_inv msg_fits send_nowait recv_nowait MSG_PRIO_COUNT
proof unfold_locales
  fix q p m q' assume a: "queue_inv q" "p < MSG_PRIO_COUNT" "msg_fits q m" "send_nowait m p q = Some q'"
  then have room: "pb_count (prio q p) < capacity q" and q': "q' = fst (enqueue q p m)"
    using send_nowait_ok[OF a(1-3)] by (auto split: if_splits)
  obtain w where e: "enqueue q p m = (q', w)" using q' by (cases "enqueue q p m") auto
  note el = enqueue_level[OF a(1,2) room _ e] and fr = enqueue_frame[OF e]
  show "queue_inv q' \<and> msg_fits q' = msg_fits q \<and>
      (\<forall>r < MSG_PRIO_COUNT. level q' r = (if r = p then level q p @ [m] else level q r))"
    using el a(3) fr by (auto simp: msg_fits_def fun_eq_iff)
next
  fix q m q' assume "queue_inv q" "recv_nowait q = Some (m, q')"
  then show "queue_inv q' \<and> msg_fits q' = msg_fits q \<and> (\<exists>p < MSG_PRIO_COUNT. level q p = m # level q' p \<and>
      (\<forall>r < MSG_PRIO_COUNT. r \<noteq> p \<longrightarrow> level q' r = level q r))" by (rule recv_nowait_ok)
qed

end
