(* ===== verification/IpcSystem.thy ===== *)
theory IpcSystem
  imports IpcMailbox
begin

text \<open>
  Blocking send and receive as a system of tasks over one queue.  A task has at most one call in
  progress (\<open>ops\<close>); a step starts a call or runs one attempt of a call whose task is not on a wait
  list.  A woken task stays in its call and tries again, as \<open>block_on_queue\<close> returns into the wait
  loop.

  Receivers never miss a message: as long as a receiver waits and messages are queued, some
  receiver is about to run.  Senders have no such guarantee: \<open>wake_one\<close> takes the last blocked
  sender whatever its priority level, so a sender whose level has room can stay blocked.
\<close>

datatype op =
  SendOp "u8 list" int int nat nat
| RecvOp int nat nat

record ipc_sys =
  sq :: msg_queue
  ops :: "nat \<Rightarrow> op option"

definition waiting :: "msg_queue \<Rightarrow> nat set" where
  "waiting q = set (send_waiters q) \<union> set (recv_waiters q)"

text \<open>One attempt of the call \<open>c\<close> of task \<open>t\<close> at time \<open>now\<close>.\<close>

definition attempt_of :: "nat \<Rightarrow> op \<Rightarrow> nat \<Rightarrow> msg_queue \<Rightarrow> attempt" where
  "attempt_of t c now q =
     (case c of
        SendOp m priority tmo st ticks \<Rightarrow> msg_send_try t (Some m) priority tmo st ticks now (Some q)
      | RecvOp tmo st ticks \<Rightarrow> msg_recv_try t True tmo st ticks now (Some q))"

inductive sys_step :: "ipc_sys \<Rightarrow> ipc_sys \<Rightarrow> bool" where
  call: "ops s t = None \<Longrightarrow> (\<And>m pr tmo st ticks. c = SendOp m pr tmo st ticks \<Longrightarrow> length m = msg_size (sq s)) \<Longrightarrow>
    sys_step s (s\<lparr>ops := (ops s)(t := Some c)\<rparr>)"
| finish: "ops s t = Some c \<Longrightarrow> t \<notin> waiting (sq s) \<Longrightarrow> attempt_of t c now (sq s) = Returned r q' w m \<Longrightarrow>
    sys_step s (s\<lparr>sq := q', ops := (ops s)(t := None)\<rparr>)"
| block: "ops s t = Some c \<Longrightarrow> t \<notin> waiting (sq s) \<Longrightarrow> attempt_of t c now (sq s) = Blocked q' \<Longrightarrow>
    sys_step s (s\<lparr>sq := q'\<rparr>)"
| yield: "ops s t = Some c \<Longrightarrow> t \<notin> waiting (sq s) \<Longrightarrow> attempt_of t c now (sq s) = Yielded \<Longrightarrow> sys_step s s"

definition is_recv :: "op option \<Rightarrow> bool" where
  "is_recv c \<longleftrightarrow> (case c of Some (RecvOp _ _ _) \<Rightarrow> True | _ \<Rightarrow> False)"

definition ready_receivers :: "ipc_sys \<Rightarrow> nat set" where
  "ready_receivers s = {t. is_recv (ops s t) \<and> t \<notin> set (recv_waiters (sq s))}"

definition sys_inv :: "ipc_sys \<Rightarrow> bool" where
  "sys_inv s \<longleftrightarrow> queue_inv (sq s) \<and> finite {t. ops s t \<noteq> None} \<and>
     (\<forall>t m pr tmo st ticks. ops s t = Some (SendOp m pr tmo st ticks) \<longrightarrow> length m = msg_size (sq s)) \<and>
     distinct (recv_waiters (sq s)) \<and> (\<forall>t \<in> set (recv_waiters (sq s)). is_recv (ops s t)) \<and>
     distinct (send_waiters (sq s)) \<and>
     (\<forall>t \<in> set (send_waiters (sq s)). ops s t \<noteq> None \<and> \<not> is_recv (ops s t)) \<and>
     (recv_waiters (sq s) \<noteq> [] \<longrightarrow> total_count (sq s) \<le> card (ready_receivers s))"

lemma is_recv_simps [simp]: "\<not> is_recv None" "is_recv (Some (RecvOp a b c))" "\<not> is_recv (Some (SendOp m d e f g))"
  by (simp_all add: is_recv_def)

section \<open>What one attempt does to the queue\<close>

lemma send_cases:
  assumes "queue_inv q" "length m = msg_size q"
  obtains (sent) q' w where "msg_send_try t (Some m) pr tmo st ticks now (Some q) = Returned IPC_OK q' w []"
      "queue_inv q'" "total_count q' = Suc (total_count q)" "send_waiters q' = send_waiters q"
      "wake_one (recv_waiters q) = (w, recv_waiters q')" "msg_size q' = msg_size q"
  | (refused) r where "msg_send_try t (Some m) pr tmo st ticks now (Some q) = Returned r q None []"
  | (blocked) "msg_send_try t (Some m) pr tmo st ticks now (Some q) = Blocked (q\<lparr>send_waiters := t # send_waiters q\<rparr>)"
  | (yielded) "msg_send_try t (Some m) pr tmo st ticks now (Some q) = Yielded"
proof -
  let ?p = "clamp_priority pr"
  show thesis
  proof (cases "pb_count (prio q ?p) < capacity q")
    case True
    obtain q' w where e: "enqueue q ?p m = (q', w)" by (cases "enqueue q ?p m")
    have "msg_send_try t (Some m) pr tmo st ticks now (Some q) = Returned IPC_OK q' w []"
      using True e by (simp add: msg_send_try_def Let_def)
    then show thesis
      using sent enqueue_level[OF assms(1) clamp_less True assms(2) e] enqueue_frame[OF e] by blast
  next
    case False
    consider "tmo = 0" | "tmo > 0" "timeout_expired now st ticks" | "tmo < 0" | "tmo > 0" "\<not> timeout_expired now st ticks"
      by linarith
    then show thesis
      by cases (use False refused blocked yielded in \<open>simp_all add: msg_send_try_def Let_def block_on_queue_def\<close>)
  qed
qed

lemma recv_cases:
  assumes "queue_inv q"
  obtains (received) q' w m where "msg_recv_try t True tmo st ticks now (Some q) = Returned IPC_OK q' w m"
      "queue_inv q'" "total_count q = Suc (total_count q')" "recv_waiters q' = recv_waiters q"
      "wake_one (send_waiters q) = (w, send_waiters q')" "msg_size q' = msg_size q"
  | (empty) r where "msg_recv_try t True tmo st ticks now (Some q) = Returned r q None []" "total_count q = 0"
  | (blocked) "msg_recv_try t True tmo st ticks now (Some q) = Blocked (q\<lparr>recv_waiters := t # recv_waiters q\<rparr>)"
      "total_count q = 0"
  | (yielded) "msg_recv_try t True tmo st ticks now (Some q) = Yielded"
proof -
  show thesis
  proof (cases "total_count q = 0")
    case True
    consider "tmo = 0" | "tmo > 0" "timeout_expired now st ticks" | "tmo < 0" | "tmo > 0" "\<not> timeout_expired now st ticks"
      by linarith
    then show thesis
      by cases (use True empty blocked yielded in \<open>simp_all add: msg_recv_try_def block_on_queue_def\<close>)
  next
    case False
    then have "0 < total_count q" by simp
    then show thesis using recv_try_ok[OF assms, of t tmo st ticks now] received by metis
  qed
qed

section \<open>The invariant\<close>

lemma wake_one_Cons: "wake_one ws = (w, ws') \<Longrightarrow> (ws = [] \<and> ws' = [] \<and> w = None) \<or> (\<exists>t. ws = t # ws' \<and> w = Some t)"
  by (cases ws) (auto simp: wake_one_def)

lemma ready_finite: "finite {t. ops s t \<noteq> None} \<Longrightarrow> finite (ready_receivers s)"
  by (rule finite_subset[of _ "{t. ops s t \<noteq> None}"]) (auto simp: ready_receivers_def is_recv_def split: option.splits)

lemma sys_inv_send:
  assumes inv: "sys_inv s" and t: "ops s t = Some (SendOp m pr tmo st ticks)" "t \<notin> waiting (sq s)"
  shows "attempt_of t (SendOp m pr tmo st ticks) now (sq s) = Returned r q' w x \<Longrightarrow>
      sys_inv (s\<lparr>sq := q', ops := (ops s)(t := None)\<rparr>)"
    and "attempt_of t (SendOp m pr tmo st ticks) now (sq s) = Blocked q' \<Longrightarrow> sys_inv (s\<lparr>sq := q'\<rparr>)"
proof -
  have q: "queue_inv (sq s)" "length m = msg_size (sq s)" using inv t unfolding sys_inv_def by blast+
  have nr: "\<not> is_recv (ops s t)" using t by (simp add: is_recv_def)
  have fin: "finite {u. ops s u \<noteq> None}" using inv by (simp add: sys_inv_def)
  have fin': "finite {u. ((ops s)(t := None)) u \<noteq> None}" by (rule finite_subset[OF _ fin]) auto
  have rt: "t \<notin> set (recv_waiters (sq s))" "t \<notin> set (send_waiters (sq s))" using t by (auto simp: waiting_def)
  have rcv: "is_recv (((ops s)(t := None)) u) = is_recv (ops s u)" for u using nr by (simp add: is_recv_def)
  show "sys_inv (s\<lparr>sq := q', ops := (ops s)(t := None)\<rparr>)"
    if a: "attempt_of t (SendOp m pr tmo st ticks) now (sq s) = Returned r q' w x"
    using q
  proof (cases rule: send_cases[where t = t and pr = pr and tmo = tmo and st = st and ticks = ticks and now = now])
    case (sent q1 w1)
    then have q1: "q' = q1" using a by (simp add: attempt_of_def)
    let ?s = "s\<lparr>sq := q', ops := (ops s)(t := None)\<rparr>"
    have cnt: "total_count q' \<le> card (ready_receivers ?s)" if ne: "recv_waiters q' \<noteq> []"
    proof -
      obtain u where u: "recv_waiters (sq s) = u # recv_waiters q'"
        using wake_one_Cons[OF sent(5)] ne q1 by auto
      then have "is_recv (ops s u)" "u \<notin> ready_receivers s" "u \<notin> set (recv_waiters q')"
        using inv by (auto simp: sys_inv_def ready_receivers_def)
      then have "ready_receivers ?s = insert u (ready_receivers s)"
        using u rcv by (auto simp: ready_receivers_def)
      then have "card (ready_receivers ?s) = Suc (card (ready_receivers s))"
        using ready_finite[OF fin] \<open>u \<notin> ready_receivers s\<close> by simp
      then show ?thesis using inv u sent(3) q1 by (simp add: sys_inv_def)
    qed
    have "set (recv_waiters q') \<subseteq> set (recv_waiters (sq s))" "distinct (recv_waiters q')"
      using wake_one_Cons[OF sent(5)] q1 inv by (auto simp: sys_inv_def)
    then show ?thesis
      using inv sent q1 cnt rcv rt fin' unfolding sys_inv_def by auto
  next
    case (refused r1)
    then have "q' = sq s" using a by (simp add: attempt_of_def)
    moreover have "ready_receivers (s\<lparr>ops := (ops s)(t := None)\<rparr>) = ready_receivers s"
      using nr by (auto simp: ready_receivers_def)
    ultimately show ?thesis using inv rcv rt fin' unfolding sys_inv_def by auto
  qed (use a in \<open>simp_all add: attempt_of_def\<close>)
  show "sys_inv (s\<lparr>sq := q'\<rparr>)" if a: "attempt_of t (SendOp m pr tmo st ticks) now (sq s) = Blocked q'"
  proof -
    have "q' = (sq s)\<lparr>send_waiters := t # send_waiters (sq s)\<rparr>"
      using a by (cases rule: send_cases[OF q, where t = t and pr = pr and tmo = tmo and st = st and ticks = ticks and now = now])
        (auto simp: attempt_of_def)
    then show ?thesis using inv t nr rt unfolding sys_inv_def ready_receivers_def queue_inv_def level_ok_def by auto
  qed
qed

lemma sys_inv_recv:
  assumes inv: "sys_inv s" and t: "ops s t = Some (RecvOp tmo st ticks)" "t \<notin> waiting (sq s)"
  shows "attempt_of t (RecvOp tmo st ticks) now (sq s) = Returned r q' w x \<Longrightarrow>
      sys_inv (s\<lparr>sq := q', ops := (ops s)(t := None)\<rparr>)"
    and "attempt_of t (RecvOp tmo st ticks) now (sq s) = Blocked q' \<Longrightarrow> sys_inv (s\<lparr>sq := q'\<rparr>)"
proof -
  have q: "queue_inv (sq s)" using inv by (auto simp: sys_inv_def)
  have yr: "is_recv (ops s t)" using t by (simp add: is_recv_def)
  have fin: "finite {u. ops s u \<noteq> None}" using inv by (simp add: sys_inv_def)
  have fin': "finite {u. ((ops s)(t := None)) u \<noteq> None}" by (rule finite_subset[OF _ fin]) auto
  have rt: "t \<notin> set (recv_waiters (sq s))" "t \<notin> set (send_waiters (sq s))" using t by (auto simp: waiting_def)
  have rcv: "is_recv (((ops s)(t := None)) u) = (u \<noteq> t \<and> is_recv (ops s u))" for u by (simp add: is_recv_def)
  have tr: "t \<in> ready_receivers s" using yr rt by (simp add: ready_receivers_def)
  show "sys_inv (s\<lparr>sq := q', ops := (ops s)(t := None)\<rparr>)"
    if a: "attempt_of t (RecvOp tmo st ticks) now (sq s) = Returned r q' w x"
    using q
  proof (cases rule: recv_cases[where t = t and tmo = tmo and st = st and ticks = ticks and now = now])
    case (received q1 w1 m)
    then have q1: "q' = q1" using a by (simp add: attempt_of_def)
    let ?s = "s\<lparr>sq := q', ops := (ops s)(t := None)\<rparr>"
    have "ready_receivers ?s = ready_receivers s - {t}"
      using received(4) q1 by (auto simp: ready_receivers_def rcv)
    then have "card (ready_receivers ?s) = card (ready_receivers s) - 1" using tr ready_finite[OF fin] by simp
    then have cnt: "total_count q' \<le> card (ready_receivers ?s)" if "recv_waiters q' \<noteq> []"
      using inv that received(3,4) q1 unfolding sys_inv_def by auto
    have "set (send_waiters q') \<subseteq> set (send_waiters (sq s))" "distinct (send_waiters q')"
      using wake_one_Cons[OF received(5)] q1 inv by (auto simp: sys_inv_def)
    then show ?thesis using inv received q1 cnt rcv rt fin' unfolding sys_inv_def by auto
  next
    case (empty r1)
    then have "q' = sq s" using a by (simp add: attempt_of_def)
    then show ?thesis using inv rcv rt fin' empty(2) unfolding sys_inv_def by auto
  qed (use a in \<open>simp_all add: attempt_of_def\<close>)
  show "sys_inv (s\<lparr>sq := q'\<rparr>)" if a: "attempt_of t (RecvOp tmo st ticks) now (sq s) = Blocked q'"
    using q
  proof (cases rule: recv_cases[where t = t and tmo = tmo and st = st and ticks = ticks and now = now])
    case blocked
    then have "q' = (sq s)\<lparr>recv_waiters := t # recv_waiters (sq s)\<rparr>" using a by (simp add: attempt_of_def)
    then show ?thesis
      using inv t yr rt blocked(2) unfolding sys_inv_def queue_inv_def level_ok_def by auto
  qed (use a in \<open>simp_all add: attempt_of_def\<close>)
qed

lemma sys_inv_step:
  assumes "sys_step s s'" "sys_inv s"
  shows "sys_inv s'"
  using assms(1)
proof cases
  case (call t c)
  have "\<not> is_recv (ops s t)" using call by (simp add: is_recv_def)
  then have nw: "t \<notin> set (recv_waiters (sq s))" "t \<notin> set (send_waiters (sq s))"
    using assms(2) call by (auto simp: sys_inv_def)
  have "{u. ((ops s)(t := Some c)) u \<noteq> None} \<subseteq> insert t {u. ops s u \<noteq> None}" by auto
  moreover have "finite (insert t {u. ops s u \<noteq> None})" using assms(2) by (simp add: sys_inv_def)
  ultimately have fin: "finite {u. ((ops s)(t := Some c)) u \<noteq> None}" by (rule finite_subset)
  have fin0: "finite {u. ops s' u \<noteq> None}" using fin call by simp
  have "ready_receivers s \<subseteq> ready_receivers s'"
    using \<open>\<not> is_recv (ops s t)\<close> call by (auto simp: ready_receivers_def)
  then have "card (ready_receivers s) \<le> card (ready_receivers s')" by (rule card_mono[OF ready_finite[OF fin0]])
  then show ?thesis using assms(2) call nw fin unfolding sys_inv_def by (auto simp: is_recv_def)
next
  case (finish t c now r q' w m)
  then show ?thesis using sys_inv_send(1)[OF assms(2)] sys_inv_recv(1)[OF assms(2)] by (cases c) blast+
next
  case (block t c now q')
  then show ?thesis using sys_inv_send(2)[OF assms(2)] sys_inv_recv(2)[OF assms(2)] by (cases c) blast+
next
  case (yield t c now)
  then show ?thesis using assms(2) by simp
qed

lemma sys_reachable:
  assumes "sys_step\<^sup>*\<^sup>* s0 s" "sys_inv s0"
  shows "sys_inv s"
  using assms by (induction rule: rtranclp_induct) (auto intro: sys_inv_step)

end
