(* ===== verification/IpcProps.thy ===== *)
theory IpcProps
  imports IpcSystem
begin

text \<open>
  The properties of message queues: refinement to four bounded FIFO lists, the order in which
  levels are served, and what blocked callers may expect.
\<close>

section \<open>A small queue for the witnesses\<close>

definition small :: msg_queue where
  "small = init_queue 1 1"

lemma small_inv: "queue_inv small"
  unfolding small_def by (rule init_queue_inv) simp_all

lemma small_fields [simp]: "capacity small = 1" "msg_size small = 1" "pb_count (prio small p) = 0" "total_count small = 0"
  by (simp_all add: small_def init_queue_def)

lemma small_count [simp]: "high_prio_recv_count small = 0"
  by (simp add: small_def init_queue_def)

lemma small_level [simp]: "level small p = []"
  by (simp add: level_def)

lemma recv_nowait_some: "recv_nowait q = Some x \<Longrightarrow> 0 < total_count q"
  by (cases "total_count q = 0") (simp_all add: recv_nowait_def msg_recv_try_def)

section \<open>First in, first out, per level\<close>



text \<open>C12: a send at any priority (clamped to 0..3).  When the level is full, a call with timeout 0
  fails with \<open>IPC_ERR_FULL\<close> and changes nothing; when it has room the call returns \<open>IPC_OK\<close> whatever
  the timeout, the message is appended to exactly this level, and the invariant is kept.\<close>

theorem msg_send_effect:
  assumes "queue_inv q" "length m = msg_size q" "p = clamp_priority priority"
  shows "if length (level q p) < capacity q
    then \<exists>q' w. msg_send_try t (Some m) priority tmo st ticks now (Some q) = Returned IPC_OK q' w [] \<and> queue_inv q' \<and>
      level q' p = level q p @ [m] \<and> (\<forall>r < MSG_PRIO_COUNT. r \<noteq> p \<longrightarrow> level q' r = level q r)
    else msg_send_try t (Some m) priority MSG_NO_WAIT st ticks now (Some q) = Returned IPC_ERR_FULL q None []"
proof (cases "pb_count (prio q p) < capacity q")
  case True
  obtain q' w where e: "enqueue q p m = (q', w)" by (cases "enqueue q p m")
  have p: "p < MSG_PRIO_COUNT" using assms(3) by simp
  show ?thesis using True e enqueue_level[OF assms(1) p True assms(2) e]
    by (auto simp: msg_send_try_def Let_def assms(3))
qed (simp add: msg_send_try_def Let_def assms(3))

theorem msg_send_effect_witness:
  "\<exists>q' w. msg_send_try 5 (Some [9]) 77 (-1) 0 0 0 (Some small) = Returned IPC_OK q' w [] \<and> level q' 3 = [[9]]"
proof -
  have c: "(3::nat) = clamp_priority 77" by (simp add: clamp_priority_def)
  have l: "length ([9] :: u8 list) = msg_size small" by simp
  have "length (level small 3) < capacity small" by simp
  with msg_send_effect[OF small_inv l c, where t = 5 and tmo = "-1" and st = 0 and ticks = 0 and now = 0]
  show ?thesis by auto
qed

section \<open>Service order\<close>

text \<open>C13: a receive from a non-empty queue returns the oldest message of one level.  The level is the
  highest non-empty one, except after eight receives in a row from above the lowest level, when it
  is the lowest non-empty one.\<close>

theorem msg_recv_order:
  assumes "queue_inv q" "0 < total_count q"
  shows "\<exists>p q' w m. msg_recv_try t True tmo st ticks now (Some q) = Returned IPC_OK q' w m \<and> queue_inv q' \<and>
    p < MSG_PRIO_COUNT \<and> level q p = m # level q' p \<and> (\<forall>r < MSG_PRIO_COUNT. r \<noteq> p \<longrightarrow> level q' r = level q r) \<and>
    (\<forall>r < MSG_PRIO_COUNT. level q r \<noteq> [] \<longrightarrow>
      (if high_prio_recv_count q < MSG_STARVATION_THRESHOLD then r \<le> p else p \<le> r))"
proof -
  have s: "starving q \<longleftrightarrow> \<not> high_prio_recv_count q < MSG_STARVATION_THRESHOLD" by (auto simp: starving_def)
  obtain p m q' w where "msg_recv_try t True tmo st ticks now (Some q) = Returned IPC_OK q' w m"
    "queue_inv q'" "p < MSG_PRIO_COUNT" "level q p = m # level q' p"
    "\<forall>r < MSG_PRIO_COUNT. r \<noteq> p \<longrightarrow> level q' r = level q r"
    "\<forall>r < MSG_PRIO_COUNT. level q r \<noteq> [] \<longrightarrow> (if starving q then p \<le> r else r \<le> p)"
    by (rule recv_try_ok[OF assms])
  then show ?thesis unfolding s by (intro exI[of _ p] exI[of _ q'] exI[of _ w] exI[of _ m]) simp
qed

text \<open>The small queue holding one urgent message.\<close>

definition small_one :: msg_queue where
  "small_one = fst (enqueue small 3 [9])"

lemma small_one_props: "queue_inv small_one" "total_count small_one = 1"
proof -
  obtain q w where e: "enqueue small 3 [9] = (q, w)" by (cases "enqueue small 3 [9]")
  have "pb_count (prio small 3) < capacity small" "length [9::u8] = msg_size small" by simp_all
  from enqueue_level[OF small_inv _ this e] show "queue_inv small_one" "total_count small_one = 1"
    by (simp_all add: small_one_def e)
qed

theorem msg_recv_order_witness:
  "\<exists>p q' w m. msg_recv_try 1 True 0 0 0 0 (Some small_one) = Returned IPC_OK q' w m \<and> level small_one p = m # level q' p"
  using msg_recv_order[OF small_one_props(1), of 1 0 0 0 0] small_one_props(2) by auto

text \<open>The small queue with a message at the lowest and one at the highest level.\<close>

definition small_two :: msg_queue where
  "small_two = fst (enqueue small_one 0 [1])"

lemma small_one_level: "level small_one p = (if p = 3 then [[9]] else [])" if "p < MSG_PRIO_COUNT" for p
proof -
  obtain q w where e: "enqueue small 3 [9] = (q, w)" by (cases "enqueue small 3 [9]")
  from enqueue_level[OF small_inv _ _ _ e] that show ?thesis by (auto simp: small_one_def e)
qed

lemma small_two_props: "queue_inv small_two" "level small_two 0 = [[1]]" "level small_two 3 = [[9]]"
proof -
  obtain q w where e: "enqueue small_one 0 [1] = (q, w)" by (cases "enqueue small_one 0 [1]")
  obtain q1 w1 where e1: "enqueue small 3 [9] = (q1, w1)" by (cases "enqueue small 3 [9]")
  have c: "capacity small_one = 1" "msg_size small_one = 1" using enqueue_frame[OF e1] by (simp_all add: small_one_def e1)
  have "pb_count (prio small_one 0) = 0" using small_one_level[of 0] length_level[of small_one 0] by simp
  with enqueue_level[OF small_one_props(1) _ _ _ e] c
  show "queue_inv small_two" "level small_two 0 = [[1]]" "level small_two 3 = [[9]]"
    by (simp_all add: small_two_def e small_one_level)
qed

lemma small_two_some: "0 < total_count small_two"
proof -
  have "0 < length (level small_two 0)" by (simp add: small_two_props)
  moreover have "pb_count (prio small_two 0) \<le> total_count small_two"
    using small_two_props(1) unfolding queue_inv_def by (metis (lifting) finite_lessThan lessThan_iff member_le_sum zero_le zero_less_numeral)
  ultimately show ?thesis by simp
qed

lemma small_two_count: "high_prio_recv_count small_two = 0"
proof -
  obtain q w where e: "enqueue small_one 0 [1] = (q, w)" by (cases "enqueue small_one 0 [1]")
  obtain q1 w1 where e1: "enqueue small 3 [9] = (q1, w1)" by (cases "enqueue small 3 [9]")
  show ?thesis using enqueue_frame(5)[OF e] enqueue_frame(5)[OF e1]
    by (simp add: small_two_def small_one_def[symmetric] e) (simp add: small_one_def e1)
qed

text \<open>The number of receives that pass over a non-empty lowest level, with any sends in between.\<close>

inductive passes_low :: "msg_queue \<Rightarrow> nat \<Rightarrow> msg_queue \<Rightarrow> bool" for q0 where
  start: "passes_low q0 0 q0"
| send: "passes_low q0 n q \<Longrightarrow> p < MSG_PRIO_COUNT \<Longrightarrow> msg_fits q m \<Longrightarrow> send_nowait m p q = Some q' \<Longrightarrow> passes_low q0 n q'"
| pass: "passes_low q0 n q \<Longrightarrow> level q 0 \<noteq> [] \<Longrightarrow> recv_nowait q = Some (m, q') \<Longrightarrow> level q' 0 = level q 0 \<Longrightarrow>
    passes_low q0 (Suc n) q'"

lemma passes_low_count:
  assumes "passes_low q0 n q" "queue_inv q0"
  shows "queue_inv q \<and> high_prio_recv_count q = high_prio_recv_count q0 + n"
  using assms
proof (induction rule: passes_low.induct)
  case (send n q p m q')
  have q: "queue_inv q" using send by blast
  obtain w where e: "enqueue q p m = (q', w)"
    using send_nowait_ok[OF q send.hyps(2,3)] send.hyps(4) by (cases "enqueue q p m") (auto split: if_splits)
  show ?case using mb.put_law[OF q send.hyps(2-4)] enqueue_frame[OF e] send by simp
next
  case (pass n q m q')
  have q: "queue_inv q" and some: "0 < total_count q"
    using pass recv_nowait_some by blast+
  obtain p m1 q1 w where r: "msg_recv_try 0 True MSG_NO_WAIT 0 0 0 (Some q) = Returned IPC_OK q1 w m1" "queue_inv q1"
      "level q p = m1 # level q1 p" "\<forall>r < MSG_PRIO_COUNT. level q r \<noteq> [] \<longrightarrow> (if starving q then p \<le> r else r \<le> p)"
      "high_prio_recv_count q1 = (if starving q \<or> p = 0 then 0 else Suc (high_prio_recv_count q))"
    by (rule recv_try_ok[OF q some, of 0 MSG_NO_WAIT 0 0 0])
  have q1: "q1 = q'" using pass.hyps(3) r(1) by (simp add: recv_nowait_def)
  have "p \<noteq> 0"
  proof
    assume "p = 0"
    then have "level q 0 = m1 # level q 0" using r(3) pass.hyps(4) q1 by simp
    then show False by simp
  qed
  moreover have "0 < MSG_PRIO_COUNT" by simp
  ultimately have "\<not> starving q" using r(4) pass.hyps(2) by (metis gr_zeroI not_le)
  then show ?case using r(2,5) q1 \<open>p \<noteq> 0\<close> pass by simp
qed simp

text \<open>C14: the lowest level does not starve.  However many urgent messages arrive, at most eight receives
  in a row pass over a non-empty lowest level.\<close>

theorem msg_recv_low_bound:
  assumes "passes_low q0 n q" "queue_inv q0"
  shows "n \<le> MSG_STARVATION_THRESHOLD"
  using passes_low_count[OF assms] by (simp add: queue_inv_def)

theorem msg_recv_low_bound_witness:
  "\<exists>q. passes_low small_two 1 q \<and> (1::nat) \<le> MSG_STARVATION_THRESHOLD"
proof -
  obtain p m q' w where r: "msg_recv_try 0 True MSG_NO_WAIT 0 0 0 (Some small_two) = Returned IPC_OK q' w m"
      "p < MSG_PRIO_COUNT" "\<forall>r < MSG_PRIO_COUNT. r \<noteq> p \<longrightarrow> level q' r = level small_two r"
      "\<forall>r < MSG_PRIO_COUNT. level small_two r \<noteq> [] \<longrightarrow> (if starving small_two then p \<le> r else r \<le> p)"
    by (rule recv_try_ok[OF small_two_props(1) small_two_some, of 0 MSG_NO_WAIT 0 0 0])
  have "\<not> starving small_two" by (simp add: starving_def small_two_count)
  then have "3 \<le> p" using r(4) by (simp add: small_two_props all_less_4)
  then have "level q' 0 = level small_two 0" using r(3) by simp
  then have "passes_low small_two (Suc 0) q'"
    using r(1) by (intro passes_low.pass[OF passes_low.start]) (simp_all add: recv_nowait_def small_two_props)
  from msg_recv_low_bound[OF this small_two_props(1)] this show ?thesis by auto
qed

text \<open>C15: the middle levels do starve.  As long as the lowest and the highest level hold a message, a
  receive leaves levels 1 and 2 untouched, so a producer that keeps both busy blocks them for ever.\<close>

theorem msg_recv_middle_starves:
  assumes "queue_inv q" "level q 0 \<noteq> []" "level q 3 \<noteq> []" "recv_nowait q = Some (m, q')"
  shows "level q' 1 = level q 1 \<and> level q' 2 = level q 2"
proof -
  have some: "0 < total_count q" by (rule recv_nowait_some[OF assms(4)])
  obtain p m1 q1 w where r: "msg_recv_try 0 True MSG_NO_WAIT 0 0 0 (Some q) = Returned IPC_OK q1 w m1" "p < MSG_PRIO_COUNT"
      "\<forall>r < MSG_PRIO_COUNT. r \<noteq> p \<longrightarrow> level q1 r = level q r"
      "\<forall>r < MSG_PRIO_COUNT. level q r \<noteq> [] \<longrightarrow> (if starving q then p \<le> r else r \<le> p)"
    by (rule recv_try_ok[OF assms(1) some, of 0 MSG_NO_WAIT 0 0 0])
  have "q1 = q'" using assms(4) r(1) by (simp add: recv_nowait_def)
  moreover have "p = 0 \<or> p = 3" using r(2) r(4) assms(2,3) unfolding all_less_4 by (auto split: if_splits)
  ultimately show ?thesis using r(3) unfolding all_less_4 by auto
qed

theorem msg_recv_middle_starves_witness:
  "\<exists>m q'. recv_nowait small_two = Some (m, q') \<and> level q' 1 = level small_two 1"
proof -
  obtain q' w m where "msg_recv_try 0 True MSG_NO_WAIT 0 0 0 (Some small_two) = Returned IPC_OK q' w m"
    by (rule recv_try_ok[OF small_two_props(1) small_two_some, of 0 MSG_NO_WAIT 0 0 0])
  then have "recv_nowait small_two = Some (m, q')" by (simp add: recv_nowait_def)
  with msg_recv_middle_starves[OF small_two_props(1), of m q'] show ?thesis by (auto simp: small_two_props)
qed

section \<open>Blocked callers\<close>

text \<open>C16: receivers miss no wake-up.  In every reachable state of the system of tasks in which a receiver
  is blocked and a message is queued, some receiver is not blocked, and its next attempt takes a
  message and returns.\<close>

theorem blocked_receivers_live:
  assumes "sys_step\<^sup>*\<^sup>* s0 s" "sys_inv s0" "recv_waiters (sq s) \<noteq> []" "0 < total_count (sq s)"
  shows "\<exists>t c. ops s t = Some c \<and> t \<notin> waiting (sq s) \<and>
    (\<forall>now. \<exists>q' w m. attempt_of t c now (sq s) = Returned IPC_OK q' w m \<and> total_count (sq s) = Suc (total_count q'))"
proof -
  have inv: "sys_inv s" by (rule sys_reachable[OF assms(1,2)])
  then have "0 < card (ready_receivers s)" using assms(3,4) by (auto simp: sys_inv_def)
  then obtain t where t: "is_recv (ops s t)" "t \<notin> set (recv_waiters (sq s))"
    by (auto simp: ready_receivers_def card_gt_0_iff)
  then have "t \<notin> set (send_waiters (sq s))" using inv by (auto simp: sys_inv_def)
  then have w: "t \<notin> waiting (sq s)" using t by (simp add: waiting_def)
  from t obtain tmo st ticks where c: "ops s t = Some (RecvOp tmo st ticks)"
    by (auto simp: is_recv_def split: option.splits op.splits)
  have q: "queue_inv (sq s)" using inv by (simp add: sys_inv_def)
  have "\<exists>q' w m. attempt_of t (RecvOp tmo st ticks) now (sq s) = Returned IPC_OK q' w m \<and>
      total_count (sq s) = Suc (total_count q')" for now
    using recv_try_ok[OF q assms(4), of t tmo st ticks now] unfolding attempt_of_def op.case by metis
  then show ?thesis using c w by blast
qed

text \<open>Two receivers block on the small queue, then a send wakes one of them.\<close>

definition two_waiting :: ipc_sys where
  "two_waiting = \<lparr>sq = small\<lparr>recv_waiters := [2, 1]\<rparr>,
     ops = [1 \<mapsto> RecvOp (-1) 0 0, 2 \<mapsto> RecvOp (-1) 0 0, 3 \<mapsto> SendOp [5] 1 (-1) 0 0]\<rparr>"

lemma two_waiting_inv: "sys_inv two_waiting"
proof -
  have "queue_inv (small\<lparr>recv_waiters := [2, 1]\<rparr>)" using small_inv by (auto simp: queue_inv_def level_ok_def)
  moreover have "{t. ops two_waiting t \<noteq> None} \<subseteq> {1, 2, 3}" by (auto simp: two_waiting_def split: if_splits)
  then have "finite {t. ops two_waiting t \<noteq> None}" by (rule finite_subset) simp
  moreover have "send_waiters small = []" by (simp add: small_def init_queue_def)
  ultimately show ?thesis by (auto simp: sys_inv_def two_waiting_def split: if_splits)
qed

theorem blocked_receivers_live_witness:
  "\<exists>s. sys_step\<^sup>*\<^sup>* two_waiting s \<and> recv_waiters (sq s) = [1] \<and> (\<exists>t c. ops s t = Some c \<and> t \<notin> waiting (sq s))"
proof -
  let ?q = "small\<lparr>recv_waiters := [2, 1]\<rparr>"
  obtain q' w where e: "enqueue ?q 1 [5] = (q', w)" by (cases "enqueue ?q 1 [5]")
  have qi: "queue_inv ?q" using small_inv by (auto simp: queue_inv_def level_ok_def)
  have "attempt_of 3 (SendOp [5] 1 (-1) 0 0) 0 ?q = Returned IPC_OK q' w []"
    using e by (simp add: attempt_of_def msg_send_try_def clamp_priority_def)
  moreover have "3 \<notin> waiting ?q" by (simp add: waiting_def small_def init_queue_def)
  ultimately have "sys_step two_waiting (two_waiting\<lparr>sq := q', ops := (ops two_waiting)(3 := None)\<rparr>)" (is "sys_step _ ?s")
    by (intro sys_step.finish[where c = "SendOp [5] 1 (-1) 0 0" and now = 0 and r = IPC_OK and w = w and m = "[]"])
      (simp_all add: two_waiting_def)
  then have st: "sys_step\<^sup>*\<^sup>* two_waiting ?s" by simp
  have w1: "recv_waiters (sq ?s) = [1]" using enqueue_frame(8)[OF e] by (simp add: wake_one_def)
  have "total_count q' = 1" using enqueue_level(4)[OF qi _ _ _ e] by simp
  then have "0 < total_count (sq ?s)" by simp
  from blocked_receivers_live[OF st two_waiting_inv _ this] w1
  have "\<exists>t c. ops ?s t = Some c \<and> t \<notin> waiting (sq ?s)" by (metis list.distinct(1))
  then show ?thesis using st w1 by blast
qed

text \<open>Five callers of the small queue: two senders at the lowest level, two at the next, one receiver.\<close>

definition five_calls :: "nat \<Rightarrow> op option" where
  "five_calls = [1 \<mapsto> SendOp [1] 0 (-1) 0 0, 2 \<mapsto> SendOp [2] 1 (-1) 0 0, 3 \<mapsto> SendOp [3] 1 (-1) 0 0,
     4 \<mapsto> SendOp [4] 0 (-1) 0 0, 5 \<mapsto> RecvOp (-1) 0 0]"

lemma send_full:
  "pb_count (prio q p) = capacity q \<Longrightarrow> clamp_priority pr = p \<Longrightarrow>
    attempt_of t (SendOp m pr (-1) 0 0) 0 q = Blocked (q\<lparr>send_waiters := t # send_waiters q\<rparr>)"
  by (simp add: attempt_of_def msg_send_try_def block_on_queue_def)

lemma send_room:
  "pb_count (prio q p) < capacity q \<Longrightarrow> clamp_priority pr = p \<Longrightarrow> enqueue q p m = (q', w) \<Longrightarrow>
    attempt_of t (SendOp m pr (-1) 0 0) 0 q = Returned IPC_OK q' w []"
  by (simp add: attempt_of_def msg_send_try_def)

lemma queue_inv_waiters [simp]: "queue_inv (q\<lparr>send_waiters := ws\<rparr>) = queue_inv q"
  and level_waiters [simp]: "level (q\<lparr>send_waiters := ws\<rparr>) p = level q p"
  by (simp_all add: queue_inv_def level_ok_def level_def ring_msg_def slot_offset_def)

text \<open>The small queue with one message at each of the two lowest levels.\<close>

lemma two_full:
  obtains q where "queue_inv q" "level q 0 = [[1]]" "level q 1 = [[2]]" "send_waiters q = []" "recv_waiters q = []"
    "capacity q = 1" "high_prio_recv_count q = 0" "level q 2 = []" "level q 3 = []"
    "sys_step\<^sup>*\<^sup>* \<lparr>sq = small, ops = five_calls\<rparr> \<lparr>sq = q, ops = five_calls(1 := None, 2 := None)\<rparr>"
proof -
  have w: "send_waiters small = []" "recv_waiters small = []" "high_prio_recv_count small = 0"
    by (simp_all add: small_def init_queue_def)
  obtain q1 w1 where e1: "enqueue small 0 [1] = (q1, w1)" by (cases "enqueue small 0 [1]")
  note l1 = enqueue_level[OF small_inv _ _ _ e1, simplified]
  note f1 = enqueue_frame[OF e1, unfolded w wake_one_def, simplified]
  have c1: "pb_count (prio q1 1) < capacity q1" using l1(3)[of 1] length_level[of q1 1] f1 by simp
  obtain q2 w2 where e2: "enqueue q1 1 [2] = (q2, w2)" by (cases "enqueue q1 1 [2]")
  note l2 = enqueue_level[OF l1(1) _ c1 _ e2, simplified]
  note f2 = enqueue_frame[OF e2, unfolded f1 wake_one_def, simplified]
  have "sys_step \<lparr>sq = small, ops = five_calls\<rparr> \<lparr>sq = q1, ops = five_calls(1 := None)\<rparr>"
    using sys_step.finish[of "\<lparr>sq = small, ops = five_calls\<rparr>" 1 "SendOp [1] 0 (-1) 0 0" 0] send_room[OF _ _ e1, of 0 1] w
    by (simp add: five_calls_def waiting_def clamp_priority_def)
  moreover have "sys_step \<lparr>sq = q1, ops = five_calls(1 := None)\<rparr> \<lparr>sq = q2, ops = five_calls(1 := None, 2 := None)\<rparr>"
    using sys_step.finish[of "\<lparr>sq = q1, ops = five_calls(1 := None)\<rparr>" 2 "SendOp [2] 1 (-1) 0 0" 0]
      send_room[OF c1 _ e2, of 1 2] f1 w
    by (simp add: five_calls_def waiting_def clamp_priority_def)
  ultimately have "sys_step\<^sup>*\<^sup>* \<lparr>sq = small, ops = five_calls\<rparr> \<lparr>sq = q2, ops = five_calls(1 := None, 2 := None)\<rparr>" by simp
  then show thesis using l1 l2 f1 f2 w by (intro that[of q2]) simp_all
qed

text \<open>C17: senders can miss a wake-up.  From the small queue with five callers the system reaches a state
  in which every caller is blocked for ever, although the level that one of them sends to is empty:
  \<open>wake_one\<close> woke the other sender, whose level is still full and which blocked again.\<close>

theorem blocked_sender_stuck:
  "\<exists>s. sys_step\<^sup>*\<^sup>* \<lparr>sq = small, ops = five_calls\<rparr> s \<and> {t. ops s t \<noteq> None} \<subseteq> waiting (sq s) \<and>
    ops s 3 = Some (SendOp [3] 1 (-1) 0 0) \<and> level (sq s) 1 = [] \<and> 0 < capacity (sq s)"
proof -
  obtain q where q: "queue_inv q" "level q 0 = [[1]]" "level q 1 = [[2]]" "send_waiters q = []" "recv_waiters q = []"
    "capacity q = 1" "high_prio_recv_count q = 0" "level q 2 = []" "level q 3 = []"
    "sys_step\<^sup>*\<^sup>* \<lparr>sq = small, ops = five_calls\<rparr> \<lparr>sq = q, ops = five_calls(1 := None, 2 := None)\<rparr>"
    by (rule two_full)
  have c: "pb_count (prio q 0) = 1" "pb_count (prio q 1) = 1" using q(2,3) length_level[of q] by (metis length_Cons list.size(3) One_nat_def)+
  let ?o = "five_calls(1 := None, 2 := None)" and ?q4 = "q\<lparr>send_waiters := [4, 3]\<rparr>"
  have b3: "sys_step \<lparr>sq = q, ops = ?o\<rparr> \<lparr>sq = q\<lparr>send_waiters := [3]\<rparr>, ops = ?o\<rparr>"
    using sys_step.block[of "\<lparr>sq = q, ops = ?o\<rparr>" 3 "SendOp [3] 1 (-1) 0 0" 0] send_full[of q 1 1 3 "[3]"] q(4-6) c
    by (simp add: five_calls_def waiting_def clamp_priority_def)
  have b4: "sys_step \<lparr>sq = q\<lparr>send_waiters := [3]\<rparr>, ops = ?o\<rparr> \<lparr>sq = ?q4, ops = ?o\<rparr>"
    using sys_step.block[of "\<lparr>sq = q\<lparr>send_waiters := [3]\<rparr>, ops = ?o\<rparr>" 4 "SendOp [4] 0 (-1) 0 0" 0]
      send_full[of "q\<lparr>send_waiters := [3]\<rparr>" 0 0 4 "[4]"] q(4-6) c
    by (simp add: five_calls_def waiting_def clamp_priority_def)
  have inv: "queue_inv ?q4" using q(1) by simp
  have "pb_count (prio q 0) \<le> total_count q" using q(1) c unfolding queue_inv_def by (metis (lifting) finite_lessThan lessThan_iff member_le_sum zero_le zero_less_numeral)
  then have some: "0 < total_count ?q4" using c by simp
  obtain p m q5 w where r: "msg_recv_try 5 True (-1) 0 0 0 (Some ?q4) = Returned IPC_OK q5 w m"
    "queue_inv q5" "p < 4" "level ?q4 p = m # level q5 p" "\<forall>r < 4. r \<noteq> p \<longrightarrow> level q5 r = level ?q4 r"
    "\<forall>r < 4. level ?q4 r \<noteq> [] \<longrightarrow> (if starving ?q4 then p \<le> r else r \<le> p)"
    "wake_one (send_waiters ?q4) = (w, send_waiters q5)" "recv_waiters q5 = recv_waiters ?q4" "capacity q5 = capacity ?q4"
    by (rule recv_try_ok[OF inv some, of 5 "-1" 0 0 0])
  have "\<not> starving ?q4" using q(7) by (simp add: starving_def)
  then have "1 \<le> p" using r(6) q(3) by (metis level_waiters list.distinct(1) one_less_numeral_iff semiring_norm(76))
  moreover have "p \<noteq> 2" "p \<noteq> 3" using r(4) q(8,9) by auto
  ultimately have p: "p = 1" using r(3) by linarith
  have q5: "level q5 1 = []" "level q5 0 = [[1]]" "send_waiters q5 = [3]" "recv_waiters q5 = []"
    using r(4,5,7,8) p q(2,3,5) by (auto simp: wake_one_def)
  have c5: "pb_count (prio q5 0) = capacity q5" using q5(2) length_level[of q5 0] r(9) q(6) by simp
  have r5: "sys_step \<lparr>sq = ?q4, ops = ?o\<rparr> \<lparr>sq = q5, ops = ?o(5 := None)\<rparr>"
    using sys_step.finish[of "\<lparr>sq = ?q4, ops = ?o\<rparr>" 5 "RecvOp (-1) 0 0" 0] r(1) q(5)
    by (simp add: five_calls_def waiting_def attempt_of_def)
  have b: "sys_step \<lparr>sq = q5, ops = ?o(5 := None)\<rparr> \<lparr>sq = q5\<lparr>send_waiters := [4, 3]\<rparr>, ops = ?o(5 := None)\<rparr>"
    using sys_step.block[of "\<lparr>sq = q5, ops = ?o(5 := None)\<rparr>" 4 "SendOp [4] 0 (-1) 0 0" 0] send_full[OF c5, of 0 4 "[4]"] q5
    by (simp add: five_calls_def waiting_def clamp_priority_def)
  have "sys_step\<^sup>*\<^sup>* \<lparr>sq = small, ops = five_calls\<rparr> \<lparr>sq = q5\<lparr>send_waiters := [4, 3]\<rparr>, ops = ?o(5 := None)\<rparr>"
    using q(10) b3 b4 r5 b by (meson rtranclp.rtrancl_into_rtrancl)
  then show ?thesis using q5 r(9) q(6)
    by (intro exI[of _ "\<lparr>sq = q5\<lparr>send_waiters := [4, 3]\<rparr>, ops = ?o(5 := None)\<rparr>"]) (auto simp: waiting_def five_calls_def)
qed

end
