(* ===== verification/IpcTable.thy ===== *)
theory IpcTable
  imports PmmApi IpcQueue
begin

text \<open>
  The global IPC state (\<open>kernel/ipc/ipc.c\<close>): the tables of message queues and shared buffers, their
  identifiers, and the creation, mapping and destruction of both on top of the page allocator.

  A pointer is an address and \<open>NULL\<close> is 0.  Descriptors live in pages of the physical memory
  manager; their contents are the maps \<open>queue_at\<close> and \<open>buffer_at\<close> from addresses.  The list of
  mappings of a buffer is a list of nodes, each with the address of its page.  The GPU memory
  allocator is a parameter: \<open>gpu_ops\<close> with a state of its own.

  A result is an option; \<open>None\<close> is a call of the page allocator that does not return.
\<close>

section \<open>State\<close>

abbreviation (input) MSG_SIZE_DEFAULT :: nat where "MSG_SIZE_DEFAULT \<equiv> 64"
abbreviation (input) MSG_QUEUE_MAX :: nat where "MSG_QUEUE_MAX \<equiv> 32"
abbreviation (input) SHM_BUFFER_MAX :: nat where "SHM_BUFFER_MAX \<equiv> 64"
abbreviation (input) BLOCK_SIZE :: nat where "BLOCK_SIZE \<equiv> 2097152"

abbreviation (input) SHM_READ :: u32 where "SHM_READ \<equiv> 1"
abbreviation (input) SHM_WRITE :: u32 where "SHM_WRITE \<equiv> 2"
abbreviation (input) SHM_GPU_ACCESSIBLE :: u32 where "SHM_GPU_ACCESSIBLE \<equiv> 4"

text \<open>A queue descriptor page: the queue and the address of its buffer.\<close>

record queue_desc =
  qd_queue :: msg_queue
  qd_buffer :: nat

record shm_mapping =
  m_page :: nat
  m_task :: nat
  m_virt :: nat
  m_perms :: u32

record shared_buffer =
  sb_id :: nat
  phys_base :: nat
  sb_size :: nat
  sb_flags :: u32
  refcount :: nat
  sb_owner :: nat
  mappings :: "shm_mapping list"
  gpu_backed :: bool

record 'g gpu_ops =
  gpu_available :: "'g \<Rightarrow> bool"
  gpu_alloc :: "nat \<Rightarrow> bool \<Rightarrow> 'g \<Rightarrow> nat option \<times> 'g"
  gpu_free :: "nat \<Rightarrow> nat \<Rightarrow> 'g \<Rightarrow> 'g"
  gpu_sync_for_gpu :: "nat \<Rightarrow> nat \<Rightarrow> 'g \<Rightarrow> 'g"

record 'g ipc_state =
  queues :: "nat list"
  buffers :: "nat list"
  next_queue_id :: nat
  next_buffer_id :: nat
  queue_at :: "nat \<Rightarrow> queue_desc"
  buffer_at :: "nat \<Rightarrow> shared_buffer"
  pmm :: buddy_state
  gpu :: 'g

definition ipc_init :: "'g ipc_state \<Rightarrow> 'g ipc_state" where
  "ipc_init st = st\<lparr>next_queue_id := 1, next_buffer_id := 1,
     queues := replicate MSG_QUEUE_MAX 0, buffers := replicate SHM_BUFFER_MAX 0\<rparr>"

text \<open>The table scans: the index of the first entry that satisfies the test.\<close>

fun first_slot :: "(nat \<Rightarrow> bool) \<Rightarrow> nat list \<Rightarrow> nat option" where
  "first_slot P [] = None"
| "first_slot P (x # xs) = (if P x then Some 0 else map_option Suc (first_slot P xs))"

definition clear_entry :: "nat \<Rightarrow> nat list \<Rightarrow> nat list" where
  "clear_entry ptr table = (case first_slot (\<lambda>x. x = ptr) table of None \<Rightarrow> table | Some i \<Rightarrow> table[i := 0])"

section \<open>Message queues\<close>

definition pages_of :: "nat \<Rightarrow> nat" where
  "pages_of nbytes = u64_sub (u64_add nbytes PAGE_SIZE) 1 div PAGE_SIZE"

definition msg_queue_create :: "nat \<Rightarrow> nat \<Rightarrow> 'g ipc_state \<Rightarrow> (nat \<times> 'g ipc_state) option" where
  "msg_queue_create cap sz0 st =
     (if cap = 0 \<or> cap > MSG_QUEUE_MAX_CAPACITY then Some (0, st)
      else
        let sz = (if sz0 = 0 then MSG_SIZE_DEFAULT else sz0);
            total = u64_mul cap MSG_PRIO_COUNT
        in if sz > UINTPTR_MAX div total then Some (0, st)
           else do {
             let pages = pages_of (u64_mul total sz);
             (queue, m1) \<leftarrow> pmm_alloc_page (pmm st);
             if queue = 0 then Some (0, st\<lparr>pmm := m1\<rparr>)
             else do {
               (buf, m2) \<leftarrow> pmm_alloc_pages pages m1;
               if buf = 0 then do {
                 m3 \<leftarrow> pmm_free_page queue m2;
                 Some (0, st\<lparr>pmm := m3\<rparr>)
               }
               else (case first_slot (\<lambda>x. x = 0) (queues st) of
                 Some i \<Rightarrow>
                   (let q = (init_queue cap sz)\<lparr>mq_id := next_queue_id st\<rparr>
                    in Some (queue, st\<lparr>pmm := m2, queues := (queues st)[i := queue],
                         next_queue_id := u32_add (next_queue_id st) 1,
                         queue_at := (queue_at st)(queue := \<lparr>qd_queue = q, qd_buffer = buf\<rparr>)\<rparr>))
               | None \<Rightarrow> do {
                   m3 \<leftarrow> pmm_free_pages buf pages m2;
                   m4 \<leftarrow> pmm_free_page queue m3;
                   Some (0, st\<lparr>pmm := m4\<rparr>)
                 })
             }
           })"

definition msg_queue_destroy :: "nat \<Rightarrow> 'g ipc_state \<Rightarrow> (int \<times> 'g ipc_state) option" where
  "msg_queue_destroy queue st =
     (if queue = 0 then Some (IPC_ERR_INVALID, st)
      else
        let d = queue_at st queue; q = qd_queue d
        in if send_waiters q \<noteq> [] \<or> recv_waiters q \<noteq> [] then Some (IPC_ERR_BUSY, st)
           else do {
             let pages = pages_of (u64_mul (total_capacity q) (msg_size q));
             m1 \<leftarrow> pmm_free_pages (qd_buffer d) pages (pmm st);
             m2 \<leftarrow> pmm_free_page queue m1;
             Some (IPC_OK, st\<lparr>queues := clear_entry queue (queues st), pmm := m2\<rparr>)
           })"

definition msg_queue_lookup :: "nat \<Rightarrow> 'g ipc_state \<Rightarrow> nat" where
  "msg_queue_lookup i st =
     (case first_slot (\<lambda>x. x \<noteq> 0 \<and> mq_id (qd_queue (queue_at st x)) = i) (queues st) of
        None \<Rightarrow> 0 | Some k \<Rightarrow> queues st ! k)"

record ipc_stats =
  queue_count :: nat
  buffer_count :: nat
  total_msgs_sent :: nat
  total_msgs_recv :: nat

definition ipc_get_stats :: "'g ipc_state \<Rightarrow> ipc_stats" where
  "ipc_get_stats st =
     (let qs = map (\<lambda>x. qd_queue (queue_at st x)) (filter (\<lambda>x. x \<noteq> 0) (queues st))
      in \<lparr>queue_count = length qs, buffer_count = length (filter (\<lambda>x. x \<noteq> 0) (buffers st)),
          total_msgs_sent = fold (\<lambda>q a. u64_add a (msgs_sent q)) qs 0,
          total_msgs_recv = fold (\<lambda>q a. u64_add a (msgs_recv q)) qs 0\<rparr>)"

section \<open>Shared buffers\<close>

text \<open>Rounding up to 2 MB: the mask clears the low 21 bits.\<close>

definition round_block :: "nat \<Rightarrow> nat" where
  "round_block sz = (let x = u64_sub (u64_add sz BLOCK_SIZE) 1 in x - x mod BLOCK_SIZE)"

text \<open>The GPU allocation is tried when the caller asks for it; a failure falls back to the page allocator.\<close>

definition gpu_try :: "'g gpu_ops \<Rightarrow> u32 \<Rightarrow> nat \<Rightarrow> 'g \<Rightarrow> nat \<times> bool \<times> 'g" where
  "gpu_try ops flags sz g =
     (if flags AND SHM_GPU_ACCESSIBLE \<noteq> 0 \<and> gpu_available ops g
      then (case gpu_alloc ops sz (sz \<ge> BLOCK_SIZE) g of
              (Some a, g') \<Rightarrow> (a, True, g')
            | (None, g') \<Rightarrow> (0, False, g'))
      else (0, False, g))"

definition shared_buffer_create ::
  "'g gpu_ops \<Rightarrow> nat \<Rightarrow> nat \<Rightarrow> u32 \<Rightarrow> 'g ipc_state \<Rightarrow> (nat \<times> 'g ipc_state) option" where
  "shared_buffer_create ops current sz0 flags st =
     (if sz0 = 0 then Some (0, st)
      else do {
        let sz = round_block sz0;
        let pages = sz div PAGE_SIZE;
        (buf, m1) \<leftarrow> pmm_alloc_page (pmm st);
        if buf = 0 then Some (0, st\<lparr>pmm := m1\<rparr>)
        else do {
          let (phys0, backed, g1) = gpu_try ops flags sz (gpu st);
          (phys, m2) \<leftarrow> (if phys0 = 0 then pmm_alloc_pages pages m1 else Some (phys0, m1));
          if phys = 0 then do {
            m3 \<leftarrow> pmm_free_page buf m2;
            Some (0, st\<lparr>pmm := m3, gpu := g1\<rparr>)
          }
          else (case first_slot (\<lambda>x. x = 0) (buffers st) of
            Some i \<Rightarrow>
              (let b = \<lparr>sb_id = next_buffer_id st, phys_base = phys, sb_size = sz, sb_flags = flags, refcount = 1,
                        sb_owner = current, mappings = [], gpu_backed = backed\<rparr>
               in Some (buf, st\<lparr>pmm := m2, gpu := g1, buffers := (buffers st)[i := buf],
                    next_buffer_id := u32_add (next_buffer_id st) 1,
                    buffer_at := (buffer_at st)(buf := b)\<rparr>))
          | None \<Rightarrow> do {
              m3 \<leftarrow> pmm_free_pages phys pages m2;
              m4 \<leftarrow> pmm_free_page buf m3;
              Some (0, st\<lparr>pmm := m4, gpu := g1\<rparr>)
            })
        }
      })"

text \<open>The permissions a mapping gets: those asked for that the buffer was created with.\<close>

definition limit_perms :: "u32 \<Rightarrow> u32 \<Rightarrow> u32" where
  "limit_perms flags perms =
     (let p1 = (if flags AND SHM_READ = 0 then perms AND NOT SHM_READ else perms)
      in if flags AND SHM_WRITE = 0 then p1 AND NOT SHM_WRITE else p1)"

definition alloc_mapping :: "buddy_state \<Rightarrow> (nat \<times> buddy_state) option" where
  "alloc_mapping = pmm_alloc_page"

definition free_mapping :: "nat \<Rightarrow> buddy_state \<Rightarrow> buddy_state option" where
  "free_mapping m s = (if m \<noteq> 0 then pmm_free_page m s else Some s)"

text \<open>\<open>task\<close> is \<open>None\<close> when the caller passes \<open>NULL\<close>, which means the current task.\<close>

definition shared_buffer_map ::
  "'g gpu_ops \<Rightarrow> nat \<Rightarrow> nat \<Rightarrow> nat option \<Rightarrow> u32 \<Rightarrow> 'g ipc_state \<Rightarrow> (nat \<times> 'g ipc_state) option" where
  "shared_buffer_map ops current bp task perms0 st =
     (if bp = 0 then Some (0, st)
      else
        let t = (case task of None \<Rightarrow> current | Some t \<Rightarrow> t);
            b = buffer_at st bp;
            perms = limit_perms (sb_flags b) perms0
        in if \<exists>m \<in> set (mappings b). m_task m = t then Some (0, st)
           else do {
             (m, m1) \<leftarrow> alloc_mapping (pmm st);
             if m = 0 then Some (0, st\<lparr>pmm := m1\<rparr>)
             else (let virt = phys_base b;
                       g = (if perms AND SHM_GPU_ACCESSIBLE \<noteq> 0 \<and> gpu_backed b
                            then gpu_sync_for_gpu ops (phys_base b) (sb_size b) (gpu st) else gpu st);
                       b' = b\<lparr>mappings := \<lparr>m_page = m, m_task = t, m_virt = virt, m_perms = perms\<rparr> # mappings b,
                              refcount := u32_add (refcount b) 1\<rparr>
                   in Some (virt, st\<lparr>pmm := m1, gpu := g, buffer_at := (buffer_at st)(bp := b')\<rparr>))
           })"

text \<open>The search of \<open>shared_buffer_unmap\<close> for the node of a task, and the list without it.\<close>

fun unlink_mapping :: "nat \<Rightarrow> shm_mapping list \<Rightarrow> (shm_mapping \<times> shm_mapping list) option" where
  "unlink_mapping t [] = None"
| "unlink_mapping t (m # ms) =
     (if m_task m = t then Some (m, ms) else map_option (\<lambda>(x, xs). (x, m # xs)) (unlink_mapping t ms))"

definition shared_buffer_unmap ::
  "nat \<Rightarrow> nat \<Rightarrow> nat option \<Rightarrow> 'g ipc_state \<Rightarrow> (int \<times> 'g ipc_state) option" where
  "shared_buffer_unmap current bp task st =
     (if bp = 0 then Some (IPC_ERR_INVALID, st)
      else
        let t = (case task of None \<Rightarrow> current | Some t \<Rightarrow> t); b = buffer_at st bp
        in (case unlink_mapping t (mappings b) of
              None \<Rightarrow> Some (IPC_ERR_INVALID, st)
            | Some (m, ms) \<Rightarrow> do {
                let b' = b\<lparr>mappings := ms, refcount := u32_sub (refcount b) 1\<rparr>;
                m1 \<leftarrow> free_mapping (m_page m) (pmm st);
                Some (IPC_OK, st\<lparr>pmm := m1, buffer_at := (buffer_at st)(bp := b')\<rparr>)
              }))"

definition shared_buffer_destroy ::
  "'g gpu_ops \<Rightarrow> nat \<Rightarrow> nat \<Rightarrow> 'g ipc_state \<Rightarrow> (int \<times> 'g ipc_state) option" where
  "shared_buffer_destroy ops current bp st =
     (if bp = 0 then Some (IPC_ERR_INVALID, st)
      else
        let b = buffer_at st bp
        in if sb_owner b \<noteq> current then Some (IPC_ERR_INVALID, st)
           else (case first_slot (\<lambda>x. x = bp) (buffers st) of
             None \<Rightarrow> Some (IPC_ERR_INVALID, st)
           | Some slot \<Rightarrow>
               if refcount b > 1 then Some (IPC_ERR_BUSY, st)
               else do {
                 let st1 = st\<lparr>buffers := (buffers st)[slot := 0]\<rparr>;
                 (m1, g1) \<leftarrow> (if gpu_backed b
                               then Some (pmm st, gpu_free ops (phys_base b) (sb_size b) (gpu st))
                               else do { m \<leftarrow> pmm_free_pages (phys_base b) (sb_size b div PAGE_SIZE) (pmm st); Some (m, gpu st) });
                 m2 \<leftarrow> pmm_free_page bp m1;
                 Some (IPC_OK, st1\<lparr>pmm := m2, gpu := g1\<rparr>)
               }))"

definition shared_buffer_lookup :: "nat \<Rightarrow> 'g ipc_state \<Rightarrow> nat" where
  "shared_buffer_lookup i st =
     (case first_slot (\<lambda>x. x \<noteq> 0 \<and> sb_id (buffer_at st x) = i) (buffers st) of
        None \<Rightarrow> 0 | Some k \<Rightarrow> buffers st ! k)"

definition shared_buffer_phys_addr :: "nat \<Rightarrow> 'g ipc_state \<Rightarrow> nat" where
  "shared_buffer_phys_addr bp st = (if bp = 0 then 0 else phys_base (buffer_at st bp))"

end
