(* ===== verification/IpcMemory.thy ===== *)
theory IpcMemory
  imports IpcTable IpcMailbox "HOL-Library.Multiset"
begin

text \<open>
  The IPC tables as a client of the page allocator.  The pages that the live queues, shared buffers
  and mappings stand for form a multiset of blocks (\<open>live_blocks\<close>).  Along every sequence of IPC
  calls this multiset is exactly what the allocator has handed out: nothing is used twice, nothing
  leaks, and no call gets stuck in the allocator.
\<close>

section \<open>Holding a multiset of blocks\<close>

text \<open>\<open>holds m0 s M\<close>: starting from the allocator state \<open>m0\<close>, the blocks \<open>M\<close> are out and the rest is free.\<close>

definition holds :: "buddy_state \<Rightarrow> buddy_state \<Rightarrow> (nat \<times> nat) multiset \<Rightarrow> bool" where
  "holds m0 s M \<longleftrightarrow> pmm_valid m0 \<and> (\<exists>L. mset L = M \<and> pm.client_inv m0 (s, L))"

lemma holds_init: "pmm_valid m0 \<Longrightarrow> holds m0 m0 {#}"
  unfolding holds_def using pm.client_inv_init by auto

lemma holds_valid: "holds m0 s M \<Longrightarrow> pmm_valid s"
  by (auto simp: holds_def pm.client_inv_def)

lemma holds_alloc:
  assumes "holds m0 s M" "pmm_alloc_pages n s = Some (a, s')" "a \<noteq> 0" "request_ok n"
  shows "holds m0 s' (add_mset (n, a) M)"
proof -
  obtain L where L: "mset L = M" "pm.client_inv m0 (s, L)" "pmm_valid m0" using assms(1) by (auto simp: holds_def)
  have "pm.client_inv m0 (s', (n, a) # L)"
    using pm.client_inv_step[OF pm.client_step.got[OF assms(4,2,3)] L(2,3)] .
  then show ?thesis using L by (auto simp: holds_def intro!: exI[of _ "(n, a) # L"])
qed

lemma holds_free:
  assumes "holds m0 s (add_mset (n, a) M)"
  shows "\<exists>s'. pmm_free_pages a n s = Some s' \<and> holds m0 s' M"
proof -
  obtain L where L: "mset L = add_mset (n, a) M" "pm.client_inv m0 (s, L)" "pmm_valid m0" using assms by (auto simp: holds_def)
  have mem: "(n, a) \<in> set L" using L(1) by (metis set_mset_mset union_single_eq_member)
  obtain s' where s': "pmm_free_pages a n s = Some s'" using pm.client_free[OF L(2,3) mem] by blast
  have "pm.client_inv m0 (s', remove1 (n, a) L)"
    using pm.client_inv_step[OF pm.client_step.put[OF mem s'] L(2,3)] .
  moreover have "mset (remove1 (n, a) L) = M" using L(1) by simp
  ultimately have "holds m0 s' M" unfolding holds_def using L(3) by blast
  then show ?thesis using s' by blast
qed

lemma holds_free_mem:
  "holds m0 s M \<Longrightarrow> free_mem s \<union> (\<Union>b \<in> set_mset M. pm.bytes b) = free_mem m0 \<and> (\<forall>b \<in># M. pm.bytes b \<inter> free_mem s = {})"
proof -
  assume "holds m0 s M"
  then obtain L where L: "mset L = M" "pm.client_inv m0 (s, L)" by (auto simp: holds_def)
  have "free_mem s \<union> (\<Union>b \<in> set L. pm.bytes b) = free_mem m0" "\<forall>b \<in> set L. pm.bytes b \<inter> free_mem s = {}"
    using L(2) by (simp_all add: pm.client_inv_def)
  then show ?thesis by (simp flip: L(1))
qed

lemma block_bytes_self: "a \<in> block_bytes n a"
  by (simp add: block_bytes_rng rng_self)

lemma holds_disjoint:
  assumes "holds m0 s (add_mset b (add_mset c M))"
  shows "pm.bytes b \<inter> pm.bytes c = {}"
proof -
  obtain L where L: "mset L = add_mset b (add_mset c M)" "pm.client_inv m0 (s, L)" using assms by (auto simp: holds_def)
  have sw: "sorted_wrt (\<lambda>b c. pm.bytes b \<inter> pm.bytes c = {}) L" using L(2) by (auto simp: pm.client_inv_def)
  have "b \<in> set L" "c \<in># mset (remove1 b L)" using L(1) by (metis set_mset_mset union_single_eq_member) (simp add: L(1))
  then have "c \<in> set (remove1 b L)" by (metis set_mset_mset)
  then show ?thesis using pm.remove1_parts(2)[OF \<open>b \<in> set L\<close> sw] by blast
qed

lemma holds_fresh:
  assumes "holds m0 s (add_mset (n, a) M)"
  shows "(k, a) \<notin># M"
proof
  assume "(k, a) \<in># M"
  then obtain M' where "M = add_mset (k, a) M'" by (metis mset_add)
  then show False using holds_disjoint[of m0 s "(n, a)" "(k, a)" M'] assms block_bytes_self[of a] by auto
qed

text \<open>Every request below \<open>2^63\<close> pages returns: with a block, or with nothing changed.\<close>

lemma alloc_total:
  assumes v: "pmm_valid s" and n: "n \<le> 2 ^ 63"
  obtains (none) "pmm_alloc_pages n s = Some (0, s)"
  | (got) a s' where "pmm_alloc_pages n s = Some (a, s')" "a \<noteq> 0" "request_ok n"
proof (cases "request_ok n")
  case True
  then show thesis using pmm_alloc_pages_cases[OF v True] got none by blast
next
  case False
  show thesis
  proof (cases "n = 0")
    case False
    obtain j where j: "log2_ceil n = Some j" "n \<le> 2 ^ j" using log2_ceil_returns[OF n] .
    have big: "order_to_pages MAX_ORDER < n" using \<open>\<not> request_ok n\<close> False by (simp add: request_ok_def)
    have "MAX_ORDER < j"
    proof (rule ccontr)
      assume "\<not> MAX_ORDER < j"
      then have "(2::nat) ^ j \<le> 2 ^ 19" by (intro power_increasing) auto
      then show False using j(2) big by (simp add: order_to_pages_def)
    qed
    then show thesis using j False none by (simp add: pmm_alloc_pages_def)
  qed (use none in \<open>simp add: pmm_alloc_pages_def\<close>)
qed

lemma request_ok_page: "request_ok 1"
  by (simp add: request_ok_def order_to_pages_def)

lemma free_page_holds:
  "holds m0 s (add_mset (Suc 0, a) M) \<Longrightarrow> \<exists>s'. pmm_free_page a s = Some s' \<and> holds m0 s' M"
  using holds_free[of m0 s 1 a M] by (simp add: pmm_free_page_def)

lemma alloc_page_cases:
  assumes "holds m0 s M"
  obtains (none) "pmm_alloc_page s = Some (0, s)"
  | (got) a s' where "pmm_alloc_page s = Some (a, s')" "a \<noteq> 0" "holds m0 s' (add_mset (Suc 0, a) M)"
proof -
  have one: "(1::nat) \<le> 2 ^ 63" by simp
  show thesis
  proof (cases rule: alloc_total[OF holds_valid[OF assms] one])
    case (2 a s')
    then show thesis using that(2)[of a s'] holds_alloc[OF assms 2] by (simp add: pmm_alloc_page_def)
  qed (use that in \<open>simp add: pmm_alloc_page_def\<close>)
qed

lemma alloc_pages_cases:
  assumes "holds m0 s M" "n \<le> 2 ^ 63"
  obtains (none) "pmm_alloc_pages n s = Some (0, s)"
  | (got) a s' where "pmm_alloc_pages n s = Some (a, s')" "a \<noteq> 0" "holds m0 s' (add_mset (n, a) M)"
  by (cases rule: alloc_total[OF holds_valid[OF assms(1)] assms(2)]) (use that holds_alloc[OF assms(1)] in blast)+

section \<open>Tables\<close>

definition table_blocks :: "(nat \<Rightarrow> 'b multiset) \<Rightarrow> nat list \<Rightarrow> 'b multiset" where
  "table_blocks f xs = sum_list (map (\<lambda>x. if x = 0 then {#} else f x) xs)"

lemma first_slot_Some: "first_slot P xs = Some i \<Longrightarrow> i < length xs \<and> P (xs ! i)"
  by (induction xs arbitrary: i) (auto split: if_splits)

lemma first_slot_None: "first_slot P xs = None \<longleftrightarrow> (\<forall>x \<in> set xs. \<not> P x)"
  by (induction xs) auto

lemma table_set:
  "i < length xs \<Longrightarrow> xs ! i = 0 \<Longrightarrow> v \<noteq> 0 \<Longrightarrow> table_blocks f (xs[i := v]) = f v + table_blocks f xs"
proof (induction xs arbitrary: i)
  case (Cons x xs)
  then show ?case by (cases i) (auto simp: table_blocks_def)
qed simp

lemma table_clear:
  "i < length xs \<Longrightarrow> xs ! i = v \<Longrightarrow> v \<noteq> 0 \<Longrightarrow> table_blocks f xs = f v + table_blocks f (xs[i := 0])"
  using table_set[of i "xs[i := 0]" v f] list_update_id[of xs i] by auto

lemma table_cong: "(\<And>x. x \<in> set xs \<Longrightarrow> x \<noteq> 0 \<Longrightarrow> f x = g x) \<Longrightarrow> table_blocks f xs = table_blocks g xs"
  by (auto simp: table_blocks_def intro!: arg_cong[where f = sum_list])

lemma table_member: "x \<in> set xs \<Longrightarrow> x \<noteq> 0 \<Longrightarrow> f x \<subseteq># table_blocks f xs"
  by (auto simp: in_set_conv_nth table_clear)

section \<open>Live blocks\<close>

definition queue_blocks :: "'g ipc_state \<Rightarrow> nat \<Rightarrow> (nat \<times> nat) multiset" where
  "queue_blocks st x =
     (let d = queue_at st x
      in {#(Suc 0, x), (pages_of (u64_mul (total_capacity (qd_queue d)) (msg_size (qd_queue d))), qd_buffer d)#})"

definition backing_blocks :: "shared_buffer \<Rightarrow> (nat \<times> nat) multiset" where
  "backing_blocks b = (if gpu_backed b then {#} else {#(sb_size b div PAGE_SIZE, phys_base b)#}) +
     image_mset (\<lambda>m. (Suc 0, m_page m)) (mset (mappings b))"

definition buffer_blocks :: "'g ipc_state \<Rightarrow> nat \<Rightarrow> (nat \<times> nat) multiset" where
  "buffer_blocks st x = add_mset (Suc 0, x) (backing_blocks (buffer_at st x))"

definition live_blocks :: "'g ipc_state \<Rightarrow> (nat \<times> nat) multiset" where
  "live_blocks st = table_blocks (queue_blocks st) (queues st) + table_blocks (buffer_blocks st) (buffers st)"

text \<open>Tasks are numbered below \<open>MAX_TASKS\<close>; a task maps a buffer at most once.\<close>

abbreviation (input) MAX_TASKS :: nat where "MAX_TASKS \<equiv> 64"

definition buffer_ok :: "shared_buffer \<Rightarrow> bool" where
  "buffer_ok b \<longleftrightarrow> distinct (map m_task (mappings b)) \<and> (\<forall>m \<in> set (mappings b). m_page m \<noteq> 0 \<and> m_task m < MAX_TASKS) \<and>
     refcount b = Suc (length (mappings b))"

lemma buffer_ok_length: "buffer_ok b \<Longrightarrow> length (mappings b) \<le> MAX_TASKS"
proof -
  assume b: "buffer_ok b"
  then have "set (map m_task (mappings b)) \<subseteq> {..< MAX_TASKS}" by (auto simp: buffer_ok_def)
  then have "card (set (map m_task (mappings b))) \<le> MAX_TASKS" using card_mono[of "{..< MAX_TASKS}"] by fastforce
  then show ?thesis using b distinct_card[of "map m_task (mappings b)"] by (simp add: buffer_ok_def)
qed

definition ipc_inv :: "buddy_state \<Rightarrow> 'g ipc_state \<Rightarrow> bool" where
  "ipc_inv m0 st \<longleftrightarrow> holds m0 (pmm st) (live_blocks st) \<and>
     (\<forall>x \<in> set (queues st). x \<noteq> 0 \<longrightarrow> queue_inv (qd_queue (queue_at st x))) \<and>
     (\<forall>x \<in> set (buffers st). x \<noteq> 0 \<longrightarrow> buffer_ok (buffer_at st x))"

lemma table_replicate: "table_blocks f (replicate n 0) = {#}"
  by (induction n) (auto simp: table_blocks_def)

lemma ipc_init_inv: "pmm_valid (pmm st) \<Longrightarrow> ipc_inv (pmm st) (ipc_init st)"
  by (auto simp: ipc_inv_def ipc_init_def live_blocks_def table_replicate intro: holds_init)

section \<open>Message queues\<close>

lemma holds_free_eq:
  assumes "holds m0 s M" "holds m0 s' M"
  shows "free_mem s' = free_mem s"
  using holds_free_mem[OF assms(1)] holds_free_mem[OF assms(2)] by blast

lemma pages_of_le: "pages_of n \<le> 2 ^ 63"
proof -
  have "u64_sub x y < U64_MOD" for x y by (simp add: u64_sub_def)
  then have "pages_of n \<le> U64_MOD div PAGE_SIZE" unfolding pages_of_def by (meson div_le_mono less_imp_le_nat)
  then show ?thesis by simp
qed

lemma queue_member: "x \<in> set (queues st) \<Longrightarrow> x \<noteq> 0 \<Longrightarrow> (Suc 0, x) \<in># live_blocks st"
  using mset_subset_eqD[OF table_member[of x "queues st" "queue_blocks st"], of "(Suc 0, x)"]
  by (simp add: live_blocks_def queue_blocks_def Let_def)

lemma buffer_member: "x \<in> set (buffers st) \<Longrightarrow> x \<noteq> 0 \<Longrightarrow> (Suc 0, x) \<in># live_blocks st"
  using mset_subset_eqD[OF table_member[of x "buffers st" "buffer_blocks st"], of "(Suc 0, x)"]
  by (simp add: live_blocks_def buffer_blocks_def)

text \<open>A new queue at a fresh address adds its two blocks.\<close>

lemma live_blocks_add_queue:
  assumes "first_slot (\<lambda>x. x = 0) (queues st) = Some i" "q \<noteq> 0" "q \<notin> set (queues st)"
  shows "live_blocks (st\<lparr>pmm := m, queues := (queues st)[i := q], next_queue_id := k, queue_at := (queue_at st)(q := d)\<rparr>) =
    {#(Suc 0, q), (pages_of (u64_mul (total_capacity (qd_queue d)) (msg_size (qd_queue d))), qd_buffer d)#} + live_blocks st"
proof -
  let ?st = "st\<lparr>pmm := m, queues := (queues st)[i := q], next_queue_id := k, queue_at := (queue_at st)(q := d)\<rparr>"
  have i: "i < length (queues st)" "queues st ! i = 0" using first_slot_Some[OF assms(1)] by auto
  have "table_blocks (queue_blocks ?st) (queues st) = table_blocks (queue_blocks st) (queues st)"
    using assms(3) by (intro table_cong) (auto simp: queue_blocks_def Let_def)
  moreover have "table_blocks (buffer_blocks ?st) (buffers st) = table_blocks (buffer_blocks st) (buffers st)"
    by (intro table_cong) (simp add: buffer_blocks_def)
  ultimately show ?thesis using table_set[OF i assms(2), of "queue_blocks ?st"] by (simp add: live_blocks_def queue_blocks_def)
qed

lemma live_blocks_pmm [simp]: "live_blocks (st\<lparr>pmm := m\<rparr>) = live_blocks st"
  by (simp add: live_blocks_def table_cong[of _ "queue_blocks (st\<lparr>pmm := m\<rparr>)" "queue_blocks st"]
      table_cong[of _ "buffer_blocks (st\<lparr>pmm := m\<rparr>)" "buffer_blocks st"] queue_blocks_def buffer_blocks_def)

lemma ipc_inv_pmm: "ipc_inv m0 st \<Longrightarrow> holds m0 m (live_blocks st) \<Longrightarrow> ipc_inv m0 (st\<lparr>pmm := m\<rparr>)"
  by (simp add: ipc_inv_def)

lemma queue_inv_id [simp]: "queue_inv (q\<lparr>mq_id := i\<rparr>) = queue_inv q"
  unfolding queue_inv_def level_ok_def by simp

lemma queue_size_ok:
  assumes "0 < cap" "cap \<le> MSG_QUEUE_MAX_CAPACITY" "\<not> UINTPTR_MAX div u64_mul cap MSG_PRIO_COUNT < sz" "0 < sz"
  shows "queue_inv (init_queue cap sz)" "total_capacity (init_queue cap sz) = u64_mul cap MSG_PRIO_COUNT"
proof -
  have e: "u64_mul cap 4 = cap * 4" using assms by (intro u64_mul_eq) simp
  have "sz * (cap * 4) \<le> UINTPTR_MAX" using assms(1,3) by (simp add: e not_less less_eq_div_iff_mult_less_eq)
  then have "cap * 4 * sz \<le> UINTPTR_MAX" by (simp only: mult.commute)
  then have "cap * 4 * sz < U64_MOD" by linarith
  then show "queue_inv (init_queue cap sz)" using assms by (intro init_queue_inv) auto
  show "total_capacity (init_queue cap sz) = u64_mul cap 4" by (simp add: init_queue_def)
qed

lemma msg_queue_create_ok:
  assumes inv: "ipc_inv m0 st"
  obtains (fail) m where "msg_queue_create cap sz st = Some (0, st\<lparr>pmm := m\<rparr>)" "ipc_inv m0 (st\<lparr>pmm := m\<rparr>)"
    "free_mem m = free_mem (pmm st)"
  | (ok) queue st' i buf m where "msg_queue_create cap sz st = Some (queue, st')" "queue \<noteq> 0" "ipc_inv m0 st'"
    "queue \<notin> set (queues st)" "first_slot (\<lambda>x. x = 0) (queues st) = Some i" "0 < cap" "cap \<le> MSG_QUEUE_MAX_CAPACITY"
    "st' = st\<lparr>pmm := m, queues := (queues st)[i := queue], next_queue_id := u32_add (next_queue_id st) 1,
       queue_at := (queue_at st)(queue := \<lparr>qd_queue = (init_queue cap (if sz = 0 then MSG_SIZE_DEFAULT else sz))
         \<lparr>mq_id := next_queue_id st\<rparr>, qd_buffer = buf\<rparr>)\<rparr>"
proof -
  define z where z: "z = (if sz = 0 then MSG_SIZE_DEFAULT else sz)"
  then have z0: "0 < z" by simp
  let ?tot = "u64_mul cap MSG_PRIO_COUNT" and ?M = "live_blocks st"
  let ?pages = "pages_of (u64_mul ?tot z)"
  have h: "holds m0 (pmm st) ?M" using inv by (simp add: ipc_inv_def)
  have failI: thesis if "msg_queue_create cap sz st = Some (0, st\<lparr>pmm := m\<rparr>)" "holds m0 m ?M" for m
    using fail[OF that(1) ipc_inv_pmm[OF inv that(2)] holds_free_eq[OF h that(2)]] .
  show thesis
  proof (cases "cap = 0 \<or> cap > MSG_QUEUE_MAX_CAPACITY \<or> z > UINTPTR_MAX div ?tot")
    case True
    then have "msg_queue_create cap sz st = Some (0, st\<lparr>pmm := pmm st\<rparr>)" by (auto simp: msg_queue_create_def Let_def simp flip: z)
    then show thesis using h by (rule failI)
  next
    case False
    then have c: "0 < cap" "cap \<le> MSG_QUEUE_MAX_CAPACITY" "\<not> UINTPTR_MAX div ?tot < z" by auto
    note defs = msg_queue_create_def Let_def z[symmetric]
    show thesis
    proof (cases rule: alloc_page_cases[OF h])
      case 1
      then have "msg_queue_create cap sz st = Some (0, st\<lparr>pmm := pmm st\<rparr>)" using c by (simp add: defs)
      then show thesis using h by (rule failI)
    next
      case (2 q m1)
      show thesis
      proof (cases rule: alloc_pages_cases[OF 2(3) pages_of_le[of "u64_mul ?tot z"]])
        case 1
        obtain m3 where "pmm_free_page q m1 = Some m3" "holds m0 m3 ?M" using free_page_holds[OF 2(3)] by blast
        then show thesis using c 2 1 by (intro failI[of m3]) (simp_all add: defs)
      next
        case b: (2 buf m2)
        show thesis
        proof (cases "first_slot (\<lambda>x. x = 0) (queues st)")
          case None
          obtain m3 where m3: "pmm_free_pages buf ?pages m2 = Some m3" "holds m0 m3 (add_mset (Suc 0, q) ?M)"
            using holds_free[OF b(3)] by blast
          obtain m4 where "pmm_free_page q m3 = Some m4" "holds m0 m4 ?M" using free_page_holds[OF m3(2)] by blast
          then show thesis using c 2 b None m3 by (intro failI[of m4]) (simp_all add: defs)
        next
          case (Some i)
          have fresh: "q \<notin> set (queues st)" using queue_member 2(2) holds_fresh[OF 2(3)] by blast
          let ?d = "\<lparr>qd_queue = (init_queue cap z)\<lparr>mq_id := next_queue_id st\<rparr>, qd_buffer = buf\<rparr>"
          let ?st = "st\<lparr>pmm := m2, queues := (queues st)[i := q], next_queue_id := u32_add (next_queue_id st) 1,
             queue_at := (queue_at st)(q := ?d)\<rparr>"
          have call: "msg_queue_create cap sz st = Some (q, ?st)" using c 2 b Some by (simp add: defs)
          have q: "queue_inv (init_queue cap z)" using queue_size_ok(1)[OF c z0] .
          then have qi: "queue_inv ((init_queue cap z)\<lparr>mq_id := next_queue_id st\<rparr>)"
            by simp
          have "live_blocks ?st = add_mset (?pages, buf) (add_mset (Suc 0, q) ?M)"
            using live_blocks_add_queue[OF Some 2(2) fresh, where m = m2 and d = ?d] queue_size_ok(2)[OF c z0]
            by (simp add: init_queue_def)
          then have "ipc_inv m0 ?st"
            using inv b(3) qi fresh unfolding ipc_inv_def by (auto dest!: set_update_subset_insert[THEN subsetD])
          then show thesis using call 2(2) fresh Some c by (intro ok[of q ?st i buf m2]) (simp_all flip: z)
        qed
      qed
    qed
  qed
qed

lemma queue_entry:
  assumes "ipc_inv m0 st" "x \<in> set (queues st)" "x \<noteq> 0"
  obtains i where "first_slot (\<lambda>y. y = x) (queues st) = Some i" "x \<notin> set ((queues st)[i := 0])"
    "live_blocks st = queue_blocks st x + live_blocks (st\<lparr>queues := (queues st)[i := 0]\<rparr>)"
proof -
  obtain i where s: "first_slot (\<lambda>y. y = x) (queues st) = Some i"
    using assms(2) first_slot_None[of "\<lambda>y. y = x" "queues st"] by (cases "first_slot (\<lambda>y. y = x) (queues st)") auto
  then have i: "i < length (queues st)" "queues st ! i = x" using first_slot_Some by auto
  let ?st = "st\<lparr>queues := (queues st)[i := 0]\<rparr>"
  have "table_blocks (queue_blocks ?st) = table_blocks (queue_blocks st)"
    "table_blocks (buffer_blocks ?st) = table_blocks (buffer_blocks st)"
    by (auto simp: fun_eq_iff queue_blocks_def buffer_blocks_def intro!: table_cong)
  then have l: "live_blocks st = queue_blocks st x + live_blocks ?st"
    using table_clear[OF i assms(3), of "queue_blocks st"] by (simp add: live_blocks_def ac_simps)
  have "holds m0 (pmm st) (live_blocks st)" using assms(1) by (simp add: ipc_inv_def)
  then have "(Suc 0, x) \<notin># live_blocks ?st"
    using holds_fresh[of m0 "pmm st" "Suc 0" x "live_blocks st - {#(Suc 0, x)#}" "Suc 0"]
    by (simp add: l queue_blocks_def Let_def)
  then have "x \<notin> set (queues ?st)" using queue_member[of x ?st] assms(3) by auto
  then show thesis using that[OF s _ l] by simp
qed

lemma msg_queue_destroy_ok:
  assumes inv: "ipc_inv m0 st" and x: "x \<in> set (queues st)" "x \<noteq> 0"
    and idle: "send_waiters (qd_queue (queue_at st x)) = []" "recv_waiters (qd_queue (queue_at st x)) = []"
  obtains m i where "msg_queue_destroy x st = Some (IPC_OK, st\<lparr>queues := (queues st)[i := 0], pmm := m\<rparr>)"
    "first_slot (\<lambda>y. y = x) (queues st) = Some i" "ipc_inv m0 (st\<lparr>queues := (queues st)[i := 0], pmm := m\<rparr>)"
    "x \<notin> set ((queues st)[i := 0])"
proof -
  obtain i where i: "first_slot (\<lambda>y. y = x) (queues st) = Some i" "x \<notin> set ((queues st)[i := 0])"
    "live_blocks st = queue_blocks st x + live_blocks (st\<lparr>queues := (queues st)[i := 0]\<rparr>)"
    by (rule queue_entry[OF inv x])
  let ?M = "live_blocks (st\<lparr>queues := (queues st)[i := 0]\<rparr>)"
  define d where d: "d = queue_at st x"
  define pages where p: "pages = pages_of (u64_mul (total_capacity (qd_queue d)) (msg_size (qd_queue d)))"
  have "holds m0 (pmm st) (add_mset (pages, qd_buffer d) (add_mset (Suc 0, x) ?M))"
    using inv i(3) by (simp add: ipc_inv_def queue_blocks_def Let_def p d add_mset_commute)
  then obtain m1 where m1: "pmm_free_pages (qd_buffer d) pages (pmm st) = Some m1" "holds m0 m1 (add_mset (Suc 0, x) ?M)"
    using holds_free by blast
  obtain m2 where m2: "pmm_free_page x m1 = Some m2" "holds m0 m2 ?M" using free_page_holds[OF m1(2)] by blast
  have call: "msg_queue_destroy x st = Some (IPC_OK, st\<lparr>queues := (queues st)[i := 0], pmm := m2\<rparr>)"
    using x(2) idle m1(1) m2(1) i(1) by (simp add: msg_queue_destroy_def Let_def clear_entry_def flip: d p)
  have "set ((queues st)[i := 0]) \<subseteq> insert 0 (set (queues st))" by (rule set_update_subset_insert)
  then have "ipc_inv m0 (st\<lparr>queues := (queues st)[i := 0], pmm := m2\<rparr>)"
    using inv m2(2) live_blocks_pmm[of m2 "st\<lparr>queues := (queues st)[i := 0]\<rparr>"] unfolding ipc_inv_def by auto
  then show thesis using that[OF call i(1) _ i(2)] by simp
qed

text \<open>A send or receive on a live queue keeps its block.\<close>

fun attempt_queue :: "attempt \<Rightarrow> msg_queue option" where
  "attempt_queue (Returned r q w m) = Some q"
| "attempt_queue (Blocked q) = Some q"
| "attempt_queue _ = None"

lemma queue_inv_send_waiters: "queue_inv (q\<lparr>send_waiters := ws\<rparr>) = queue_inv q"
  and queue_inv_recv_waiters: "queue_inv (q\<lparr>recv_waiters := ws\<rparr>) = queue_inv q"
  unfolding queue_inv_def level_ok_def by simp_all

lemma send_keeps:
  assumes "queue_inv q" "length m = msg_size q" "attempt_queue (msg_send_try t (Some m) pr tmo st ticks now (Some q)) = Some q'"
  shows "queue_inv q' \<and> capacity q' = capacity q \<and> msg_size q' = msg_size q"
proof (cases "pb_count (prio q (clamp_priority pr)) < capacity q")
  case True
  obtain q1 w where e: "enqueue q (clamp_priority pr) m = (q1, w)" by (cases "enqueue q (clamp_priority pr) m")
  then have "q' = q1" using True assms(3) by (simp add: msg_send_try_def)
  then show ?thesis using enqueue_level(1)[OF assms(1) clamp_less True assms(2) e] enqueue_frame[OF e] by simp
next
  case False
  then show ?thesis using assms by (auto simp: msg_send_try_def Let_def queue_inv_send_waiters split: if_splits)
qed

lemma recv_keeps:
  assumes "queue_inv q" "attempt_queue (msg_recv_try t d tmo st ticks now (Some q)) = Some q'"
  shows "queue_inv q' \<and> capacity q' = capacity q \<and> msg_size q' = msg_size q"
proof (cases "total_count q = 0 \<or> \<not> d")
  case True
  then show ?thesis using assms by (auto simp: msg_recv_try_def queue_inv_recv_waiters split: if_splits)
next
  case False
  then have some: "0 < total_count q" and d: "d" by auto
  obtain m q1 w where r: "msg_recv_try t True tmo st ticks now (Some q) = Returned IPC_OK q1 w m" "queue_inv q1"
    "capacity q1 = capacity q" "msg_size q1 = msg_size q"
    by (rule recv_try_ok[OF assms(1) some, of t tmo st ticks now])
  then show ?thesis using assms(2) d by simp
qed

lemma queue_update_inv:
  assumes inv: "ipc_inv m0 st" and x: "x \<in> set (queues st)" "x \<noteq> 0"
    and q': "queue_inv q'" "capacity q' = capacity (qd_queue (queue_at st x))" "msg_size q' = msg_size (qd_queue (queue_at st x))"
  shows "ipc_inv m0 (st\<lparr>queue_at := (queue_at st)(x := (queue_at st x)\<lparr>qd_queue := q'\<rparr>)\<rparr>)"
proof -
  let ?st = "st\<lparr>queue_at := (queue_at st)(x := (queue_at st x)\<lparr>qd_queue := q'\<rparr>)\<rparr>"
  have "queue_inv (qd_queue (queue_at st x))" using inv x by (simp add: ipc_inv_def)
  then have "total_capacity q' = total_capacity (qd_queue (queue_at st x))" using q' by (simp add: queue_inv_def)
  then have "queue_blocks ?st = queue_blocks st" "buffer_blocks ?st = buffer_blocks st"
    using q' by (auto simp: fun_eq_iff queue_blocks_def buffer_blocks_def Let_def)
  then have "live_blocks ?st = live_blocks st" by (simp add: live_blocks_def)
  then show ?thesis using inv q'(1) by (simp add: ipc_inv_def)
qed

section \<open>Shared buffers\<close>

text \<open>The blocks of one live buffer apart from all the others.\<close>

lemma buffer_entry:
  assumes "ipc_inv m0 st" "x \<in> set (buffers st)" "x \<noteq> 0"
  obtains i where "first_slot (\<lambda>y. y = x) (buffers st) = Some i" "x \<notin> set ((buffers st)[i := 0])"
    "live_blocks st = add_mset (Suc 0, x) (backing_blocks (buffer_at st x) + live_blocks (st\<lparr>buffers := (buffers st)[i := 0]\<rparr>))"
    "\<forall>b m g. live_blocks (st\<lparr>pmm := m, gpu := g, buffer_at := (buffer_at st)(x := b)\<rparr>) =
      add_mset (Suc 0, x) (backing_blocks b + live_blocks (st\<lparr>buffers := (buffers st)[i := 0]\<rparr>))"
proof -
  obtain i where s: "first_slot (\<lambda>y. y = x) (buffers st) = Some i"
    using assms(2) first_slot_None[of "\<lambda>y. y = x" "buffers st"] by (cases "first_slot (\<lambda>y. y = x) (buffers st)") auto
  then have i: "i < length (buffers st)" "buffers st ! i = x" using first_slot_Some by auto
  let ?st = "st\<lparr>buffers := (buffers st)[i := 0]\<rparr>"
  have fr: "table_blocks (queue_blocks ?st) = table_blocks (queue_blocks st)"
    "table_blocks (buffer_blocks ?st) = table_blocks (buffer_blocks st)"
    by (auto simp: fun_eq_iff queue_blocks_def buffer_blocks_def intro!: table_cong)
  then have l: "live_blocks st = add_mset (Suc 0, x) (backing_blocks (buffer_at st x) + live_blocks ?st)"
    using table_clear[OF i assms(3), of "buffer_blocks st"] by (simp add: live_blocks_def buffer_blocks_def ac_simps)
  have "holds m0 (pmm st) (live_blocks st)" using assms(1) by (simp add: ipc_inv_def)
  then have "(Suc 0, x) \<notin># live_blocks ?st"
    using holds_fresh[of m0 "pmm st" "Suc 0" x _ "Suc 0"] unfolding l by fastforce
  then have no: "x \<notin> set (buffers ?st)" using buffer_member[of x ?st] assms(3) by auto
  have upd: "live_blocks (st\<lparr>pmm := m, gpu := g, buffer_at := (buffer_at st)(x := b)\<rparr>) =
      add_mset (Suc 0, x) (backing_blocks b + live_blocks ?st)" for b m g
  proof -
    let ?s' = "st\<lparr>pmm := m, gpu := g, buffer_at := (buffer_at st)(x := b)\<rparr>"
    have "table_blocks (queue_blocks ?s') (queues st) = table_blocks (queue_blocks st) (queues st)"
      by (intro table_cong) (simp add: queue_blocks_def)
    moreover have "table_blocks (buffer_blocks ?s') ((buffers st)[i := 0]) = table_blocks (buffer_blocks st) ((buffers st)[i := 0])"
      using no by (intro table_cong) (auto simp: buffer_blocks_def)
    ultimately show ?thesis
      using table_clear[OF i assms(3), of "buffer_blocks ?s'"] fr by (simp add: live_blocks_def buffer_blocks_def ac_simps)
  qed
  show thesis using that[OF s _ l] upd no by simp
qed

lemma gpu_update_inv [simp]: "live_blocks (st\<lparr>gpu := g\<rparr>) = live_blocks st"
  by (simp add: live_blocks_def table_cong[of _ "queue_blocks (st\<lparr>gpu := g\<rparr>)" "queue_blocks st"]
      table_cong[of _ "buffer_blocks (st\<lparr>gpu := g\<rparr>)" "buffer_blocks st"] queue_blocks_def buffer_blocks_def)

text \<open>Mapping: one more page, one more reference.\<close>

lemma shared_buffer_map_ok:
  assumes inv: "ipc_inv m0 st" and x: "x \<in> set (buffers st)" "x \<noteq> 0"
  obtains (refused) "shared_buffer_map ops cur x task perms st = Some (0, st)"
  | (mapped) m g p where "shared_buffer_map ops cur x task perms st = Some (phys_base (buffer_at st x),
      st\<lparr>pmm := m, gpu := g, buffer_at := (buffer_at st)(x := (buffer_at st x)\<lparr>
        mappings := \<lparr>m_page = p, m_task = (case task of None \<Rightarrow> cur | Some t \<Rightarrow> t), m_virt = phys_base (buffer_at st x),
          m_perms = limit_perms (sb_flags (buffer_at st x)) perms\<rparr> # mappings (buffer_at st x),
        refcount := Suc (refcount (buffer_at st x))\<rparr>)\<rparr>)"
    "(case task of None \<Rightarrow> cur | Some t \<Rightarrow> t) \<notin> m_task ` set (mappings (buffer_at st x))" "p \<noteq> 0"
    "holds m0 m (add_mset (Suc 0, p) (live_blocks st))"
proof -
  let ?t = "case task of None \<Rightarrow> cur | Some t \<Rightarrow> t" and ?b = "buffer_at st x"
  have h: "holds m0 (pmm st) (live_blocks st)" and b: "buffer_ok ?b" using inv x by (auto simp: ipc_inv_def)
  have rc: "u32_add (refcount ?b) 1 = Suc (refcount ?b)" using b buffer_ok_length[OF b] by (simp add: buffer_ok_def u32_add_eq)
  show thesis
  proof (cases "\<exists>m \<in> set (mappings ?b). m_task m = ?t")
    case True
    then show thesis using x(2) by (intro refused) (simp add: shared_buffer_map_def Let_def)
  next
    case False
    show thesis
    proof (cases rule: alloc_page_cases[OF h])
      case 1
      then show thesis using x(2) False by (intro refused) (simp add: shared_buffer_map_def Let_def alloc_mapping_def)
    next
      case (2 p m)
      have call: "shared_buffer_map ops cur x task perms st = Some (phys_base ?b,
        st\<lparr>pmm := m, gpu := (if limit_perms (sb_flags ?b) perms AND SHM_GPU_ACCESSIBLE \<noteq> 0 \<and> gpu_backed ?b
            then gpu_sync_for_gpu ops (phys_base ?b) (sb_size ?b) (gpu st) else gpu st),
          buffer_at := (buffer_at st)(x := ?b\<lparr>
          mappings := \<lparr>m_page = p, m_task = ?t, m_virt = phys_base ?b, m_perms = limit_perms (sb_flags ?b) perms\<rparr> # mappings ?b,
          refcount := Suc (refcount ?b)\<rparr>)\<rparr>)"
        using x(2) False 2 rc by (simp add: shared_buffer_map_def Let_def alloc_mapping_def)
      show thesis by (rule mapped[OF call _ 2(2,3)]) (use False in auto)
    qed
  qed
qed

lemma map_inv:
  assumes inv: "ipc_inv m0 st" and x: "x \<in> set (buffers st)" "x \<noteq> 0"
    and t: "(case task of None \<Rightarrow> cur | Some t \<Rightarrow> t) < MAX_TASKS"
  shows "\<exists>r st'. shared_buffer_map ops cur x task perms st = Some (r, st') \<and> ipc_inv m0 st'"
proof (cases rule: shared_buffer_map_ok[OF inv x, of ops cur task perms])
  case 1
  then show ?thesis using inv by simp
next
  case (2 m g p)
  let ?b = "buffer_at st x" and ?t = "case task of None \<Rightarrow> cur | Some t \<Rightarrow> t"
  let ?b' = "?b\<lparr>mappings := \<lparr>m_page = p, m_task = ?t, m_virt = phys_base ?b,
          m_perms = limit_perms (sb_flags ?b) perms\<rparr> # mappings ?b, refcount := Suc (refcount ?b)\<rparr>"
  let ?st = "st\<lparr>pmm := m, gpu := g, buffer_at := (buffer_at st)(x := ?b')\<rparr>"
  obtain i where l: "live_blocks st = add_mset (Suc 0, x) (backing_blocks ?b + live_blocks (st\<lparr>buffers := (buffers st)[i := 0]\<rparr>))"
    "\<forall>b m g. live_blocks (st\<lparr>pmm := m, gpu := g, buffer_at := (buffer_at st)(x := b)\<rparr>) =
      add_mset (Suc 0, x) (backing_blocks b + live_blocks (st\<lparr>buffers := (buffers st)[i := 0]\<rparr>))"
    by (rule buffer_entry[OF inv x])
  have "live_blocks ?st = add_mset (Suc 0, p) (live_blocks st)" unfolding l(1) l(2)[rule_format] by (simp add: backing_blocks_def)
  then have "holds m0 m (live_blocks ?st)" using 2(4) by simp
  moreover have "buffer_ok ?b'" using inv x 2(2,3) t by (auto simp: ipc_inv_def buffer_ok_def)
  ultimately have "ipc_inv m0 ?st" using inv unfolding ipc_inv_def by simp
  then show ?thesis using 2(1) by blast
qed

lemma unlink_mapping_some:
  "unlink_mapping t ms = Some (m, ms') \<Longrightarrow>
    m_task m = t \<and> (\<exists>pre post. ms = pre @ m # post \<and> ms' = pre @ post \<and> t \<notin> m_task ` set pre)"
proof (induction ms arbitrary: ms')
  case (Cons a ms)
  show ?case
  proof (cases "m_task a = t")
    case True
    then have "m = a" "ms' = ms" using Cons.prems by auto
    then have "a # ms = [] @ m # ms \<and> ms' = [] @ ms \<and> t \<notin> m_task ` set []" by simp
    then show ?thesis using True \<open>m = a\<close> by blast
  next
    case False
    then obtain xs where xs: "unlink_mapping t ms = Some (m, xs)" "ms' = a # xs" using Cons.prems by auto
    then obtain pre post where "m_task m = t" "ms = pre @ m # post" "xs = pre @ post" "t \<notin> m_task ` set pre"
      using Cons.IH by blast
    then have "m_task m = t" "a # ms = (a # pre) @ m # post \<and> ms' = (a # pre) @ post \<and> t \<notin> m_task ` set (a # pre)"
      using xs False by auto
    then show ?thesis by blast
  qed
qed simp

lemma unlink_mapping_none: "unlink_mapping t ms = None \<longleftrightarrow> t \<notin> m_task ` set ms"
  by (induction ms) auto

text \<open>Unmapping: the node's page is freed, one reference less.\<close>

lemma unmap_inv:
  assumes inv: "ipc_inv m0 st" and x: "x \<in> set (buffers st)" "x \<noteq> 0"
  shows "\<exists>r st'. shared_buffer_unmap cur x task st = Some (r, st') \<and> ipc_inv m0 st' \<and>
    (r = IPC_OK \<longleftrightarrow> (case task of None \<Rightarrow> cur | Some t \<Rightarrow> t) \<in> m_task ` set (mappings (buffer_at st x))) \<and>
    (r \<noteq> IPC_OK \<longrightarrow> st' = st)"
proof -
  let ?t = "case task of None \<Rightarrow> cur | Some t \<Rightarrow> t" and ?b = "buffer_at st x"
  have h: "holds m0 (pmm st) (live_blocks st)" and b: "buffer_ok ?b" using inv x by (auto simp: ipc_inv_def)
  show ?thesis
  proof (cases "unlink_mapping ?t (mappings ?b)")
    case None
    then have "shared_buffer_unmap cur x task st = Some (IPC_ERR_INVALID, st)"
      using x(2) by (simp add: shared_buffer_unmap_def Let_def)
    then show ?thesis using None inv by (simp add: unlink_mapping_none)
  next
    case (Some a)
    obtain n ms where a: "a = (n, ms)" by (cases a)
    obtain pre post where u: "m_task n = ?t" "mappings ?b = pre @ n # post" "ms = pre @ post"
      using unlink_mapping_some Some a by blast
    let ?b' = "?b\<lparr>mappings := ms, refcount := u32_sub (refcount ?b) 1\<rparr>"
    obtain i where l: "live_blocks st = add_mset (Suc 0, x) (backing_blocks ?b + live_blocks (st\<lparr>buffers := (buffers st)[i := 0]\<rparr>))"
      "\<forall>b m g. live_blocks (st\<lparr>pmm := m, gpu := g, buffer_at := (buffer_at st)(x := b)\<rparr>) =
        add_mset (Suc 0, x) (backing_blocks b + live_blocks (st\<lparr>buffers := (buffers st)[i := 0]\<rparr>))"
      by (rule buffer_entry[OF inv x])
    have "live_blocks st = add_mset (Suc 0, m_page n) (live_blocks (st\<lparr>pmm := m, gpu := gpu st, buffer_at := (buffer_at st)(x := ?b')\<rparr>))" for m
      unfolding l(1) l(2)[rule_format] using u by (simp add: backing_blocks_def)
    then obtain m where m: "pmm_free_page (m_page n) (pmm st) = Some m"
        "holds m0 m (live_blocks (st\<lparr>pmm := m, gpu := gpu st, buffer_at := (buffer_at st)(x := ?b')\<rparr>))"
      using free_page_holds h l(2) by metis
    have "m_page n \<noteq> 0" using b u by (simp add: buffer_ok_def)
    then have call: "shared_buffer_unmap cur x task st = Some (IPC_OK, st\<lparr>pmm := m, buffer_at := (buffer_at st)(x := ?b')\<rparr>)"
      using x(2) Some a m(1) by (simp add: shared_buffer_unmap_def Let_def free_mapping_def)
    have "u32_sub (refcount ?b) 1 = length (mappings ?b)" using b buffer_ok_length[OF b] by (simp add: buffer_ok_def u32_sub_eq)
    then have "buffer_ok ?b'" using b u by (auto simp: buffer_ok_def)
    then have "ipc_inv m0 (st\<lparr>pmm := m, buffer_at := (buffer_at st)(x := ?b')\<rparr>)"
      using inv m(2) unfolding ipc_inv_def by simp
    moreover have "?t \<in> m_task ` set (mappings ?b)" using u by (metis image_eqI in_set_conv_decomp)
    ultimately show ?thesis using call by simp
  qed
qed

text \<open>What the kernel relies on from the GPU allocator: success gives a pointer that is not \<open>NULL\<close>.\<close>

definition gpu_sane :: "'g gpu_ops \<Rightarrow> bool" where
  "gpu_sane ops \<longleftrightarrow> (\<forall>sz al g g'. gpu_alloc ops sz al g \<noteq> (Some 0, g'))"

lemma gpu_try_cases:
  assumes "gpu_sane ops"
  obtains (pages) g' where "gpu_try ops flags sz g = (0, False, g')"
  | (gpu) a g' where "gpu_try ops flags sz g = (a, True, g')" "a \<noteq> 0" "flags AND SHM_GPU_ACCESSIBLE \<noteq> 0"
proof -
  obtain r g' where al: "gpu_alloc ops sz (sz \<ge> BLOCK_SIZE) g = (r, g')" by (cases "gpu_alloc ops sz (sz \<ge> BLOCK_SIZE) g")
  show thesis
  proof (cases "flags AND SHM_GPU_ACCESSIBLE \<noteq> 0 \<and> gpu_available ops g")
    case True
    show thesis
    proof (cases r)
      case (Some a)
      then have "a \<noteq> 0" using assms al unfolding gpu_sane_def by metis
      then show thesis using True al Some by (intro gpu[of a g']) (simp_all add: gpu_try_def)
    qed (use True al pages in \<open>simp add: gpu_try_def\<close>)
  qed (use pages in \<open>auto simp: gpu_try_def\<close>)
qed

lemma round_block_pages: "round_block sz div PAGE_SIZE \<le> 2 ^ 63"
proof -
  have "round_block sz \<le> u64_sub (u64_add sz BLOCK_SIZE) 1" by (simp add: round_block_def Let_def)
  also have "\<dots> < U64_MOD" by (simp add: u64_sub_def)
  finally have "round_block sz div PAGE_SIZE \<le> U64_MOD div PAGE_SIZE" by (intro div_le_mono) simp
  then show ?thesis by simp
qed

lemma live_blocks_add_buffer:
  assumes "first_slot (\<lambda>x. x = 0) (buffers st) = Some i" "p \<noteq> 0" "p \<notin> set (buffers st)"
  shows "live_blocks (st\<lparr>pmm := m, gpu := g, buffers := (buffers st)[i := p], next_buffer_id := k,
      buffer_at := (buffer_at st)(p := b)\<rparr>) = add_mset (Suc 0, p) (backing_blocks b + live_blocks st)"
proof -
  let ?st = "st\<lparr>pmm := m, gpu := g, buffers := (buffers st)[i := p], next_buffer_id := k, buffer_at := (buffer_at st)(p := b)\<rparr>"
  have i: "i < length (buffers st)" "buffers st ! i = 0" using first_slot_Some[OF assms(1)] by auto
  have "table_blocks (buffer_blocks ?st) (buffers st) = table_blocks (buffer_blocks st) (buffers st)"
    using assms(3) by (intro table_cong) (auto simp: buffer_blocks_def)
  moreover have "table_blocks (queue_blocks ?st) (queues st) = table_blocks (queue_blocks st) (queues st)"
    by (intro table_cong) (simp add: queue_blocks_def)
  ultimately show ?thesis using table_set[OF i assms(2), of "buffer_blocks ?st"] by (simp add: live_blocks_def buffer_blocks_def)
qed

lemma new_buffer_inv:
  assumes inv: "ipc_inv m0 st" and i: "first_slot (\<lambda>x. x = 0) (buffers st) = Some i" and p: "p \<noteq> 0"
    and h: "holds m0 m (add_mset (Suc 0, p) (backing_blocks b + live_blocks st))" and b: "buffer_ok b"
  shows "ipc_inv m0 (st\<lparr>pmm := m, gpu := g, buffers := (buffers st)[i := p], next_buffer_id := k,
      buffer_at := (buffer_at st)(p := b)\<rparr>)" (is "ipc_inv m0 ?st")
proof -
  have fresh: "p \<notin> set (buffers st)" using holds_fresh[OF h, of "Suc 0"] buffer_member[OF _ p] by auto
  have "holds m0 m (live_blocks ?st)" using live_blocks_add_buffer[OF i p fresh] h by simp
  then show ?thesis using inv b fresh unfolding ipc_inv_def
    by (auto dest!: set_update_subset_insert[THEN subsetD])
qed

lemma create_inv:
  assumes inv: "ipc_inv m0 st" and sane: "gpu_sane ops"
    and slot: "flags AND SHM_GPU_ACCESSIBLE = 0 \<or> 0 \<in> set (buffers st)"
  shows "\<exists>r st'. shared_buffer_create ops cur sz flags st = Some (r, st') \<and> ipc_inv m0 st' \<and>
    (r = 0 \<longrightarrow> free_mem (pmm st') = free_mem (pmm st) \<and> buffers st' = buffers st) \<and>
    (r \<noteq> 0 \<longrightarrow> r \<in> set (buffers st') \<and> r \<notin> set (buffers st) \<and> sb_id (buffer_at st' r) = next_buffer_id st)"
proof -
  let ?sz = "round_block sz" and ?M = "live_blocks st"
  let ?pages = "?sz div PAGE_SIZE"
  have h: "holds m0 (pmm st) ?M" using inv by (simp add: ipc_inv_def)
  have failI: ?thesis if "shared_buffer_create ops cur sz flags st = Some (0, st\<lparr>pmm := m, gpu := g\<rparr>)" "holds m0 m ?M" for m g
    using that holds_free_eq[OF h that(2)] inv
    by (intro exI[of _ 0] exI[of _ "st\<lparr>pmm := m, gpu := g\<rparr>"]) (simp add: ipc_inv_def)
  note defs = shared_buffer_create_def Let_def
  show ?thesis
  proof (cases "sz = 0")
    case True
    then show ?thesis using h by (intro failI[where m = "pmm st" and g = "gpu st"]) (simp_all add: defs)
  next
    case False
    show ?thesis
    proof (cases rule: alloc_page_cases[OF h])
      case 1
      then show ?thesis using False h by (intro failI[where m = "pmm st" and g = "gpu st"]) (simp_all add: defs)
    next
      case (2 p m1)
      have fresh: "p \<notin> set (buffers st)" using holds_fresh[OF 2(3), of "Suc 0"] buffer_member[OF _ 2(2)] by auto
      have okI: ?thesis if "shared_buffer_create ops cur sz flags st = Some (p, st\<lparr>pmm := m, gpu := g,
          buffers := (buffers st)[i := p], next_buffer_id := k, buffer_at := (buffer_at st)(p := b)\<rparr>)"
          "first_slot (\<lambda>x. x = 0) (buffers st) = Some i" "holds m0 m (add_mset (Suc 0, p) (backing_blocks b + ?M))" "buffer_ok b"
          "sb_id b = next_buffer_id st" for m g i k b
        using that new_buffer_inv[OF inv that(2) 2(2) that(3,4), where g = g and k = k] 2(2) fresh first_slot_Some[OF that(2)]
        by (intro exI[of _ p] exI) (auto simp: set_update_memI)
      show ?thesis
      proof (cases rule: gpu_try_cases[OF sane, of flags ?sz "gpu st"])
        case g: (1 g)
        show ?thesis
        proof (cases rule: alloc_pages_cases[OF 2(3) round_block_pages[of sz]])
          case 1
          obtain m3 where "pmm_free_page p m1 = Some m3" "holds m0 m3 ?M" using free_page_holds[OF 2(3)] by blast
          then show ?thesis using False 2 1 g by (intro failI[where m = m3 and g = g]) (simp_all add: defs)
        next
          case b: (2 a m2)
          show ?thesis
          proof (cases "first_slot (\<lambda>x. x = 0) (buffers st)")
            case None
            obtain m3 where m3: "pmm_free_pages a ?pages m2 = Some m3" "holds m0 m3 (add_mset (Suc 0, p) ?M)"
              using holds_free[OF b(3)] by blast
            obtain m4 where "pmm_free_page p m3 = Some m4" "holds m0 m4 ?M" using free_page_holds[OF m3(2)] by blast
            then show ?thesis using False 2 b g None m3 by (intro failI[where m = m4 and g = g]) (simp_all add: defs)
          next
            case (Some i)
            then show ?thesis using False 2 b g
              by (intro okI[where m = m2 and g = g and i = i and k = "u32_add (next_buffer_id st) 1" and b = "\<lparr>sb_id = next_buffer_id st, phys_base = a, sb_size = ?sz,
                    sb_flags = flags, refcount = 1, sb_owner = cur, mappings = [], gpu_backed = False\<rparr>"])
                (simp_all add: defs backing_blocks_def buffer_ok_def add_mset_commute)
          qed
        qed
      next
        case g: (2 a g)
        then obtain i where i: "first_slot (\<lambda>x. x = 0) (buffers st) = Some i"
          using slot first_slot_None[of "\<lambda>x. x = 0" "buffers st"] by (cases "first_slot (\<lambda>x. x = 0) (buffers st)") auto
        then show ?thesis using False 2 g
          by (intro okI[where m = m1 and g = g and i = i and k = "u32_add (next_buffer_id st) 1" and b = "\<lparr>sb_id = next_buffer_id st, phys_base = a, sb_size = ?sz,
                sb_flags = flags, refcount = 1, sb_owner = cur, mappings = [], gpu_backed = True\<rparr>"])
            (simp_all add: defs backing_blocks_def buffer_ok_def)
      qed
    qed
  qed
qed

lemma destroy_inv:
  assumes inv: "ipc_inv m0 st" and x: "x \<in> set (buffers st)" "x \<noteq> 0"
  shows "\<exists>r st'. shared_buffer_destroy ops cur x st = Some (r, st') \<and> ipc_inv m0 st' \<and>
    r = (if sb_owner (buffer_at st x) \<noteq> cur then IPC_ERR_INVALID
         else if mappings (buffer_at st x) \<noteq> [] then IPC_ERR_BUSY else IPC_OK) \<and>
    (if r = IPC_OK then x \<notin> set (buffers st') else st' = st)"
proof -
  let ?b = "buffer_at st x"
  have h: "holds m0 (pmm st) (live_blocks st)" and b: "buffer_ok ?b" using inv x by (auto simp: ipc_inv_def)
  obtain i where i: "first_slot (\<lambda>y. y = x) (buffers st) = Some i" "x \<notin> set ((buffers st)[i := 0])"
    "live_blocks st = add_mset (Suc 0, x) (backing_blocks ?b + live_blocks (st\<lparr>buffers := (buffers st)[i := 0]\<rparr>))"
    by (rule buffer_entry[OF inv x])
  let ?M = "live_blocks (st\<lparr>buffers := (buffers st)[i := 0]\<rparr>)"
  have ref: "refcount ?b > 1 \<longleftrightarrow> mappings ?b \<noteq> []" using b by (simp add: buffer_ok_def)
  note defs = shared_buffer_destroy_def Let_def
  show ?thesis
  proof (cases "sb_owner ?b = cur \<and> mappings ?b = []")
    case False
    then show ?thesis using x(2) i(1) ref inv by (auto simp: defs)
  next
    case True
    obtain m1 g1 where m1: "(if gpu_backed ?b then Some (pmm st, gpu_free ops (phys_base ?b) (sb_size ?b) (gpu st))
          else do { m \<leftarrow> pmm_free_pages (phys_base ?b) (sb_size ?b div PAGE_SIZE) (pmm st); Some (m, gpu st) }) = Some (m1, g1)"
        "holds m0 m1 (add_mset (Suc 0, x) ?M)"
    proof (cases "gpu_backed ?b")
      case True
      then show thesis using h \<open>sb_owner ?b = cur \<and> mappings ?b = []\<close> that[of "pmm st"] by (simp add: i(3) backing_blocks_def)
    next
      case False
      then have "holds m0 (pmm st) (add_mset (sb_size ?b div PAGE_SIZE, phys_base ?b) (add_mset (Suc 0, x) ?M))"
        using h True by (simp add: i(3) backing_blocks_def add_mset_commute)
      then show thesis using holds_free False that by fastforce
    qed
    obtain m2 where m2: "pmm_free_page x m1 = Some m2" "holds m0 m2 ?M" using free_page_holds[OF m1(2)] by blast
    let ?st = "st\<lparr>buffers := (buffers st)[i := 0], pmm := m2, gpu := g1\<rparr>"
    have call: "shared_buffer_destroy ops cur x st = Some (IPC_OK, ?st)"
      using x(2) True i(1) ref m1(1) m2(1) by (simp add: defs)
    have "set ((buffers st)[i := 0]) \<subseteq> insert 0 (set (buffers st))" by (rule set_update_subset_insert)
    moreover have "live_blocks ?st = ?M"
      using live_blocks_pmm[of m2 "st\<lparr>buffers := (buffers st)[i := 0]\<rparr>"]
        gpu_update_inv[of g1 "st\<lparr>buffers := (buffers st)[i := 0], pmm := m2\<rparr>"] by simp
    ultimately have "ipc_inv m0 ?st" using inv m2(2) unfolding ipc_inv_def by auto
    then show ?thesis using call i(2) True by simp
  qed
qed

section \<open>All calls together\<close>

inductive ipc_step :: "'g gpu_ops \<Rightarrow> 'g ipc_state \<Rightarrow> 'g ipc_state \<Rightarrow> bool" for ops where
  queue_create: "msg_queue_create cap sz st = Some (r, st') \<Longrightarrow> ipc_step ops st st'"
| queue_destroy: "x \<in> set (queues st) \<Longrightarrow> x \<noteq> 0 \<Longrightarrow> msg_queue_destroy x st = Some (r, st') \<Longrightarrow> ipc_step ops st st'"
| queue_send: "x \<in> set (queues st) \<Longrightarrow> x \<noteq> 0 \<Longrightarrow> length m = msg_size (qd_queue (queue_at st x)) \<Longrightarrow>
    attempt_queue (msg_send_try t (Some m) pr tmo start ticks now (Some (qd_queue (queue_at st x)))) = Some q' \<Longrightarrow>
    ipc_step ops st (st\<lparr>queue_at := (queue_at st)(x := (queue_at st x)\<lparr>qd_queue := q'\<rparr>)\<rparr>)"
| queue_recv: "x \<in> set (queues st) \<Longrightarrow> x \<noteq> 0 \<Longrightarrow>
    attempt_queue (msg_recv_try t d tmo start ticks now (Some (qd_queue (queue_at st x)))) = Some q' \<Longrightarrow>
    ipc_step ops st (st\<lparr>queue_at := (queue_at st)(x := (queue_at st x)\<lparr>qd_queue := q'\<rparr>)\<rparr>)"
| buffer_create: "flags AND SHM_GPU_ACCESSIBLE = 0 \<or> 0 \<in> set (buffers st) \<Longrightarrow>
    shared_buffer_create ops cur sz flags st = Some (r, st') \<Longrightarrow> ipc_step ops st st'"
| buffer_map: "x \<in> set (buffers st) \<Longrightarrow> x \<noteq> 0 \<Longrightarrow> (case task of None \<Rightarrow> cur | Some t \<Rightarrow> t) < MAX_TASKS \<Longrightarrow>
    shared_buffer_map ops cur x task perms st = Some (v, st') \<Longrightarrow> ipc_step ops st st'"
| buffer_unmap: "x \<in> set (buffers st) \<Longrightarrow> x \<noteq> 0 \<Longrightarrow>
    shared_buffer_unmap cur x task st = Some (r, st') \<Longrightarrow> ipc_step ops st st'"
| buffer_destroy: "x \<in> set (buffers st) \<Longrightarrow> x \<noteq> 0 \<Longrightarrow>
    shared_buffer_destroy ops cur x st = Some (r, st') \<Longrightarrow> ipc_step ops st st'"

lemma queue_destroy_inv:
  assumes "ipc_inv m0 st" "x \<in> set (queues st)" "x \<noteq> 0"
  shows "\<exists>r st'. msg_queue_destroy x st = Some (r, st') \<and> ipc_inv m0 st'"
proof (cases "send_waiters (qd_queue (queue_at st x)) = [] \<and> recv_waiters (qd_queue (queue_at st x)) = []")
  case True
  then show ?thesis by (auto elim: msg_queue_destroy_ok[OF assms])
next
  case False
  then show ?thesis using assms by (auto simp: msg_queue_destroy_def Let_def)
qed

lemma queue_create_inv:
  assumes "ipc_inv m0 st"
  shows "\<exists>r st'. msg_queue_create cap sz st = Some (r, st') \<and> ipc_inv m0 st'"
  by (cases rule: msg_queue_create_ok[OF assms, of cap sz]) auto

lemma ipc_inv_step:
  assumes "ipc_step ops st st'" "ipc_inv m0 st" "gpu_sane ops"
  shows "ipc_inv m0 st'"
  using assms(1)
proof cases
  case (queue_create cap sz r)
  then show ?thesis using queue_create_inv[OF assms(2), of cap sz] by auto
next
  case (queue_destroy x r)
  then show ?thesis using queue_destroy_inv[OF assms(2), of x] by auto
next
  case (queue_send x m t pr tmo start ticks now q')
  have "queue_inv (qd_queue (queue_at st x))" using assms(2) queue_send by (simp add: ipc_inv_def)
  then show ?thesis using queue_update_inv[OF assms(2)] send_keeps queue_send by metis
next
  case (queue_recv x t d tmo start ticks now q')
  have "queue_inv (qd_queue (queue_at st x))" using assms(2) queue_recv by (simp add: ipc_inv_def)
  then show ?thesis using queue_update_inv[OF assms(2)] recv_keeps queue_recv by metis
next
  case (buffer_create flags cur sz r)
  then show ?thesis using create_inv[OF assms(2,3), of flags cur sz] by auto
next
  case (buffer_map x task cur perms v)
  then show ?thesis using map_inv[OF assms(2), where x = x and task = task and cur = cur and ops = ops and perms = perms] by auto
next
  case (buffer_unmap x cur task r)
  then show ?thesis using unmap_inv[OF assms(2), of x cur task] by auto
next
  case (buffer_destroy x cur r)
  then show ?thesis using destroy_inv[OF assms(2), of x ops cur] by auto
qed

lemma ipc_reachable:
  assumes "(ipc_step ops)\<^sup>*\<^sup>* (ipc_init st0) st" "pmm_valid (pmm st0)" "gpu_sane ops"
  shows "ipc_inv (pmm st0) st"
  using assms(1)
proof (induction rule: rtranclp_induct)
  case base
  show ?case using ipc_init_inv[OF assms(2)] .
qed (rule ipc_inv_step[OF _ _ assms(3)])

end
