(* ===== verification/IpcTableProps.thy ===== *)
theory IpcTableProps
  imports IpcMemory PmmProps
begin

text \<open>
  The properties of the IPC tables: memory accounting over all calls, calls that never get stuck,
  the create/destroy round trip of queues, and the conditions under which a shared buffer goes
  away.
\<close>

section \<open>A machine for the witnesses\<close>

definition no_gpu :: "unit gpu_ops" where
  "no_gpu = \<lparr>gpu_available = \<lambda>_. False, gpu_alloc = \<lambda>_ _ g. (None, g), gpu_free = \<lambda>_ _ g. g, gpu_sync_for_gpu = \<lambda>_ _ g. g\<rparr>"

definition boot_ipc :: "unit ipc_state" where
  "boot_ipc = \<lparr>queues = [], buffers = [], next_queue_id = 0, next_buffer_id = 0,
     queue_at = \<lambda>_. \<lparr>qd_queue = init_queue 1 1, qd_buffer = 0\<rparr>,
     buffer_at = \<lambda>_. \<lparr>sb_id = 0, phys_base = 0, sb_size = 0, sb_flags = 0, refcount = 0, sb_owner = 0, mappings = [], gpu_backed = False\<rparr>,
     pmm = tiny_heap, gpu = ()\<rparr>"

lemma no_gpu_sane: "gpu_sane no_gpu"
  by (simp add: gpu_sane_def no_gpu_def)

lemma boot_valid: "pmm_valid (pmm boot_ipc)"
  by (simp add: boot_ipc_def tiny_valid)

section \<open>Memory\<close>


text \<open>The boot state has the two pages a queue of four one-byte slots needs.\<close>

lemma boot_create:
  obtains st where "msg_queue_create 1 1 (ipc_init boot_ipc) = Some (8192, st)" "ipc_step no_gpu (ipc_init boot_ipc) st"
proof -
  obtain s where s: "pmm_alloc_pages 1 tiny_heap = Some (8192, s)" using tiny_alloc by blast
  then have u: "s = tiny_used" by (simp add: tiny_used_def)
  have "block_aligned 1 12288" "block_bytes 1 12288 \<subseteq> free_mem tiny_used"
    by (simp_all add: block_aligned_def request_order_1 order_to_size_def order_to_pages_def tiny_used_props block_bytes_1)
  then obtain a s2 where a: "pmm_alloc_pages 1 tiny_used = Some (a, s2)" "a \<noteq> 0"
    using pmm_alloc_pages_cases[OF tiny_used_props(1) request_ok_page] by blast
  have p: "pmm (ipc_init boot_ipc) = tiny_heap" and q: "queues (ipc_init boot_ipc) = 0 # replicate 31 0"
    by (simp_all add: ipc_init_def boot_ipc_def numeral_eq_Suc)
  have n: "pages_of (u64_mul 4 (Suc 0)) = Suc 0" "u64_mul (Suc 0) 4 = 4"
    by (simp_all add: pages_of_def u64_mul_def u64_add_def u64_sub_def)
  obtain st where st: "msg_queue_create 1 1 (ipc_init boot_ipc) = Some (8192, st)"
    using s[unfolded u] a by (simp add: msg_queue_create_def Let_def p q n pmm_alloc_page_def)
  show thesis by (rule that[OF st ipc_step.queue_create[OF st]])
qed




text \<open>C20: creating a queue and destroying it restores the table and the free memory; a failed creation
  changes neither.\<close>

theorem msg_queue_roundtrip:
  assumes "(ipc_step ops)\<^sup>*\<^sup>* (ipc_init st0) st" "pmm_valid (pmm st0)" "gpu_sane ops"
    and "msg_queue_create cap sz st = Some (q, st')"
  shows "if q = 0 then queues st' = queues st \<and> free_mem (pmm st') = free_mem (pmm st)
    else q \<in> set (queues st') \<and> mq_id (qd_queue (queue_at st' q)) = next_queue_id st \<and>
      (\<exists>st''. msg_queue_destroy q st' = Some (IPC_OK, st'') \<and> queues st'' = queues st \<and> free_mem (pmm st'') = free_mem (pmm st))"
proof -
  have inv: "ipc_inv (pmm st0) st" by (rule ipc_reachable[OF assms(1-3)])
  show ?thesis
  proof (cases rule: msg_queue_create_ok[OF inv, of cap sz])
    case 1
    then show ?thesis using assms(4) by auto
  next
    case (2 q1 st1 i buf m1)
    then have e: "q1 = q" "st1 = st'" using assms(4) by auto
    note c = 2[unfolded e]
    define d where "d = \<lparr>qd_queue = (init_queue cap (if sz = 0 then MSG_SIZE_DEFAULT else sz))\<lparr>mq_id := next_queue_id st\<rparr>, qd_buffer = buf\<rparr>"
    have s': "queues st' = (queues st)[i := q]" "queue_at st' = (queue_at st)(q := d)" "buffers st' = buffers st"
      "buffer_at st' = buffer_at st" using c(8) by (simp_all add: d_def)
    have i: "i < length (queues st)" "queues st ! i = 0" using first_slot_Some[OF c(5)] by auto
    have qin: "q \<in> set (queues st')" using i by (simp add: s' set_update_memI)
    have w: "send_waiters (qd_queue (queue_at st' q)) = []" "recv_waiters (qd_queue (queue_at st' q)) = []"
      by (simp_all add: s' d_def init_queue_def)
    obtain m j where dl: "msg_queue_destroy q st' = Some (IPC_OK, st'\<lparr>queues := (queues st')[j := 0], pmm := m\<rparr>)"
      "first_slot (\<lambda>y. y = q) (queues st') = Some j" "ipc_inv (pmm st0) (st'\<lparr>queues := (queues st')[j := 0], pmm := m\<rparr>)"
      by (rule msg_queue_destroy_ok[OF c(3) qin c(2) w])
    have "j < length (queues st)" "queues st' ! j = q" using first_slot_Some[OF dl(2)] by (auto simp: s')
    then have "j = i" using c(4) by (metis nth_list_update_neq nth_mem s'(1))
    then have qs: "(queues st')[j := 0] = queues st" using i by (metis list_update_id list_update_overwrite s'(1))
    let ?st = "st'\<lparr>queues := queues st, pmm := m\<rparr>"
    have "queue_blocks ?st x = queue_blocks st x" if "x \<in> set (queues st)" for x
      using that c(4) by (auto simp: queue_blocks_def s')
    then have "live_blocks ?st = live_blocks st"
      using table_cong[of "queues st" "queue_blocks ?st" "queue_blocks st"]
        table_cong[of "buffers st" "buffer_blocks ?st" "buffer_blocks st"]
      by (simp add: live_blocks_def buffer_blocks_def s')
    then have "holds (pmm st0) m (live_blocks st)" using dl(3) qs by (simp add: ipc_inv_def)
    moreover have "holds (pmm st0) (pmm st) (live_blocks st)" using inv by (simp add: ipc_inv_def)
    ultimately have "free_mem m = free_mem (pmm st)" using holds_free_eq by blast
    then show ?thesis using c(2) dl(1) qs qin by (simp add: s'(2) d_def)
  qed
qed

theorem msg_queue_roundtrip_witness:
  "\<exists>st st'. msg_queue_create 1 1 (ipc_init boot_ipc) = Some (8192, st) \<and> msg_queue_destroy 8192 st = Some (IPC_OK, st') \<and>
    free_mem (pmm st') = free_mem (pmm (ipc_init boot_ipc))"
proof -
  obtain st where s: "msg_queue_create 1 1 (ipc_init boot_ipc) = Some (8192, st)" by (rule boot_create)
  from msg_queue_roundtrip[OF rtranclp.rtrancl_refl boot_valid no_gpu_sane s] s show ?thesis by auto
qed

text \<open>C21: a shared buffer goes away only when its owner asks and no task maps it; otherwise the call is
  refused with the documented code and changes nothing.\<close>

theorem shared_buffer_destroy_safe:
  assumes "(ipc_step ops)\<^sup>*\<^sup>* (ipc_init st0) st" "pmm_valid (pmm st0)" "gpu_sane ops"
    and "x \<in> set (buffers st)" "x \<noteq> 0"
  shows "\<exists>r st'. shared_buffer_destroy ops cur x st = Some (r, st') \<and>
    r = (if sb_owner (buffer_at st x) \<noteq> cur then IPC_ERR_INVALID
         else if mappings (buffer_at st x) \<noteq> [] then IPC_ERR_BUSY else IPC_OK) \<and>
    (if r = IPC_OK then x \<notin> set (buffers st') else st' = st)"
  using destroy_inv[OF ipc_reachable[OF assms(1-3)] assms(4,5), of ops cur] by blast

text \<open>A GPU that hands out one region, so that a buffer needs only its descriptor page.\<close>

definition one_gpu :: "unit gpu_ops" where
  "one_gpu = no_gpu\<lparr>gpu_available := \<lambda>_. True, gpu_alloc := \<lambda>_ _ g. (Some 1048576, g)\<rparr>"

theorem shared_buffer_destroy_safe_witness:
  "\<exists>x st st'. ipc_step one_gpu (ipc_init boot_ipc) st \<and> x \<in> set (buffers st) \<and>
    shared_buffer_destroy one_gpu 3 x st = Some (IPC_ERR_INVALID, st')"
proof -
  obtain s where s: "pmm_alloc_pages 1 tiny_heap = Some (8192, s)" using tiny_alloc by blast
  have p: "pmm (ipc_init boot_ipc) = tiny_heap" and q: "buffers (ipc_init boot_ipc) = 0 # replicate 63 0"
    by (simp_all add: ipc_init_def boot_ipc_def numeral_eq_Suc)
  have "\<exists>st. shared_buffer_create one_gpu 2 1 4 (ipc_init boot_ipc) = Some (8192, st) \<and>
      8192 \<in> set (buffers st) \<and> sb_owner (buffer_at st 8192) = 2"
    using s by (simp add: shared_buffer_create_def Let_def p q pmm_alloc_page_def gpu_try_def one_gpu_def)
  then obtain st where st: "shared_buffer_create one_gpu 2 1 4 (ipc_init boot_ipc) = Some (8192, st)"
    "8192 \<in> set (buffers st)" "sb_owner (buffer_at st 8192) = 2" by blast
  have step: "ipc_step one_gpu (ipc_init boot_ipc) st"
    using st(1) by (rule ipc_step.buffer_create[rotated]) (simp add: q)
  have "gpu_sane one_gpu" by (simp add: gpu_sane_def one_gpu_def)
  from shared_buffer_destroy_safe[OF r_into_rtranclp[of "ipc_step one_gpu", OF step] boot_valid this st(2), of 3] st step
  show ?thesis by auto
qed

end
