(* ===== verification/StealDeque.thy ===== *)
theory StealDeque
  imports Prelude "HOL-Library.Multiset"
begin

text \<open>
  The bounded work-stealing deque of a CPU (\<open>kernel/sched/steal_deque.c\<close>).

  The two indices are 32-bit words that only ever grow and may wrap; the array slot of an index is
  its low five bits.  A task is its number and \<open>None\<close> is \<open>NULL\<close>.  \<open>entries\<close> reads the live range as
  a list, oldest first, with the gaps that \<open>steal_deque_remove\<close> leaves behind; \<open>live\<close> drops the
  gaps.  The locale \<open>work_deque\<close> is the contract the scheduler uses, over \<open>live\<close> alone.
\<close>

section \<open>The code\<close>

abbreviation (input) STEAL_DEQUE_CAPACITY :: u32 where "STEAL_DEQUE_CAPACITY \<equiv> 32"
abbreviation (input) DEQUE_MASK :: u32 where "DEQUE_MASK \<equiv> 31"

record steal_deque =
  buf :: "u32 \<Rightarrow> nat option"
  gen_buf :: "u32 \<Rightarrow> u32"
  bottom :: u32
  top :: u32

definition steal_deque_init :: steal_deque where
  "steal_deque_init = \<lparr>buf = (\<lambda>_. None), gen_buf = (\<lambda>_. 0), bottom = 0, top = 0\<rparr>"

definition steal_deque_push :: "steal_deque \<Rightarrow> nat \<Rightarrow> u32 \<Rightarrow> int \<times> steal_deque" where
  "steal_deque_push d t generation =
     (if bottom d - top d \<ge> STEAL_DEQUE_CAPACITY then (-1, d)
      else let idx = bottom d AND DEQUE_MASK
           in (0, d\<lparr>buf := (buf d)(idx := Some t), gen_buf := (gen_buf d)(idx := generation), bottom := bottom d + 1\<rparr>))"

definition clear_slot :: "u32 \<Rightarrow> steal_deque \<Rightarrow> steal_deque" where
  "clear_slot idx d = d\<lparr>buf := (buf d)(idx := None), gen_buf := (gen_buf d)(idx := 0)\<rparr>"

lemma word_step_less:
  fixes a b :: u32
  assumes "a \<noteq> b"
  shows "unat (a - 1 - b) < unat (a - b)"
proof -
  have "a - b \<noteq> 0" using assms by simp
  then have "unat (a - b - 1) = unat (a - b) - 1" by (rule unat_minus_one)
  moreover have "0 < unat (a - b)" using \<open>a - b \<noteq> 0\<close> by (simp add: unat_gt_0)
  moreover have eq: "a - 1 - b = a - b - 1" by simp
  ultimately show ?thesis unfolding eq by linarith
qed

lemma word_step_less_top:
  fixes a b :: u32
  assumes "b \<noteq> a"
  shows "unat (a - (b + 1)) < unat (a - b)"
  using word_step_less[of a b] assms by (simp add: algebra_simps)

text \<open>\<open>NULL\<close> slots are skipped; the loops end when the two indices meet.\<close>

function steal_deque_pop :: "steal_deque \<Rightarrow> (nat \<times> u32) option \<times> steal_deque" where
  "steal_deque_pop d =
     (if bottom d \<noteq> top d
      then let idx = (bottom d - 1) AND DEQUE_MASK; d' = clear_slot idx (d\<lparr>bottom := bottom d - 1\<rparr>)
           in (case buf d idx of Some t \<Rightarrow> (Some (t, gen_buf d idx), d') | None \<Rightarrow> steal_deque_pop d')
      else (None, d))"
  by auto
termination
  by (relation "measure (\<lambda>d. unat (bottom d - top d))") (auto simp: clear_slot_def word_step_less)

function steal_deque_steal :: "steal_deque \<Rightarrow> (nat \<times> u32) option \<times> steal_deque" where
  "steal_deque_steal d =
     (if top d \<noteq> bottom d
      then let idx = top d AND DEQUE_MASK; d' = clear_slot idx (d\<lparr>top := top d + 1\<rparr>)
           in (case buf d idx of Some t \<Rightarrow> (Some (t, gen_buf d idx), d') | None \<Rightarrow> steal_deque_steal d')
      else (None, d))"
  by auto
termination
  by (relation "measure (\<lambda>d. unat (bottom d - top d))") (auto simp: clear_slot_def word_step_less_top)

definition steal_deque_size :: "steal_deque \<Rightarrow> u32" where
  "steal_deque_size d = bottom d - top d"

definition steal_deque_is_empty :: "steal_deque \<Rightarrow> bool" where
  "steal_deque_is_empty d \<longleftrightarrow> bottom d = top d"

function remove_from :: "u32 \<Rightarrow> steal_deque \<Rightarrow> nat \<Rightarrow> int \<times> steal_deque" where
  "remove_from i d t =
     (if i \<noteq> bottom d
      then if buf d (i AND DEQUE_MASK) = Some t then (1, clear_slot (i AND DEQUE_MASK) d)
           else remove_from (i + 1) d t
      else (0, d))"
  by auto
termination
  by (relation "measure (\<lambda>(i, d, t). unat (bottom d - i))") (auto simp: word_step_less_top)

definition steal_deque_remove :: "steal_deque \<Rightarrow> nat option \<Rightarrow> int \<times> steal_deque" where
  "steal_deque_remove d t = (case t of None \<Rightarrow> (0, d) | Some t \<Rightarrow> remove_from (top d) d t)"

declare steal_deque_pop.simps [simp del] steal_deque_steal.simps [simp del] remove_from.simps [simp del]

section \<open>The live range as a list\<close>

definition cell :: "steal_deque \<Rightarrow> u32 \<Rightarrow> nat option \<times> u32" where
  "cell d i = (buf d (i AND DEQUE_MASK), gen_buf d (i AND DEQUE_MASK))"

definition entries :: "steal_deque \<Rightarrow> (nat option \<times> u32) list" where
  "entries d = map (\<lambda>k. cell d (top d + of_nat k)) [0 ..< unat (bottom d - top d)]"

definition deque_inv :: "steal_deque \<Rightarrow> bool" where
  "deque_inv d \<longleftrightarrow> unat (bottom d - top d) \<le> 32"

lemma length_entries [simp]: "length (entries d) = unat (bottom d - top d)"
  by (simp add: entries_def)

text \<open>Fewer than 32 indices in a row have different slots.\<close>

lemma unat_slot: "unat (z AND DEQUE_MASK) = unat z mod 32" for z :: u32
proof -
  have "z AND DEQUE_MASK = take_bit 5 z" by (simp add: take_bit_eq_mask mask_eq_exp_minus_1)
  then have "unat (z AND DEQUE_MASK) = take_bit 5 (unat z)" by (simp only: unsigned_take_bit_eq)
  then show ?thesis by (simp add: take_bit_eq_mod)
qed

lemma unat_slot_add: "unat ((s + of_nat i) AND DEQUE_MASK) = (unat s + i) mod 32" for s :: u32
  by (simp add: unat_slot unat_word_ariths unat_of_nat mod_mod_cancel mod_add_right_eq)

lemma slots_differ:
  fixes s :: u32
  assumes "i < j" "j < 32"
  shows "(s + of_nat i) AND DEQUE_MASK \<noteq> (s + of_nat j) AND DEQUE_MASK"
proof
  assume "(s + of_nat i) AND DEQUE_MASK = (s + of_nat j) AND DEQUE_MASK"
  then have "(unat s + i) mod 32 = (unat s + j) mod 32" by (metis unat_slot_add)
  then have "i mod 32 = j mod 32" by (simp add: nat_mod_eq_iff)
  then show False using assms by simp
qed

section \<open>Each operation on the list\<close>

lemma entries_nth: "i < unat (bottom d - top d) \<Longrightarrow> entries d ! i = cell d (top d + of_nat i)"
  by (simp add: entries_def)

lemma entries_upt: "unat (bottom d - top d) = n \<Longrightarrow> entries d = map (\<lambda>k. cell d (top d + of_nat k)) [0 ..< n]"
  by (simp add: entries_def)

lemma init_entries: "deque_inv steal_deque_init" "entries steal_deque_init = []"
  by (simp_all add: steal_deque_init_def deque_inv_def entries_def)

lemma push_entries:
  assumes inv: "deque_inv d"
  shows "if length (entries d) < 32
    then \<exists>d'. steal_deque_push d t g = (0, d') \<and> deque_inv d' \<and> entries d' = entries d @ [(Some t, g)]
    else steal_deque_push d t g = (-1, d)"
proof -
  let ?n = "unat (bottom d - top d)"
  have full: "bottom d - top d \<ge> STEAL_DEQUE_CAPACITY \<longleftrightarrow> 32 \<le> ?n" by (simp add: word_le_nat_alt)
  show ?thesis
  proof (cases "?n < 32")
    case True
    define d' where "d' = snd (steal_deque_push d t g)"
    have p: "steal_deque_push d t g = (0, d')" using True full by (simp add: steal_deque_push_def d'_def Let_def)
    have f: "top d' = top d" "bottom d' = bottom d + 1" "buf d' = (buf d)(bottom d AND DEQUE_MASK := Some t)"
      "gen_buf d' = (gen_buf d)(bottom d AND DEQUE_MASK := g)"
      using True full by (simp_all add: steal_deque_push_def d'_def Let_def)
    have b: "bottom d = top d + of_nat ?n" by simp
    have n': "unat (bottom d' - top d') = Suc ?n"
    proof -
      have "bottom d' - top d' = (bottom d - top d) + 1" by (simp add: f)
      then show ?thesis using True by (simp add: unat_word_ariths)
    qed
    have old: "cell d' (top d + of_nat i) = cell d (top d + of_nat i)" if "i < ?n" for i
      using slots_differ[of i ?n "top d"] that True b by (simp add: cell_def f)
    have new: "cell d' (top d + of_nat ?n) = (Some t, g)" by (simp add: cell_def f)
    have "entries d' = entries d @ [(Some t, g)]"
      using old new unfolding entries_upt[OF n'] entries_upt[OF refl, of d] f(1) by simp
    moreover have "deque_inv d'" using True n' by (simp add: deque_inv_def)
    ultimately show ?thesis using p True by auto
  next
    case False
    then show ?thesis using full by (simp add: steal_deque_push_def)
  qed
qed

text \<open>What clearing and shrinking at either end does.\<close>

lemma clear_top:
  assumes inv: "deque_inv d" and ne: "top d \<noteq> bottom d"
  shows "deque_inv (clear_slot (top d AND DEQUE_MASK) (d\<lparr>top := top d + 1\<rparr>))"
    "entries d = cell d (top d) # entries (clear_slot (top d AND DEQUE_MASK) (d\<lparr>top := top d + 1\<rparr>))"
proof -
  let ?d = "clear_slot (top d AND DEQUE_MASK) (d\<lparr>top := top d + 1\<rparr>)" and ?n = "unat (bottom d - top d)"
  have n0: "bottom d - top d \<noteq> 0" using ne by simp
  then have n: "0 < ?n" by (simp add: unat_gt_0)
  have f: "top ?d = top d + 1" "bottom ?d = bottom d" by (simp_all add: clear_slot_def)
  obtain m where m: "?n = Suc m" using n by (cases ?n) auto
  have n': "unat (bottom ?d - top ?d) = m"
  proof -
    have "bottom ?d - top ?d = bottom d - top d - 1" by (simp add: f)
    then show ?thesis using unat_minus_one[OF n0] m by simp
  qed
  show "deque_inv ?d" using inv n' m by (simp add: deque_inv_def)
  have "cell ?d (top d + 1 + of_nat i) = cell d (top d + of_nat (Suc i))" if "i < m" for i
    using slots_differ[of 0 "Suc i" "top d"] that inv m by (simp add: cell_def clear_slot_def deque_inv_def add.assoc)
  then show "entries d = cell d (top d) # entries ?d"
    unfolding entries_upt[OF m] entries_upt[OF n'] f(1) map_upt_Suc by simp
qed

lemma clear_bottom:
  assumes inv: "deque_inv d" and ne: "bottom d \<noteq> top d"
  shows "deque_inv (clear_slot ((bottom d - 1) AND DEQUE_MASK) (d\<lparr>bottom := bottom d - 1\<rparr>))"
    "entries d = entries (clear_slot ((bottom d - 1) AND DEQUE_MASK) (d\<lparr>bottom := bottom d - 1\<rparr>)) @ [cell d (bottom d - 1)]"
proof -
  let ?d = "clear_slot ((bottom d - 1) AND DEQUE_MASK) (d\<lparr>bottom := bottom d - 1\<rparr>)" and ?n = "unat (bottom d - top d)"
  have n0: "bottom d - top d \<noteq> 0" using ne by simp
  then have n: "0 < ?n" by (simp add: unat_gt_0)
  have f: "top ?d = top d" "bottom ?d = bottom d - 1" by (simp_all add: clear_slot_def)
  obtain m where m: "?n = Suc m" using n by (cases ?n) auto
  have n': "unat (bottom ?d - top ?d) = m"
  proof -
    have "bottom ?d - top ?d = bottom d - top d - 1" by (simp add: f)
    then show ?thesis using unat_minus_one[OF n0] m by simp
  qed
  show "deque_inv ?d" using inv n' m by (simp add: deque_inv_def)
  have "bottom d = top d + of_nat (Suc m)" unfolding m[symmetric] by simp
  then have b: "bottom d - 1 = top d + of_nat m" by simp
  have "cell ?d (top d + of_nat i) = cell d (top d + of_nat i)" if "i < m" for i
    using slots_differ[of i m "top d"] that inv m unfolding cell_def clear_slot_def b by (simp add: deque_inv_def)
  then show "entries d = entries ?d @ [cell d (bottom d - 1)]"
    unfolding entries_upt[OF m] entries_upt[OF n'] f(1) by (simp add: b)
qed

section \<open>Live tasks\<close>

fun live_of :: "(nat option \<times> u32) list \<Rightarrow> (nat \<times> u32) list" where
  "live_of [] = []"
| "live_of ((Some t, g) # es) = (t, g) # live_of es"
| "live_of ((None, g) # es) = live_of es"

definition live :: "steal_deque \<Rightarrow> (nat \<times> u32) list" where
  "live d = live_of (entries d)"

lemma live_of_append [simp]: "live_of (xs @ ys) = live_of xs @ live_of ys"
  by (induction xs rule: live_of.induct) auto

lemma live_of_single: "live_of [(c, g)] = (case c of None \<Rightarrow> [] | Some t \<Rightarrow> [(t, g)])"
  by (cases c) auto

lemma live_length: "length (live_of es) \<le> length es"
  by (induction es rule: live_of.induct) auto

lemma steal_live:
  "deque_inv d \<Longrightarrow> \<exists>d'. steal_deque_steal d = (case live d of [] \<Rightarrow> None | x # _ \<Rightarrow> Some x, d') \<and>
    deque_inv d' \<and> live d' = tl (live d)"
proof (induction d rule: steal_deque_steal.induct)
  case (1 d)
  show ?case
  proof (cases "top d = bottom d")
    case True
    then have "live d = []" by (simp add: live_def entries_def)
    then show ?thesis using True 1(2) by (subst steal_deque_steal.simps) simp
  next
    case False
    let ?d = "clear_slot (top d AND DEQUE_MASK) (d\<lparr>top := top d + 1\<rparr>)"
    note c = clear_top[OF 1(2) False]
    show ?thesis
    proof (cases "buf d (top d AND DEQUE_MASK)")
      case None
      then have l: "live d = live ?d" by (simp add: live_def c(2) cell_def)
      have p: "steal_deque_steal d = steal_deque_steal ?d"
        using False None by (subst steal_deque_steal.simps) (simp add: Let_def)
      show ?thesis unfolding l p by (rule 1(1)[OF False refl refl None c(1)])
    next
      case (Some t)
      then have "live d = (t, gen_buf d (top d AND DEQUE_MASK)) # live ?d" by (simp add: live_def c(2) cell_def)
      then show ?thesis using False Some c(1) by (subst steal_deque_steal.simps) (simp add: Let_def)
    qed
  qed
qed

lemma pop_live:
  "deque_inv d \<Longrightarrow> \<exists>d'. steal_deque_pop d = (if live d = [] then None else Some (last (live d)), d') \<and>
    deque_inv d' \<and> live d' = butlast (live d)"
proof (induction d rule: steal_deque_pop.induct)
  case (1 d)
  show ?case
  proof (cases "bottom d = top d")
    case True
    then have "live d = []" by (simp add: live_def entries_def)
    then show ?thesis using True 1(2) by (subst steal_deque_pop.simps) simp
  next
    case False
    let ?i = "(bottom d - 1) AND DEQUE_MASK"
    let ?d = "clear_slot ?i (d\<lparr>bottom := bottom d - 1\<rparr>)"
    note c = clear_bottom[OF 1(2) False]
    show ?thesis
    proof (cases "buf d ?i")
      case None
      then have l: "live d = live ?d" by (simp add: live_def c(2) cell_def)
      have p: "steal_deque_pop d = steal_deque_pop ?d"
        using False None by (subst steal_deque_pop.simps) (simp add: Let_def)
      show ?thesis unfolding l p by (rule 1(1)[OF False refl refl None c(1)])
    next
      case (Some t)
      then have "live d = live ?d @ [(t, gen_buf d ?i)]" by (simp add: live_def c(2) cell_def)
      then show ?thesis using False Some c(1) by (subst steal_deque_pop.simps) (simp add: Let_def)
    qed
  qed
qed

text \<open>Clearing one entry inside the live range.\<close>

lemma live_of_set: "(t, g) \<in> set (live_of es) \<longleftrightarrow> (Some t, g) \<in> set es"
  by (induction es rule: live_of.induct) auto

lemma clear_inner:
  assumes inv: "deque_inv d" and k: "k < unat (bottom d - top d)"
  shows "deque_inv (clear_slot ((top d + of_nat k) AND DEQUE_MASK) d)"
    "entries (clear_slot ((top d + of_nat k) AND DEQUE_MASK) d) = (entries d)[k := (None, 0)]"
proof -
  let ?d = "clear_slot ((top d + of_nat k) AND DEQUE_MASK) d"
  have f: "top ?d = top d" "bottom ?d = bottom d" by (simp_all add: clear_slot_def)
  show "deque_inv ?d" using inv by (simp add: deque_inv_def f)
  have "cell ?d (top d + of_nat i) = (if i = k then (None, 0) else cell d (top d + of_nat i))" if "i < unat (bottom d - top d)" for i
    using slots_differ[of i k "top d"] slots_differ[of k i "top d"] that k inv
    by (cases i k rule: linorder_cases) (auto simp: cell_def clear_slot_def deque_inv_def)
  then show "entries ?d = (entries d)[k := (None, 0)]"
    by (intro nth_equalityI) (simp_all add: f entries_nth nth_list_update)
qed

text \<open>\<open>remove_from\<close> clears the first entry from an index on that holds the task.\<close>

lemma remove_from_live:
  assumes inv: "deque_inv d" and k: "k \<le> unat (bottom d - top d)"
    and none: "t \<notin> fst ` set (live_of (take k (entries d)))"
  shows "\<exists>r d'. remove_from (top d + of_nat k) d t = (r, d') \<and> deque_inv d' \<and>
    (if t \<in> fst ` set (live d)
     then r = 1 \<and> (\<exists>g xs ys. live d = xs @ (t, g) # ys \<and> t \<notin> fst ` set xs \<and> live d' = xs @ ys)
     else r = 0 \<and> d' = d)"
  using k none
proof (induction "unat (bottom d - top d) - k" arbitrary: k)
  case 0
  then have k: "k = unat (bottom d - top d)" by simp
  then have "remove_from (top d + of_nat k) d t = (0, d)" by (subst remove_from.simps) simp
  moreover have "t \<notin> fst ` set (live d)" using 0(3) k by (simp add: live_def)
  ultimately show ?case using inv by simp
next
  case (Suc n)
  let ?es = "entries d" and ?i = "(top d + of_nat k) AND DEQUE_MASK"
  have k: "k < unat (bottom d - top d)" using Suc(2) by simp
  have e: "?es ! k = (buf d ?i, gen_buf d ?i)" using k by (simp add: entries_nth cell_def)
  have split: "?es = take k ?es @ ?es ! k # drop (Suc k) ?es" using k by (simp add: id_take_nth_drop)
  have ne: "top d + of_nat k \<noteq> bottom d"
  proof
    assume "top d + of_nat k = bottom d"
    then have "bottom d - top d = of_nat k" by (metis add_diff_cancel_left')
    then show False using k le_unat_uoi[of k "bottom d - top d"] by simp
  qed
  show ?case
  proof (cases "buf d ?i = Some t")
    case True
    let ?d = "clear_slot ?i d"
    have r: "remove_from (top d + of_nat k) d t = (1, ?d)" using True ne by (subst remove_from.simps) simp
    have l: "live d = live_of (take k ?es) @ (t, gen_buf d ?i) # live_of (drop (Suc k) ?es)"
      unfolding live_def by (subst split) (simp add: e True)
    have "entries ?d = take k ?es @ (None, 0) # drop (Suc k) ?es"
      using clear_inner(2)[OF inv k] k by (simp add: upd_conv_take_nth_drop)
    then have l': "live ?d = live_of (take k ?es) @ live_of (drop (Suc k) ?es)" by (simp add: live_def)
    have "\<exists>g xs ys. live d = xs @ (t, g) # ys \<and> t \<notin> fst ` set xs \<and> live ?d = xs @ ys"
      using l l' Suc(4) by blast
    moreover have "t \<in> fst ` set (live d)" using l by force
    ultimately show ?thesis using r clear_inner(1)[OF inv k] by simp
  next
    case False
    have step: "remove_from (top d + of_nat k) d t = remove_from (top d + of_nat (Suc k)) d t"
      using False ne by (subst remove_from.simps) (simp add: add.commute add.left_commute)
    have "t \<notin> fst ` set (live_of (take (Suc k) ?es))"
      using Suc(4) k False e by (auto simp: take_Suc_conv_app_nth live_of_single split: option.splits)
    then show ?thesis unfolding step using Suc(1)[of "Suc k"] Suc(2) k by simp
  qed
qed

section \<open>The contract of a work deque\<close>

text \<open>
  The clients see a list of tasks with their generations.  A push may be refused, but never below
  capacity while nothing was removed in the middle; \<open>take_back\<close> is the owner's end and \<open>take_front\<close>
  the thieves' end.
\<close>

locale work_deque =
  fixes content :: "'d \<Rightarrow> (nat \<times> u32) list"
    and ok :: "'d \<Rightarrow> bool"
    and push :: "'d \<Rightarrow> nat \<Rightarrow> u32 \<Rightarrow> int \<times> 'd"
    and take_back :: "'d \<Rightarrow> (nat \<times> u32) option \<times> 'd"
    and take_front :: "'d \<Rightarrow> (nat \<times> u32) option \<times> 'd"
    and drop_task :: "'d \<Rightarrow> nat option \<Rightarrow> int \<times> 'd"
  assumes push_law: "ok d \<Longrightarrow> push d t g = (r, d') \<Longrightarrow>
      ok d' \<and> (if r = 0 then content d' = content d @ [(t, g)] else d' = d)"
    and back_law: "ok d \<Longrightarrow> take_back d = (x, d') \<Longrightarrow>
      ok d' \<and> (if content d = [] then x = None else x = Some (last (content d))) \<and> content d' = butlast (content d)"
    and front_law: "ok d \<Longrightarrow> take_front d = (x, d') \<Longrightarrow>
      ok d' \<and> (if content d = [] then x = None else x = Some (hd (content d))) \<and> content d' = tl (content d)"
    and drop_law: "ok d \<Longrightarrow> drop_task d (Some t) = (r, d') \<Longrightarrow> ok d' \<and>
      (if t \<in> fst ` set (content d)
       then r = 1 \<and> (\<exists>g xs ys. content d = xs @ (t, g) # ys \<and> t \<notin> fst ` set xs \<and> content d' = xs @ ys)
       else r = 0 \<and> content d' = content d)"
begin

text \<open>A run of the deque: everything pushed, taken by the owner, taken by thieves, and dropped.\<close>

inductive run :: "'d \<Rightarrow> (nat \<times> u32) list \<Rightarrow> (nat \<times> u32) list \<Rightarrow> (nat \<times> u32) list \<Rightarrow> 'd \<Rightarrow> bool" for d0 where
  start: "run d0 [] [] [] d0"
| pushed: "run d0 ps os ts d \<Longrightarrow> push d t g = (0, d') \<Longrightarrow> run d0 (ps @ [(t, g)]) os ts d'"
| refused: "run d0 ps os ts d \<Longrightarrow> push d t g = (r, d') \<Longrightarrow> r \<noteq> 0 \<Longrightarrow> run d0 ps os ts d'"
| popped: "run d0 ps os ts d \<Longrightarrow> take_back d = (Some x, d') \<Longrightarrow> run d0 ps (os @ [x]) ts d'"
| stolen: "run d0 ps os ts d \<Longrightarrow> take_front d = (Some x, d') \<Longrightarrow> run d0 ps os (ts @ [x]) d'"
| dropped: "run d0 ps os ts d \<Longrightarrow> drop_task d (Some t) = (r, d') \<Longrightarrow> run d0 ps os ts d'"

lemma run_ok: "run d0 ps os ts d \<Longrightarrow> ok d0 \<Longrightarrow> ok d"
proof (induction rule: run.induct)
  case (pushed ps os ts d t g d')
  show ?case using push_law[OF pushed(3)[OF pushed(4)] pushed(2)] by simp
next
  case (refused ps os ts d t g r d')
  show ?case using push_law[OF refused(4)[OF refused(5)] refused(2)] by simp
next
  case (popped ps os ts d x d')
  show ?case using back_law[OF popped(3)[OF popped(4)] popped(2)] by simp
next
  case (stolen ps os ts d x d')
  show ?case using front_law[OF stolen(3)[OF stolen(4)] stolen(2)] by simp
next
  case (dropped ps os ts d t r d')
  show ?case using drop_law[OF dropped(3)[OF dropped(4)] dropped(2)] by simp
qed

text \<open>What went in and was neither taken nor dropped is still there, and nothing comes out twice.\<close>

lemma run_conservation:
  assumes "run d0 ps os ts d" "ok d0" "content d0 = []"
  shows "mset os + mset ts + mset (content d) \<subseteq># mset ps"
  using assms
proof (induction rule: run.induct)
  case (pushed ps os ts d t g d')
  have "content d' = content d @ [(t, g)]" using push_law[OF run_ok[OF pushed(1,4)] pushed(2)] by simp
  then show ?case using pushed by (simp add: ac_simps)
next
  case (refused ps os ts d t g r d')
  have "d' = d" using push_law[OF run_ok[OF refused(1,5)] refused(2)] refused(3) by simp
  then show ?case using refused by simp
next
  case (popped ps os ts d x d')
  have b: "content d' = butlast (content d)" "content d \<noteq> []" "x = last (content d)"
    using back_law[OF run_ok[OF popped(1,4)] popped(2)] by (auto split: if_splits)
  then have "mset (content d) = add_mset x (mset (content d'))"
    by (metis append_butlast_last_id mset_append mset.simps add_mset_add_single)
  then show ?case using popped by (simp add: ac_simps)
next
  case (stolen ps os ts d x d')
  have b: "content d' = tl (content d)" "content d \<noteq> []" "x = hd (content d)"
    using front_law[OF run_ok[OF stolen(1,4)] stolen(2)] by (auto split: if_splits)
  then have "mset (content d) = add_mset x (mset (content d'))" by (cases "content d") auto
  then show ?case using stolen by (simp add: ac_simps)
next
  case (dropped ps os ts d t r d')
  have "mset (content d') \<subseteq># mset (content d)"
    using drop_law[OF run_ok[OF dropped(1,4)] dropped(2)] by (auto split: if_splits)
  then show ?case using dropped by (meson subset_mset.add_left_mono subset_mset.order_trans)
qed simp

end

interpretation sd: work_deque live deque_inv steal_deque_push steal_deque_pop steal_deque_steal steal_deque_remove
proof unfold_locales
  fix d d' :: steal_deque and t g r r' q
  assume d: "deque_inv d"
  show "deque_inv d' \<and> (if r = 0 then live d' = live d @ [(t, g)] else d' = d)" if "steal_deque_push d t g = (r, d')"
    using push_entries[OF d, of t g] that d by (auto simp: live_def split: if_splits)
  show "deque_inv d' \<and> (if live d = [] then r' = None else r' = Some (last (live d))) \<and> live d' = butlast (live d)"
    if "steal_deque_pop d = (r', d')" using pop_live[OF d] that by auto
  show "deque_inv d' \<and> (if live d = [] then q = None else q = Some (hd (live d))) \<and> live d' = tl (live d)"
    if "steal_deque_steal d = (q, d')" using steal_live[OF d] that by (cases "live d") auto
  show "deque_inv d' \<and> (if t \<in> fst ` set (live d)
       then r = 1 \<and> (\<exists>g xs ys. live d = xs @ (t, g) # ys \<and> t \<notin> fst ` set xs \<and> live d' = xs @ ys)
       else r = 0 \<and> live d' = live d)" if "steal_deque_remove d (Some t) = (r, d')"
    using remove_from_live[OF d, of 0 t] that by (auto simp: steal_deque_remove_def)
qed

end
