(* ===== verification/SchedState.thy ===== *)
theory SchedState
  imports StealDeque
begin

text \<open>
  Scheduler state, effective priorities and run queues (\<open>kernel/sched/sched.c\<close>, \<open>kernel/sched/task.c\<close>,
  \<open>kernel/include/task.h\<close>, \<open>kernel/include/sched.h\<close>).

  A task is the number of its slot in the task table.  A run queue is the list of its tasks from
  head to tail.  The run-queue lock makes each function below atomic.  The current time is an
  argument.  Functions that return at once on a \<open>NULL\<close> task are modelled on a task that exists.
  The AI build is modelled; the build without it is the case in which no task has an AI level.  Cache
  maintenance, notification of other CPUs, diagnostic counters and tracing are left out.
\<close>

section \<open>Tasks\<close>

abbreviation (input) MAX_CPUS :: nat where "MAX_CPUS \<equiv> 8"
abbreviation (input) CPU_AFFINITY_ANY :: nat where "CPU_AFFINITY_ANY \<equiv> 4294967295"
abbreviation (input) TASK_PRIORITY_IDLE :: nat where "TASK_PRIORITY_IDLE \<equiv> 0"
abbreviation (input) TASK_PRIORITY_LOW :: nat where "TASK_PRIORITY_LOW \<equiv> 2"
abbreviation (input) TASK_PRIORITY_NORMAL :: nat where "TASK_PRIORITY_NORMAL \<equiv> 4"
abbreviation (input) TASK_PRIORITY_HIGH :: nat where "TASK_PRIORITY_HIGH \<equiv> 6"
abbreviation (input) TASK_PRIORITY_CRITICAL :: nat where "TASK_PRIORITY_CRITICAL \<equiv> 7"
abbreviation (input) TASK_PRIORITY_MAX :: nat where "TASK_PRIORITY_MAX \<equiv> 7"
abbreviation (input) TASK_AI_PRIORITY_NONE :: nat where "TASK_AI_PRIORITY_NONE \<equiv> 255"

datatype task_state = TASK_READY | TASK_RUNNING | TASK_BLOCKED | TASK_TERMINATED | TASK_DESTROYED

record task =
  t_id :: nat
  t_state :: task_state
  cpu_affinity :: nat
  assigned_cpu :: nat
  t_priority :: nat
  effective_priority :: nat
  pi_priority :: nat
  pi_mutexes_held :: nat
  deadline_ns :: nat
  wake_time_ns :: nat
  t_switches :: nat
  t_idle :: bool
  wakeup_pending :: bool
  t_generation :: u32
  ai_priority :: nat

record cpu_runqueue =
  rq_tasks :: "nat list"
  idle_task :: "nat option"
  zombie :: "nat option"
  ready_count :: nat

record deadline_thresholds =
  critical_ns :: nat
  high_ns :: nat
  boost_ns :: nat

definition sched_set_default_deadline_thresholds :: deadline_thresholds where
  "sched_set_default_deadline_thresholds =
     \<lparr>critical_ns = 10 * 1000000, high_ns = 50 * 1000000, boost_ns = 100 * 1000000\<rparr>"

record sched_state =
  tcb :: "nat \<Rightarrow> task"
  next_task_id :: nat
  cpu_rq :: "nat \<Rightarrow> cpu_runqueue"
  current_task :: "nat \<Rightarrow> nat option"
  cpu_steal_deques :: "nat \<Rightarrow> steal_deque"
  preempt_disabled :: "nat \<Rightarrow> bool"
  task_count :: nat
  context_switches :: nat
  timer_ticks :: nat
  isolated_cores :: u32
  cpu_count :: nat
  ai_priority_actions :: bool
  deadline_cfg :: deadline_thresholds
  rr_next :: nat
  rebalance_tick_counter :: nat
  rebalance_migrations :: nat
  sleep_queue :: "nat list"

definition upd_task :: "nat \<Rightarrow> (task \<Rightarrow> task) \<Rightarrow> sched_state \<Rightarrow> sched_state" where
  "upd_task t f s = s\<lparr>tcb := (tcb s)(t := f (tcb s t))\<rparr>"

definition upd_rq :: "nat \<Rightarrow> (cpu_runqueue \<Rightarrow> cpu_runqueue) \<Rightarrow> sched_state \<Rightarrow> sched_state" where
  "upd_rq cpu f s = s\<lparr>cpu_rq := (cpu_rq s)(cpu := f (cpu_rq s cpu))\<rparr>"

definition set_state :: "nat \<Rightarrow> task_state \<Rightarrow> sched_state \<Rightarrow> sched_state" where
  "set_state t st s = upd_task t (\<lambda>x. x\<lparr>t_state := st\<rparr>) s"

section \<open>Effective priority\<close>

definition effective_base_priority :: "sched_state \<Rightarrow> nat \<Rightarrow> nat" where
  "effective_base_priority s t =
     (if ai_priority_actions s \<and> ai_priority (tcb s t) \<noteq> TASK_AI_PRIORITY_NONE
      then ai_priority (tcb s t) else t_priority (tcb s t))"

definition set_effective_priority :: "nat \<Rightarrow> nat \<Rightarrow> sched_state \<Rightarrow> sched_state" where
  "set_effective_priority t priority s =
     upd_task t (\<lambda>x. x\<lparr>effective_priority := (if pi_priority x > priority then pi_priority x else priority)\<rparr>) s"

definition boosted_priority :: "nat \<Rightarrow> sched_state \<Rightarrow> nat \<Rightarrow> nat" where
  "boosted_priority now s t =
     (let base = effective_base_priority s t; cfg = deadline_cfg s; dl = deadline_ns (tcb s t)
      in if now \<ge> dl then TASK_PRIORITY_CRITICAL
         else let remaining = dl - now
              in if remaining < critical_ns cfg then TASK_PRIORITY_CRITICAL
                 else if remaining < high_ns cfg then (if base > TASK_PRIORITY_HIGH then base else TASK_PRIORITY_HIGH)
                 else if remaining < boost_ns cfg then (if base < TASK_PRIORITY_MAX then base + 1 else TASK_PRIORITY_MAX)
                 else base)"

definition update_deadline_boost :: "nat \<Rightarrow> nat \<Rightarrow> sched_state \<Rightarrow> sched_state" where
  "update_deadline_boost now t s =
     (if deadline_ns (tcb s t) = 0 then set_effective_priority t (effective_base_priority s t) s
      else set_effective_priority t (boosted_priority now s t) s)"

definition sched_refresh_effective_priority :: "nat \<Rightarrow> nat \<Rightarrow> sched_state \<Rightarrow> sched_state" where
  "sched_refresh_effective_priority now t s = update_deadline_boost now t s"

text \<open>One step between priority levels, chosen by the AI policy (0 lower, 1 keep, 2 raise).\<close>

abbreviation (input) AI_PRIO_LOWER :: nat where "AI_PRIO_LOWER \<equiv> 0"
abbreviation (input) AI_PRIO_RAISE :: nat where "AI_PRIO_RAISE \<equiv> 2"

definition priority_levels :: "nat list" where
  "priority_levels = [TASK_PRIORITY_IDLE, TASK_PRIORITY_LOW, TASK_PRIORITY_NORMAL, TASK_PRIORITY_HIGH, TASK_PRIORITY_CRITICAL]"

fun highest_level :: "nat \<Rightarrow> nat \<Rightarrow> nat list \<Rightarrow> nat \<Rightarrow> nat" where
  "highest_level i idx [] cur = idx"
| "highest_level i idx (l # ls) cur = highest_level (Suc i) (if l \<le> cur then i else idx) ls cur"

definition sched_ai_step_priority :: "nat \<Rightarrow> nat \<Rightarrow> nat" where
  "sched_ai_step_priority cur priority_adj =
     (if priority_adj \<noteq> AI_PRIO_LOWER \<and> priority_adj \<noteq> AI_PRIO_RAISE then cur
      else let n = length priority_levels; idx = highest_level 0 0 priority_levels cur;
               idx' = (if priority_adj = AI_PRIO_LOWER then (if idx > 0 then idx - 1 else 0)
                       else (if idx < n - 1 then idx + 1 else n - 1))
           in priority_levels ! idx')"

definition sched_ai_apply_priority_action :: "nat \<Rightarrow> nat \<Rightarrow> sched_state \<Rightarrow> sched_state" where
  "sched_ai_apply_priority_action t priority_adj s =
     (if \<not> ai_priority_actions s then s
      else if pi_priority (tcb s t) > effective_base_priority s t then s
      else upd_task t (\<lambda>x. x\<lparr>ai_priority := sched_ai_step_priority (effective_priority x) priority_adj\<rparr>) s)"

definition task_set_priority :: "nat \<Rightarrow> nat \<Rightarrow> sched_state \<Rightarrow> sched_state" where
  "task_set_priority t priority s =
     (let p = (if priority > TASK_PRIORITY_MAX then TASK_PRIORITY_MAX else priority)
      in upd_task t (\<lambda>x. x\<lparr>t_priority := p, ai_priority := TASK_AI_PRIORITY_NONE,
                           effective_priority := (if effective_priority x < p then p else effective_priority x)\<rparr>) s)"

definition task_set_deadline :: "nat \<Rightarrow> nat \<Rightarrow> sched_state \<Rightarrow> sched_state" where
  "task_set_deadline t deadline s = upd_task t (\<lambda>x. x\<lparr>deadline_ns := deadline\<rparr>) s"

section \<open>Run queues\<close>

text \<open>The position of a task in a queue: behind every task of at least its priority.\<close>

fun insert_task :: "(nat \<Rightarrow> nat) \<Rightarrow> nat \<Rightarrow> nat list \<Rightarrow> nat list" where
  "insert_task prio t [] = [t]"
| "insert_task prio t (x # xs) = (if prio x \<ge> prio t then x # insert_task prio t xs else t # x # xs)"

definition eprio :: "sched_state \<Rightarrow> nat \<Rightarrow> nat" where
  "eprio s t = effective_priority (tcb s t)"

definition add_to_cpu_queue_locked :: "nat \<Rightarrow> nat \<Rightarrow> nat \<Rightarrow> sched_state \<Rightarrow> sched_state" where
  "add_to_cpu_queue_locked now t cpu s =
     (let s1 = update_deadline_boost now t (upd_task t (\<lambda>x. x\<lparr>assigned_cpu := cpu\<rparr>) s)
      in upd_rq cpu (\<lambda>rq. rq\<lparr>rq_tasks := insert_task (eprio s1) t (rq_tasks rq),
                              ready_count := u32_add (ready_count rq) 1\<rparr>) s1)"

text \<open>The search for a task in a queue; the queue without it when it is there.\<close>

fun unlink_task :: "nat \<Rightarrow> nat list \<Rightarrow> nat list option" where
  "unlink_task t [] = None"
| "unlink_task t (x # xs) = (if x = t then Some xs else map_option ((#) x) (unlink_task t xs))"

definition remove_from_cpu_queue_locked :: "nat \<Rightarrow> nat \<Rightarrow> sched_state \<Rightarrow> bool \<times> sched_state" where
  "remove_from_cpu_queue_locked t cpu s =
     (case unlink_task t (rq_tasks (cpu_rq s cpu)) of
        Some q \<Rightarrow> (True, upd_rq cpu (\<lambda>rq. rq\<lparr>rq_tasks := q, ready_count := u32_sub (ready_count rq) 1\<rparr>) s)
      | None \<Rightarrow> (False, s))"

lemma unlink_task_eq: "unlink_task t xs = (if t \<in> set xs then Some (remove1 t xs) else None)"
  by (induction xs) auto

definition sched_runqueue_clear :: "nat \<Rightarrow> sched_state \<Rightarrow> sched_state" where
  "sched_runqueue_clear cpu s = upd_rq cpu (\<lambda>_. \<lparr>rq_tasks = [], idle_task = None, zombie = None, ready_count = 0\<rparr>) s"

definition sched_drain_cpu_runqueue :: "nat \<Rightarrow> sched_state \<Rightarrow> sched_state" where
  "sched_drain_cpu_runqueue cpu s =
     (if cpu \<ge> MAX_CPUS then s
      else upd_rq cpu (\<lambda>rq. rq\<lparr>rq_tasks := [], ready_count := 0, zombie := None\<rparr>) s)"

definition core_isolated :: "sched_state \<Rightarrow> nat \<Rightarrow> bool" where
  "core_isolated s cpu \<longleftrightarrow> isolated_cores s AND push_bit cpu 1 \<noteq> 0"

definition sched_isolate_core :: "nat \<Rightarrow> sched_state \<Rightarrow> int \<times> sched_state" where
  "sched_isolate_core cpu s =
     (if cpu \<ge> cpu_count s then (-1, s)
      else if cpu = 0 then (-1, s)
      else (0, s\<lparr>isolated_cores := isolated_cores s OR push_bit cpu 1\<rparr>))"

definition sched_unisolate_core :: "nat \<Rightarrow> sched_state \<Rightarrow> int \<times> sched_state" where
  "sched_unisolate_core cpu s =
     (if cpu \<ge> cpu_count s then (-1, s)
      else (0, s\<lparr>isolated_cores := isolated_cores s AND NOT (push_bit cpu 1)\<rparr>))"

definition sched_is_core_isolated :: "nat \<Rightarrow> sched_state \<Rightarrow> bool" where
  "sched_is_core_isolated cpu s \<longleftrightarrow> cpu < cpu_count s \<and> core_isolated s cpu"

text \<open>\<open>scheduler_get_stats\<close>: task count, context switches, ticks and the sum of the ready counts.\<close>

definition scheduler_get_stats :: "sched_state \<Rightarrow> nat \<times> nat \<times> nat \<times> nat" where
  "scheduler_get_stats s =
     (task_count s, context_switches s, timer_ticks s,
      fold (\<lambda>i a. u32_add a (ready_count (cpu_rq s i))) [0 ..< cpu_count s] 0)"

end
