(* ===== verification/SchedOps.thy ===== *)
theory SchedOps
  imports SchedState
begin

text \<open>
  Placement, removal, migration, stealing, rebalancing and dispatch (\<open>kernel/sched/sched.c\<close>), the
  heuristic policy (\<open>kernel/sched/sched_heuristic.c\<close>), the life cycle of task slots
  (\<open>kernel/sched/task.c\<close>) and sleeping (\<open>kernel/sched/task_sleep.c\<close>).

  \<open>None\<close> is a panic or a dereference of \<open>NULL\<close>.  \<open>schedule\<close> runs from its entry to the moment the
  task it switched to continues, with the new current task in the result.  The active policy is the
  heuristic policy.
\<close>

section \<open>The heuristic policy\<close>

abbreviation (input) DEADLINE_CRITICAL_NS :: nat where "DEADLINE_CRITICAL_NS \<equiv> 10000000"
abbreviation (input) DEADLINE_HIGH_NS :: nat where "DEADLINE_HIGH_NS \<equiv> 50000000"
abbreviation (input) DEADLINE_BOOST_NS :: nat where "DEADLINE_BOOST_NS \<equiv> 100000000"

definition task_pressure :: "nat \<Rightarrow> task \<Rightarrow> nat" where
  "task_pressure now t =
     (if deadline_ns t > 0
      then if now \<ge> deadline_ns t then 8
           else let remaining = deadline_ns t - now
                in if remaining < DEADLINE_CRITICAL_NS then 8
                   else if remaining < DEADLINE_HIGH_NS then 4
                   else if remaining < DEADLINE_BOOST_NS then 2
                   else 1
      else 0)"

definition calculate_deadline_pressure :: "nat \<Rightarrow> nat \<Rightarrow> sched_state \<Rightarrow> nat" where
  "calculate_deadline_pressure now cpu s =
     fold (\<lambda>t p. u32_add p (task_pressure now (tcb s t))) (rq_tasks (cpu_rq s cpu)) 0"

definition cpu_score :: "nat \<Rightarrow> nat \<Rightarrow> sched_state \<Rightarrow> nat" where
  "cpu_score now cpu s = u32_add (ready_count (cpu_rq s cpu)) (calculate_deadline_pressure now cpu s)"

text \<open>The scan for the lowest score below the best one so far, over CPUs that are not isolated.\<close>

fun best_cpu_scan :: "nat \<Rightarrow> sched_state \<Rightarrow> nat list \<Rightarrow> nat \<times> nat \<times> bool \<Rightarrow> nat \<times> nat \<times> bool" where
  "best_cpu_scan now s [] acc = acc"
| "best_cpu_scan now s (cpu # cpus) (best_cpu, best_score, found) =
     best_cpu_scan now s cpus
       (if core_isolated s cpu then (best_cpu, best_score, found)
        else if cpu_score now cpu s < best_score then (cpu, cpu_score now cpu s, True)
        else (best_cpu, best_score, found))"

definition find_target_cpu :: "nat \<Rightarrow> sched_state \<Rightarrow> nat \<times> sched_state" where
  "find_target_cpu now s =
     (let start = rr_next s;
          cpus = map (\<lambda>i. u32_add start i mod cpu_count s) [0 ..< cpu_count s];
          (best_cpu, _, _) = best_cpu_scan now s cpus (0, UINT32_MAX, False)
      in (best_cpu, s\<lparr>rr_next := u32_add best_cpu 1\<rparr>))"

definition find_performance_cpu :: "nat \<Rightarrow> sched_state \<Rightarrow> nat \<times> sched_state" where
  "find_performance_cpu now s =
     (if cpu_count s \<le> 1 then (0, s)
      else case best_cpu_scan now s [1 ..< cpu_count s] (0, UINT32_MAX, False) of
             (best_cpu, _, found) \<Rightarrow> if \<not> found then find_target_cpu now s else (best_cpu, s))"

definition heuristic_assign_cpu :: "nat \<Rightarrow> nat \<Rightarrow> sched_state \<Rightarrow> nat \<times> sched_state" where
  "heuristic_assign_cpu now t s =
     (if deadline_ns (tcb s t) > 0 then find_performance_cpu now s else find_target_cpu now s)"

section \<open>Placement\<close>

definition scheduler_add_task_to_cpu :: "nat \<Rightarrow> nat \<Rightarrow> nat \<Rightarrow> sched_state \<Rightarrow> sched_state" where
  "scheduler_add_task_to_cpu now t cpu s =
     (if t_state (tcb s t) \<noteq> TASK_READY \<or> cpu \<ge> cpu_count s then s
      else
        let s1 = add_to_cpu_queue_locked now t cpu s;
            s2 = s1\<lparr>task_count := u32_add (task_count s1) 1\<rparr>
        in if cpu_affinity (tcb s2 t) = CPU_AFFINITY_ANY \<and> idle_task (cpu_rq s2 cpu) \<noteq> Some t
           then s2\<lparr>cpu_steal_deques := (cpu_steal_deques s2)(cpu :=
                  snd (steal_deque_push (cpu_steal_deques s2 cpu) t (t_generation (tcb s2 t))))\<rparr>
           else s2)"

text \<open>The CPU with the smallest ready count among those not isolated, with the sum and number of them.\<close>

fun least_loaded_scan :: "sched_state \<Rightarrow> nat list \<Rightarrow> nat \<times> nat \<times> nat \<times> nat \<Rightarrow> nat \<times> nat \<times> nat \<times> nat" where
  "least_loaded_scan s [] acc = acc"
| "least_loaded_scan s (c # cs) (best_cpu, best_ready, tot, n) =
     least_loaded_scan s cs
       (if core_isolated s c then (best_cpu, best_ready, tot, n)
        else let r = ready_count (cpu_rq s c)
             in if r < best_ready then (c, r, u32_add tot r, u32_add n 1)
                else (best_cpu, best_ready, u32_add tot r, u32_add n 1))"

definition least_loaded_cpu :: "sched_state \<Rightarrow> nat \<Rightarrow> nat \<times> nat \<times> nat" where
  "least_loaded_cpu s fallback =
     (case least_loaded_scan s [0 ..< cpu_count s] (fallback, UINT32_MAX, 0, 0) of
        (best_cpu, _, tot, n) \<Rightarrow> (best_cpu, tot, n))"

record balance_config =
  bal_enabled :: bool
  min_target_ready :: nat
  min_active_cpus :: nat
  imbalance_num :: nat
  imbalance_den :: nat

definition sched_balance_config_defaults :: balance_config where
  "sched_balance_config_defaults =
     \<lparr>bal_enabled = True, min_target_ready = 2, min_active_cpus = 2, imbalance_num = 3, imbalance_den = 2\<rparr>"

text \<open>The proactive load-balance override of the policy's choice.\<close>

definition balance_override :: "balance_config \<Rightarrow> sched_state \<Rightarrow> nat \<Rightarrow> nat" where
  "balance_override cfg s target_cpu =
     (if cpu_count s > 1 \<and> target_cpu < cpu_count s \<and> bal_enabled cfg \<and> \<not> core_isolated s target_cpu
      then let target_ready = ready_count (cpu_rq s target_cpu)
           in if target_ready \<ge> min_target_ready cfg
              then case least_loaded_cpu s target_cpu of (idle, tot, active) \<Rightarrow>
                     if active \<ge> min_active_cpus cfg \<and> idle \<noteq> target_cpu
                     then if ready_count (cpu_rq s idle) < target_ready \<and>
                             u64_mul (u64_mul (imbalance_den cfg) target_ready) active > u64_mul (imbalance_num cfg) tot
                          then idle else target_cpu
                     else target_cpu
              else target_cpu
      else target_cpu)"

definition scheduler_add_task :: "balance_config \<Rightarrow> nat \<Rightarrow> nat \<Rightarrow> sched_state \<Rightarrow> sched_state" where
  "scheduler_add_task cfg now t s =
     (if t_state (tcb s t) \<noteq> TASK_READY then s
      else
        let s1 = upd_task t (\<lambda>x. x\<lparr>ai_priority := TASK_AI_PRIORITY_NONE\<rparr>) s
        in if cpu_affinity (tcb s1 t) \<noteq> CPU_AFFINITY_ANY
           then scheduler_add_task_to_cpu now t (cpu_affinity (tcb s1 t)) s1
           else case heuristic_assign_cpu now t s1 of (target_cpu, s2) \<Rightarrow>
                  scheduler_add_task_to_cpu now t (balance_override cfg s2 target_cpu) s2)"

section \<open>Removal and movement\<close>

text \<open>The retry loops around \<open>assigned_cpu\<close> end in their first round when nothing runs in between.\<close>

definition scheduler_remove_task :: "nat \<Rightarrow> sched_state \<Rightarrow> sched_state" where
  "scheduler_remove_task t s =
     (let cpu = assigned_cpu (tcb s t)
      in if cpu \<ge> cpu_count s then s
         else case remove_from_cpu_queue_locked t cpu s of (removed, s1) \<Rightarrow>
                if removed then s1\<lparr>task_count := u32_sub (task_count s1) 1\<rparr> else s1)"

fun find_prev_next :: "nat \<Rightarrow> nat option \<Rightarrow> nat list \<Rightarrow> (nat option \<times> nat option) option" where
  "find_prev_next t prev [] = None"
| "find_prev_next t prev (x # xs) =
     (if x = t then Some (prev, case xs of [] \<Rightarrow> None | y # _ \<Rightarrow> Some y) else find_prev_next t (Some x) xs)"

definition reposition_locked :: "nat \<Rightarrow> nat \<Rightarrow> nat \<Rightarrow> sched_state \<Rightarrow> bool \<times> sched_state" where
  "reposition_locked now t cpu s =
     (case find_prev_next t None (rq_tasks (cpu_rq s cpu)) of
        None \<Rightarrow> (False, s)
      | Some (prev, nxt) \<Rightarrow>
          let s1 = update_deadline_boost now t s
          in if (prev = None \<or> eprio s1 (the prev) \<ge> eprio s1 t) \<and> (nxt = None \<or> eprio s1 (the nxt) \<le> eprio s1 t)
             then (False, s1)
             else (True, add_to_cpu_queue_locked now t cpu (snd (remove_from_cpu_queue_locked t cpu s1))))"

definition sched_reposition_task :: "nat \<Rightarrow> nat \<Rightarrow> sched_state \<Rightarrow> sched_state" where
  "sched_reposition_task now t s =
     (let cpu = assigned_cpu (tcb s t)
      in if cpu \<ge> cpu_count s then s else snd (reposition_locked now t cpu s))"

definition scheduler_terminate_task :: "nat \<Rightarrow> sched_state \<Rightarrow> sched_state option" where
  "scheduler_terminate_task t s =
     (if t_idle (tcb s t) then None
      else
        let cpu = assigned_cpu (tcb s t)
        in if cpu \<ge> cpu_count s then Some s
           else case remove_from_cpu_queue_locked t cpu (set_state t TASK_TERMINATED s) of (removed, s1) \<Rightarrow>
                  let s2 = (if removed then s1\<lparr>task_count := u32_sub (task_count s1) 1\<rparr> else s1)
                  in Some (s2\<lparr>cpu_steal_deques := (cpu_steal_deques s2)(cpu :=
                        snd (steal_deque_remove (cpu_steal_deques s2 cpu) (Some t)))\<rparr>))"

definition sched_migrate_task :: "nat \<Rightarrow> nat \<Rightarrow> nat \<Rightarrow> sched_state \<Rightarrow> int \<times> sched_state" where
  "sched_migrate_task now t target_cpu s =
     (let x = tcb s t; old_cpu = assigned_cpu x
      in if target_cpu \<ge> cpu_count s then (-1, s)
         else if t_state x = TASK_RUNNING then (-1, s)
         else if cpu_affinity x \<noteq> CPU_AFFINITY_ANY \<and> cpu_affinity x \<noteq> target_cpu then (-1, s)
         else if old_cpu = target_cpu then (0, s)
         else if t_state x = TASK_READY
         then case remove_from_cpu_queue_locked t old_cpu s of (removed, s1) \<Rightarrow>
                if removed then (0, add_to_cpu_queue_locked now t target_cpu s1)
                else (0, upd_task t (\<lambda>x. x\<lparr>assigned_cpu := target_cpu\<rparr>) s1)
         else (0, upd_task t (\<lambda>x. x\<lparr>assigned_cpu := target_cpu\<rparr>) s))"

definition task_set_affinity :: "nat \<Rightarrow> nat \<Rightarrow> sched_state \<Rightarrow> sched_state" where
  "task_set_affinity t cpu s =
     (let s1 = upd_task t (\<lambda>x. x\<lparr>cpu_affinity := cpu\<rparr>) s
      in if cpu \<noteq> CPU_AFFINITY_ANY \<and> cpu < cpu_count s1
         then upd_task t (\<lambda>x. x\<lparr>assigned_cpu := cpu\<rparr>) s1 else s1)"

definition sched_set_task_affinity :: "nat \<Rightarrow> nat \<Rightarrow> nat \<Rightarrow> sched_state \<Rightarrow> int \<times> sched_state" where
  "sched_set_task_affinity now t cpu s =
     (if cpu \<noteq> CPU_AFFINITY_ANY \<and> cpu \<ge> cpu_count s then (-1, s)
      else
        let old_affinity = cpu_affinity (tcb s t); s1 = upd_task t (\<lambda>x. x\<lparr>cpu_affinity := cpu\<rparr>) s
        in if t_state (tcb s1 t) = TASK_READY \<and> old_affinity \<noteq> cpu
           then case (if cpu = CPU_AFFINITY_ANY then heuristic_assign_cpu now t s1 else (cpu, s1)) of (target, s2) \<Rightarrow>
                  (0, if target \<noteq> assigned_cpu (tcb s2 t) then snd (sched_migrate_task now t target s2) else s2)
           else (0, s1))"

section \<open>Stealing\<close>

text \<open>The scan of one victim's deque: at most 32 entries, each stale one is dropped.\<close>

fun probe_victim :: "nat \<Rightarrow> nat \<Rightarrow> sched_state \<Rightarrow> nat option \<times> sched_state" where
  "probe_victim 0 victim s = (None, s)"
| "probe_victim (Suc probes) victim s =
     (case steal_deque_steal (cpu_steal_deques s victim) of
        (None, d) \<Rightarrow> (None, s\<lparr>cpu_steal_deques := (cpu_steal_deques s)(victim := d)\<rparr>)
      | (Some (candidate, captured_gen), d) \<Rightarrow>
          let s1 = s\<lparr>cpu_steal_deques := (cpu_steal_deques s)(victim := d)\<rparr>; x = tcb s1 candidate
          in if t_generation x = captured_gen \<and> t_state x = TASK_READY \<and> assigned_cpu x = victim \<and>
                cpu_affinity x = CPU_AFFINITY_ANY
             then case remove_from_cpu_queue_locked candidate victim s1 of (removed, s2) \<Rightarrow>
                    if removed then (Some candidate, s2) else probe_victim probes victim s2
             else probe_victim probes victim s1)"

fun steal_scan :: "nat \<Rightarrow> nat list \<Rightarrow> sched_state \<Rightarrow> nat option \<times> sched_state" where
  "steal_scan this_cpu [] s = (None, s)"
| "steal_scan this_cpu (i # is) s =
     (let victim = (this_cpu + i) mod cpu_count s
      in if victim = this_cpu \<or> preempt_disabled s victim then steal_scan this_cpu is s
         else case probe_victim 32 victim s of (r, s1) \<Rightarrow>
                (case r of Some t \<Rightarrow> (Some t, s1) | None \<Rightarrow> steal_scan this_cpu is s1))"

definition sched_try_steal :: "nat \<Rightarrow> sched_state \<Rightarrow> nat option \<times> sched_state" where
  "sched_try_steal this_cpu s =
     (if core_isolated s this_cpu then (None, s) else steal_scan this_cpu [1 ..< cpu_count s] s)"

section \<open>Rebalancing\<close>

abbreviation (input) REBALANCE_INTERVAL_TICKS :: nat where "REBALANCE_INTERVAL_TICKS \<equiv> 100"
abbreviation (input) REBALANCE_IMBALANCE_MIN :: nat where "REBALANCE_IMBALANCE_MIN \<equiv> 2"

fun busy_idle_scan :: "sched_state \<Rightarrow> nat list \<Rightarrow> nat \<times> nat \<times> nat \<times> nat \<Rightarrow> nat \<times> nat \<times> nat \<times> nat" where
  "busy_idle_scan s [] acc = acc"
| "busy_idle_scan s (i # is) (busy, max_ready, idle, min_ready) =
     (let r = ready_count (cpu_rq s i)
      in busy_idle_scan s is
           (if r > max_ready then i else busy, if r > max_ready then r else max_ready,
            if r < min_ready then i else idle, if r < min_ready then r else min_ready))"

definition migratable :: "sched_state \<Rightarrow> nat \<Rightarrow> nat \<Rightarrow> bool" where
  "migratable s cpu t \<longleftrightarrow> idle_task (cpu_rq s cpu) \<noteq> Some t \<and> cpu_affinity (tcb s t) = CPU_AFFINITY_ANY \<and>
     t_state (tcb s t) = TASK_READY"

definition sched_rebalance_tick :: "nat \<Rightarrow> nat \<Rightarrow> sched_state \<Rightarrow> sched_state" where
  "sched_rebalance_tick now cpu s =
     (if cpu \<noteq> 0 then s
      else
        let s1 = s\<lparr>rebalance_tick_counter := u64_add (rebalance_tick_counter s) 1\<rparr>
        in if rebalance_tick_counter s1 mod REBALANCE_INTERVAL_TICKS \<noteq> 0 then s1
           else if cpu_count s1 < 2 then s1
           else case busy_idle_scan s1 [0 ..< cpu_count s1] (0, 0, 0, UINT32_MAX) of
                  (busy, max_ready, idle, min_ready) \<Rightarrow>
                    if busy = idle then s1
                    else if max_ready < u32_add min_ready REBALANCE_IMBALANCE_MIN then s1
                    else (case find (migratable s1 busy) (rq_tasks (cpu_rq s1 busy)) of
                            None \<Rightarrow> s1
                          | Some candidate \<Rightarrow>
                              let s2 = snd (remove_from_cpu_queue_locked candidate busy s1);
                                  s3 = upd_task candidate (\<lambda>x. x\<lparr>t_state := TASK_READY, assigned_cpu := idle\<rparr>) s2;
                                  s4 = scheduler_add_task_to_cpu now candidate idle s3
                              in s4\<lparr>rebalance_migrations := u64_add (rebalance_migrations s4) 1\<rparr>))"

section \<open>Task slots\<close>

abbreviation (input) MAX_TASKS :: nat where "MAX_TASKS \<equiv> 64"

definition alloc_task_slot :: "sched_state \<Rightarrow> nat option" where
  "alloc_task_slot s = find (\<lambda>i. t_id (tcb s i) = 0) [0 ..< MAX_TASKS]"

text \<open>The scheduling part of \<open>task_alloc\<close>; stack, context and user fields are not scheduler state.\<close>

definition task_alloc :: "nat \<Rightarrow> sched_state \<Rightarrow> nat option \<times> sched_state" where
  "task_alloc priority s =
     (let p = (if priority > TASK_PRIORITY_MAX then TASK_PRIORITY_MAX else priority)
      in case alloc_task_slot s of
           None \<Rightarrow> (None, s)
         | Some t \<Rightarrow>
             (Some t, upd_task t (\<lambda>x. x\<lparr>t_id := next_task_id s, t_state := TASK_READY, cpu_affinity := CPU_AFFINITY_ANY,
                 assigned_cpu := 0, t_priority := p, effective_priority := p, pi_priority := 0, pi_mutexes_held := 0,
                 ai_priority := TASK_AI_PRIORITY_NONE, deadline_ns := 0, wake_time_ns := 0, t_switches := 0\<rparr>)
               (s\<lparr>next_task_id := u32_add (next_task_id s) 1\<rparr>)))"

text \<open>\<open>stack\<close> tells whether the page allocator had pages for the stack.\<close>

definition task_create_with_priority :: "bool \<Rightarrow> nat \<Rightarrow> sched_state \<Rightarrow> nat option \<times> sched_state" where
  "task_create_with_priority stack priority s = (if \<not> stack then (None, s) else task_alloc priority s)"

definition task_create :: "bool \<Rightarrow> sched_state \<Rightarrow> nat option \<times> sched_state" where
  "task_create stack s = task_create_with_priority stack TASK_PRIORITY_NORMAL s"

definition task_get :: "nat \<Rightarrow> sched_state \<Rightarrow> nat option" where
  "task_get i s = find (\<lambda>t. t_id (tcb s t) = i) [0 ..< MAX_TASKS]"

definition task_destroy :: "nat \<Rightarrow> sched_state \<Rightarrow> sched_state option" where
  "task_destroy t s =
     (if t_idle (tcb s t) then None
      else if t_state (tcb s t) \<noteq> TASK_TERMINATED then Some s
      else Some (upd_task t (\<lambda>x. x\<lparr>t_id := 0, t_generation := t_generation x + 1\<rparr>) s))"

section \<open>Dispatch\<close>

definition pick_next_task :: "nat \<Rightarrow> sched_state \<Rightarrow> nat option option" where
  "pick_next_task cpu s =
     (case rq_tasks (cpu_rq s cpu) of
        h # _ \<Rightarrow> if t_state (tcb s h) = TASK_TERMINATED \<or> t_state (tcb s h) = TASK_DESTROYED then None else Some (Some h)
      | [] \<Rightarrow> Some (idle_task (cpu_rq s cpu)))"

text \<open>A stolen task joins the empty queue.\<close>

definition schedule_steal :: "nat \<Rightarrow> nat \<Rightarrow> sched_state \<Rightarrow> sched_state" where
  "schedule_steal now this_cpu s =
     (if rq_tasks (cpu_rq s this_cpu) = []
      then case sched_try_steal this_cpu s of
             (Some t, s1) \<Rightarrow> add_to_cpu_queue_locked now t this_cpu s1
           | (None, s1) \<Rightarrow> s1
      else s)"

definition schedule_reap :: "nat \<Rightarrow> sched_state \<Rightarrow> sched_state option" where
  "schedule_reap this_cpu s =
     (case zombie (cpu_rq s this_cpu) of
        None \<Rightarrow> Some s
      | Some z \<Rightarrow> task_destroy z (upd_rq this_cpu (\<lambda>rq. rq\<lparr>zombie := None\<rparr>) s))"

text \<open>A running task goes back to the queue, unless it is the idle task, and the head is refreshed.\<close>

definition schedule_requeue :: "nat \<Rightarrow> nat \<Rightarrow> sched_state \<Rightarrow> sched_state" where
  "schedule_requeue now this_cpu s =
     (case current_task s this_cpu of
        None \<Rightarrow> s
      | Some c \<Rightarrow>
          if t_state (tcb s c) = TASK_RUNNING
          then let s1 = set_state c TASK_READY s;
                   s2 = (if idle_task (cpu_rq s1 this_cpu) \<noteq> Some c then add_to_cpu_queue_locked now c this_cpu s1 else s1)
               in (case rq_tasks (cpu_rq s2 this_cpu) of [] \<Rightarrow> s2 | h # _ \<Rightarrow> update_deadline_boost now h s2)
          else s)"

definition schedule_switch :: "nat \<Rightarrow> nat option \<Rightarrow> sched_state \<Rightarrow> sched_state option" where
  "schedule_switch this_cpu nxt s =
     (let current = current_task s this_cpu;
          s1 = (case rq_tasks (cpu_rq s this_cpu) of
                  h # q \<Rightarrow> if nxt \<noteq> idle_task (cpu_rq s this_cpu) \<and> nxt = Some h
                           then upd_rq this_cpu (\<lambda>rq. rq\<lparr>rq_tasks := q, ready_count := u32_sub (ready_count rq) 1\<rparr>) s
                           else s
                | [] \<Rightarrow> s)
      in if nxt = current
         then (case current of
                 None \<Rightarrow> Some s1
               | Some c \<Rightarrow> if t_state (tcb s1 c) = TASK_TERMINATED \<or> t_state (tcb s1 c) = TASK_DESTROYED then None
                            else Some (set_state c TASK_RUNNING s1))
         else (case nxt of
                 None \<Rightarrow> None
               | Some n \<Rightarrow>
                   let s2 = upd_task n (\<lambda>x. x\<lparr>t_state := TASK_RUNNING, t_switches := u64_add (t_switches x) 1\<rparr>) s1;
                       s3 = s2\<lparr>context_switches := u64_add (context_switches s2) 1\<rparr>;
                       s4 = (case current of
                               Some c \<Rightarrow> if t_state (tcb s3 c) = TASK_TERMINATED
                                          then upd_rq this_cpu (\<lambda>rq. rq\<lparr>zombie := Some c\<rparr>) s3 else s3
                             | None \<Rightarrow> s3)
                   in Some (s4\<lparr>current_task := (current_task s4)(this_cpu := Some n),
                               preempt_disabled := (preempt_disabled s4)(this_cpu := False)\<rparr>)))"

definition schedule :: "nat \<Rightarrow> nat \<Rightarrow> sched_state \<Rightarrow> sched_state option" where
  "schedule now this_cpu s = do {
     s2 \<leftarrow> schedule_reap this_cpu (schedule_steal now this_cpu s);
     _ \<leftarrow> pick_next_task this_cpu s2;
     let s3 = schedule_requeue now this_cpu s2;
     nxt \<leftarrow> pick_next_task this_cpu s3;
     schedule_switch this_cpu nxt s3
   }"

definition task_exit :: "nat \<Rightarrow> nat \<Rightarrow> sched_state \<Rightarrow> sched_state option" where
  "task_exit now this_cpu s =
     (case current_task s this_cpu of
        None \<Rightarrow> None
      | Some t \<Rightarrow> do { s1 \<leftarrow> scheduler_terminate_task t s; schedule now this_cpu s1 })"

section \<open>Sleeping\<close>

text \<open>The state change of \<open>task_sleep_ms\<close> before it calls \<open>schedule\<close>; the flag tells whether it does.\<close>

definition task_sleep_prepare :: "nat \<Rightarrow> nat \<Rightarrow> nat \<Rightarrow> nat \<Rightarrow> sched_state \<Rightarrow> bool \<times> sched_state" where
  "task_sleep_prepare ms freq ticks self s =
     (if ms = 0 \<or> freq = 0 then (False, s)
      else
        let deadline = u64_add ticks (u64_mul (freq div 1000) ms)
        in if wakeup_pending (tcb s self) then (False, upd_task self (\<lambda>x. x\<lparr>wakeup_pending := False\<rparr>) s)
           else (True, upd_task self (\<lambda>x. x\<lparr>wake_time_ns := deadline, t_state := TASK_BLOCKED\<rparr>)
                         (s\<lparr>sleep_queue := self # sleep_queue s\<rparr>)))"

definition task_sleep_ms :: "nat \<Rightarrow> nat \<Rightarrow> nat \<Rightarrow> nat \<Rightarrow> nat \<Rightarrow> sched_state \<Rightarrow> sched_state option" where
  "task_sleep_ms ms freq ticks now this_cpu s =
     (case current_task s this_cpu of
        None \<Rightarrow> Some s
      | Some self \<Rightarrow> (case task_sleep_prepare ms freq ticks self s of
                         (blocked, s1) \<Rightarrow> if blocked then schedule now this_cpu s1 else Some s1))"

text \<open>Each expired task is moved to a private list, last one first, and woken in that order.\<close>

definition wake_sleeper :: "balance_config \<Rightarrow> nat \<Rightarrow> nat \<Rightarrow> sched_state \<Rightarrow> sched_state" where
  "wake_sleeper cfg now t s =
     scheduler_add_task cfg now t (upd_task t (\<lambda>x. x\<lparr>wake_time_ns := 0, t_state := TASK_READY\<rparr>) s)"

definition task_wake_sleepers :: "balance_config \<Rightarrow> nat \<Rightarrow> nat \<Rightarrow> sched_state \<Rightarrow> sched_state" where
  "task_wake_sleepers cfg now ticks s =
     (let expired = (\<lambda>t. wake_time_ns (tcb s t) \<le> ticks)
      in fold (wake_sleeper cfg now) (rev (filter expired (sleep_queue s)))
           (s\<lparr>sleep_queue := filter (\<lambda>t. \<not> expired t) (sleep_queue s)\<rparr>))"

definition task_sleep_wake :: "balance_config \<Rightarrow> nat \<Rightarrow> nat \<Rightarrow> sched_state \<Rightarrow> sched_state" where
  "task_sleep_wake cfg now t s =
     (case unlink_task t (sleep_queue s) of
        Some q \<Rightarrow> wake_sleeper cfg now t (s\<lparr>sleep_queue := q\<rparr>)
      | None \<Rightarrow> upd_task t (\<lambda>x. x\<lparr>wakeup_pending := True\<rparr>) s)"

text \<open>The timer interrupt: sleepers, tick count, the policy's tick, and preemption of the running task.\<close>

definition scheduler_tick :: "balance_config \<Rightarrow> nat \<Rightarrow> nat \<Rightarrow> nat \<Rightarrow> sched_state \<Rightarrow> sched_state option" where
  "scheduler_tick cfg now ticks cpu s =
     (let s1 = task_wake_sleepers cfg now ticks s;
          s2 = s1\<lparr>timer_ticks := u64_add (timer_ticks s1) 1\<rparr>;
          s3 = sched_rebalance_tick now cpu s2
      in if preempt_disabled s3 cpu then Some s3 else schedule now cpu s3)"

section \<open>Start-up\<close>

text \<open>
  \<open>scheduler_init\<close> and \<open>scheduler_init_secondary\<close>: clear the state, then give every CPU its idle task.
  The first starts from the cleared task table and current-task array of the boot image.
\<close>

definition set_idle :: "nat \<Rightarrow> nat \<Rightarrow> sched_state \<Rightarrow> sched_state" where
  "set_idle cpu t s =
     upd_rq cpu (\<lambda>rq. rq\<lparr>idle_task := Some t\<rparr>)
       (upd_task t (\<lambda>x. x\<lparr>t_state := TASK_READY, cpu_affinity := cpu, assigned_cpu := cpu, t_idle := True\<rparr>) s)"

definition scheduler_init :: "bool \<Rightarrow> sched_state \<Rightarrow> sched_state option" where
  "scheduler_init stack s =
     (let s1 = s\<lparr>task_count := 0, context_switches := 0, timer_ticks := 0, isolated_cores := 0, sleep_queue := []\<rparr>;
          s2 = fold (\<lambda>i s. (sched_runqueue_clear i s)\<lparr>cpu_steal_deques := (cpu_steal_deques s)(i := steal_deque_init)\<rparr>)
                 [0 ..< MAX_CPUS] s1
      in case task_create stack s2 of
           (None, _) \<Rightarrow> None
         | (Some t, s3) \<Rightarrow> Some (set_idle 0 t s3))"

definition scheduler_init_secondary :: "bool \<Rightarrow> nat \<Rightarrow> sched_state \<Rightarrow> sched_state option" where
  "scheduler_init_secondary stack cpu s =
     (if cpu = 0 \<or> cpu \<ge> MAX_CPUS then Some s
      else case task_create stack s of
             (None, _) \<Rightarrow> None
           | (Some t, s1) \<Rightarrow> Some (set_idle cpu t s1))"

text \<open>\<open>scheduler_start\<close>, up to the switch to the first task, whose entry clears the preemption guard.\<close>

definition scheduler_start :: "nat \<Rightarrow> sched_state \<Rightarrow> sched_state option" where
  "scheduler_start this_cpu s =
     (case pick_next_task this_cpu s of
        None \<Rightarrow> None
      | Some None \<Rightarrow> None
      | Some (Some first) \<Rightarrow>
          let s1 = (case rq_tasks (cpu_rq s this_cpu) of
                      h # q \<Rightarrow> if Some first \<noteq> idle_task (cpu_rq s this_cpu) \<and> h = first
                               then upd_rq this_cpu (\<lambda>rq. rq\<lparr>rq_tasks := q, ready_count := u32_sub (ready_count rq) 1\<rparr>) s
                               else s
                    | [] \<Rightarrow> s);
              s2 = upd_task first (\<lambda>x. x\<lparr>t_state := TASK_RUNNING, t_switches := u64_add (t_switches x) 1\<rparr>) s1
          in Some (s2\<lparr>context_switches := u64_add (context_switches s2) 1,
                      current_task := (current_task s2)(this_cpu := Some first),
                      preempt_disabled := (preempt_disabled s2)(this_cpu := True)\<rparr>))"

section \<open>The kill command\<close>

text \<open>The command of the shell that runs on \<open>this_cpu\<close>, after its argument is parsed.\<close>

definition cmd_kill :: "nat \<Rightarrow> nat \<Rightarrow> sched_state \<Rightarrow> (int \<times> sched_state) option" where
  "cmd_kill this_cpu pid s =
     (case task_get pid s of
        None \<Rightarrow> Some (-1, s)
      | Some target \<Rightarrow>
          if current_task s this_cpu = Some target then Some (-1, s)
          else if t_idle (tcb s target) then Some (-1, s)
          else if t_state (tcb s target) = TASK_TERMINATED then Some (0, s)
          else do {
            s1 \<leftarrow> task_destroy target (scheduler_remove_task target (set_state target TASK_TERMINATED s));
            Some (0, s1)
          })"

end
