(* ===== verification/SchedInv.thy ===== *)
theory SchedInv
  imports SchedOps
begin

text \<open>
  The scheduler invariant: every queued task is ready, belongs to the CPU whose queue holds it and is
  queued once; the current task of a CPU belongs to it and is not queued; ready counters are exact;
  idle tasks and zombies are where they should be.  Every operation keeps it, and \<open>schedule\<close> never
  panics under it.
\<close>

section \<open>Frame lemmas\<close>

abbreviation runq :: "sched_state \<Rightarrow> nat \<Rightarrow> nat list" where
  "runq s cpu \<equiv> rq_tasks (cpu_rq s cpu)"

lemma upd_task_simps [simp]:
  "tcb (upd_task t f s) = (tcb s)(t := f (tcb s t))" "cpu_rq (upd_task t f s) = cpu_rq s"
  "current_task (upd_task t f s) = current_task s" "cpu_steal_deques (upd_task t f s) = cpu_steal_deques s"
  "cpu_count (upd_task t f s) = cpu_count s" "next_task_id (upd_task t f s) = next_task_id s"
  "isolated_cores (upd_task t f s) = isolated_cores s" "sleep_queue (upd_task t f s) = sleep_queue s"
  "preempt_disabled (upd_task t f s) = preempt_disabled s" "rr_next (upd_task t f s) = rr_next s"
  "context_switches (upd_task t f s) = context_switches s" "deadline_cfg (upd_task t f s) = deadline_cfg s"
  by (simp_all add: upd_task_def)

lemma upd_rq_simps [simp]:
  "cpu_rq (upd_rq c f s) = (cpu_rq s)(c := f (cpu_rq s c))" "tcb (upd_rq c f s) = tcb s"
  "current_task (upd_rq c f s) = current_task s" "cpu_steal_deques (upd_rq c f s) = cpu_steal_deques s"
  "cpu_count (upd_rq c f s) = cpu_count s" "next_task_id (upd_rq c f s) = next_task_id s"
  "isolated_cores (upd_rq c f s) = isolated_cores s" "sleep_queue (upd_rq c f s) = sleep_queue s"
  "preempt_disabled (upd_rq c f s) = preempt_disabled s" "rr_next (upd_rq c f s) = rr_next s"
  "context_switches (upd_rq c f s) = context_switches s" "deadline_cfg (upd_rq c f s) = deadline_cfg s"
  by (simp_all add: upd_rq_def)

text \<open>Recomputing a priority changes nothing but the effective priority.\<close>

lemma update_deadline_boost_frame:
  obtains p where "update_deadline_boost now t s = upd_task t (\<lambda>x. x\<lparr>effective_priority := p\<rparr>) s"
proof -
  have "\<exists>p. set_effective_priority t q s = upd_task t (\<lambda>x. x\<lparr>effective_priority := p\<rparr>) s" for q
    by (auto simp: set_effective_priority_def upd_task_def)
  then show thesis using that unfolding update_deadline_boost_def by (metis (full_types))
qed

section \<open>The invariant\<close>

definition queued_ok :: "sched_state \<Rightarrow> nat \<Rightarrow> nat \<Rightarrow> bool" where
  "queued_ok s cpu t \<longleftrightarrow> t < MAX_TASKS \<and> t_id (tcb s t) \<noteq> 0 \<and> t_state (tcb s t) = TASK_READY \<and>
     assigned_cpu (tcb s t) = cpu \<and> \<not> t_idle (tcb s t)"

definition current_ok :: "sched_state \<Rightarrow> nat \<Rightarrow> nat \<Rightarrow> bool" where
  "current_ok s cpu t \<longleftrightarrow> t < MAX_TASKS \<and> t_id (tcb s t) \<noteq> 0 \<and> assigned_cpu (tcb s t) = cpu \<and>
     t_state (tcb s t) \<in> {TASK_RUNNING, TASK_BLOCKED, TASK_TERMINATED} \<and>
     (t_idle (tcb s t) \<longrightarrow> t_state (tcb s t) = TASK_RUNNING \<and> idle_task (cpu_rq s cpu) = Some t)"

definition idle_ok :: "sched_state \<Rightarrow> nat \<Rightarrow> nat \<Rightarrow> bool" where
  "idle_ok s cpu i \<longleftrightarrow> i < MAX_TASKS \<and> t_id (tcb s i) \<noteq> 0 \<and> assigned_cpu (tcb s i) = cpu \<and>
     t_state (tcb s i) \<in> {TASK_READY, TASK_RUNNING} \<and> t_idle (tcb s i)"

definition zombie_ok :: "sched_state \<Rightarrow> nat \<Rightarrow> nat \<Rightarrow> bool" where
  "zombie_ok s cpu z \<longleftrightarrow> z < MAX_TASKS \<and> t_id (tcb s z) \<noteq> 0 \<and> assigned_cpu (tcb s z) = cpu \<and>
     t_state (tcb s z) = TASK_TERMINATED \<and> \<not> t_idle (tcb s z) \<and> current_task s cpu \<noteq> Some z"

definition cpu_inv :: "sched_state \<Rightarrow> nat \<Rightarrow> bool" where
  "cpu_inv s cpu \<longleftrightarrow> ready_count (cpu_rq s cpu) = length (runq s cpu) \<and> distinct (runq s cpu) \<and>
     (\<forall>t \<in> set (runq s cpu). queued_ok s cpu t) \<and>
     (\<forall>t. current_task s cpu = Some t \<longrightarrow> current_ok s cpu t) \<and>
     (\<exists>i. idle_task (cpu_rq s cpu) = Some i \<and> idle_ok s cpu i) \<and>
     (\<forall>z. zombie (cpu_rq s cpu) = Some z \<longrightarrow> zombie_ok s cpu z) \<and> deque_inv (cpu_steal_deques s cpu)"

definition sched_inv :: "sched_state \<Rightarrow> bool" where
  "sched_inv s \<longleftrightarrow> 0 < cpu_count s \<and> cpu_count s \<le> MAX_CPUS \<and> 0 < next_task_id s \<and>
     (\<forall>t. t_idle (tcb s t) \<longrightarrow> t_id (tcb s t) \<noteq> 0) \<and> (\<forall>cpu < cpu_count s. cpu_inv s cpu)"

lemmas inv_defs = cpu_inv_def queued_ok_def current_ok_def idle_ok_def zombie_ok_def

text \<open>A loose task is known to no CPU.\<close>

definition loose :: "sched_state \<Rightarrow> nat \<Rightarrow> bool" where
  "loose s t \<longleftrightarrow> (\<forall>cpu < cpu_count s. t \<notin> set (runq s cpu) \<and> current_task s cpu \<noteq> Some t \<and>
     zombie (cpu_rq s cpu) \<noteq> Some t \<and> idle_task (cpu_rq s cpu) \<noteq> Some t)"

lemma inv_cpu: "sched_inv s \<Longrightarrow> cpu < cpu_count s \<Longrightarrow> cpu_inv s cpu"
  by (simp add: sched_inv_def)

lemma cpu_inv_dest:
  assumes "cpu_inv s cpu"
  shows "t \<in> set (runq s cpu) \<Longrightarrow> queued_ok s cpu t" "current_task s cpu = Some t \<Longrightarrow> current_ok s cpu t"
    "idle_task (cpu_rq s cpu) = Some t \<Longrightarrow> idle_ok s cpu t" "zombie (cpu_rq s cpu) = Some t \<Longrightarrow> zombie_ok s cpu t"
    "deque_inv (cpu_steal_deques s cpu)" "distinct (runq s cpu)" "ready_count (cpu_rq s cpu) = length (runq s cpu)"
  using assms unfolding cpu_inv_def by auto

lemma runq_length: "cpu_inv s cpu \<Longrightarrow> length (runq s cpu) \<le> MAX_TASKS"
proof -
  assume "cpu_inv s cpu"
  then have d: "distinct (runq s cpu)" and "set (runq s cpu) \<subseteq> {..< MAX_TASKS}" by (auto simp: inv_defs)
  then have "card (set (runq s cpu)) \<le> card {..< MAX_TASKS}" by (intro card_mono) auto
  then show ?thesis using distinct_card[OF d] by simp
qed

text \<open>The invariant reads only some fields.\<close>

lemma sched_inv_cong:
  assumes "\<And>u. t_id (tcb s' u) = t_id (tcb s u)" "\<And>u. t_state (tcb s' u) = t_state (tcb s u)"
    "\<And>u. assigned_cpu (tcb s' u) = assigned_cpu (tcb s u)" "\<And>u. t_idle (tcb s' u) = t_idle (tcb s u)"
    "cpu_rq s' = cpu_rq s" "current_task s' = current_task s" "cpu_count s' = cpu_count s" "next_task_id s' = next_task_id s"
    "\<And>c. deque_inv (cpu_steal_deques s' c) = deque_inv (cpu_steal_deques s c)"
  shows "sched_inv s' \<longleftrightarrow> sched_inv s"
proof -
  have "cpu_inv s' cpu \<longleftrightarrow> cpu_inv s cpu" for cpu
    unfolding inv_defs assms ..
  then show ?thesis unfolding sched_inv_def assms by simp
qed

lemma inv_upd_neutral:
  assumes "\<And>x. t_id (f x) = t_id x" "\<And>x. t_state (f x) = t_state x" "\<And>x. assigned_cpu (f x) = assigned_cpu x"
    "\<And>x. t_idle (f x) = t_idle x"
  shows "sched_inv (upd_task t f s) \<longleftrightarrow> sched_inv s"
  by (rule sched_inv_cong) (simp_all add: assms)

lemma inv_boost [simp]: "sched_inv (update_deadline_boost now t s) \<longleftrightarrow> sched_inv s"
proof -
  obtain p where "update_deadline_boost now t s = upd_task t (\<lambda>x. x\<lparr>effective_priority := p\<rparr>) s"
    by (rule update_deadline_boost_frame)
  then show ?thesis by (simp add: inv_upd_neutral)
qed

lemma boost_frame [simp]:
  "cpu_rq (update_deadline_boost now t s) = cpu_rq s" "current_task (update_deadline_boost now t s) = current_task s"
  "cpu_count (update_deadline_boost now t s) = cpu_count s" "next_task_id (update_deadline_boost now t s) = next_task_id s"
  "cpu_steal_deques (update_deadline_boost now t s) = cpu_steal_deques s"
  "isolated_cores (update_deadline_boost now t s) = isolated_cores s"
  "sleep_queue (update_deadline_boost now t s) = sleep_queue s"
  "preempt_disabled (update_deadline_boost now t s) = preempt_disabled s"
  "t_id (tcb (update_deadline_boost now t s) u) = t_id (tcb s u)"
  "t_state (tcb (update_deadline_boost now t s) u) = t_state (tcb s u)"
  "assigned_cpu (tcb (update_deadline_boost now t s) u) = assigned_cpu (tcb s u)"
  "cpu_affinity (tcb (update_deadline_boost now t s) u) = cpu_affinity (tcb s u)"
  "t_idle (tcb (update_deadline_boost now t s) u) = t_idle (tcb s u)"
  "t_generation (tcb (update_deadline_boost now t s) u) = t_generation (tcb s u)"
  by (rule update_deadline_boost_frame[of now t s], simp)+

definition same_task :: "sched_state \<Rightarrow> sched_state \<Rightarrow> nat \<Rightarrow> bool" where
  "same_task s s' u \<longleftrightarrow> t_id (tcb s' u) = t_id (tcb s u) \<and> t_state (tcb s' u) = t_state (tcb s u) \<and>
     assigned_cpu (tcb s' u) = assigned_cpu (tcb s u) \<and> t_idle (tcb s' u) = t_idle (tcb s u)"

lemma ok_same:
  assumes "same_task s s' u" "cpu_rq s' cpu = cpu_rq s cpu" "current_task s' cpu = current_task s cpu"
  shows "queued_ok s' cpu u = queued_ok s cpu u" "current_ok s' cpu u = current_ok s cpu u"
    "idle_ok s' cpu u = idle_ok s cpu u" "zombie_ok s' cpu u = zombie_ok s cpu u"
  using assms by (simp_all add: same_task_def queued_ok_def current_ok_def idle_ok_def zombie_ok_def)

text \<open>A CPU is not affected by changes to tasks it does not know.\<close>

lemma cpu_inv_frame:
  assumes c: "cpu_inv s cpu" and rq: "cpu_rq s' cpu = cpu_rq s cpu" "current_task s' cpu = current_task s cpu"
    "deque_inv (cpu_steal_deques s' cpu)"
    and same: "\<And>u. u \<in> set (runq s cpu) \<or> current_task s cpu = Some u \<or> zombie (cpu_rq s cpu) = Some u \<or>
      idle_task (cpu_rq s cpu) = Some u \<Longrightarrow> same_task s s' u"
  shows "cpu_inv s' cpu"
proof -
  have "\<forall>t \<in> set (runq s cpu). queued_ok s' cpu t" using c ok_same(1)[OF same rq(1,2)] by (simp add: cpu_inv_def)
  moreover have "\<forall>t. current_task s cpu = Some t \<longrightarrow> current_ok s' cpu t" using c ok_same(2)[OF same rq(1,2)] by (simp add: cpu_inv_def)
  moreover have "\<exists>i. idle_task (cpu_rq s cpu) = Some i \<and> idle_ok s' cpu i" using c ok_same(3)[OF same rq(1,2)] by (auto simp: cpu_inv_def)
  moreover have "\<forall>z. zombie (cpu_rq s cpu) = Some z \<longrightarrow> zombie_ok s' cpu z" using c ok_same(4)[OF same rq(1,2)] by (simp add: cpu_inv_def)
  ultimately show ?thesis using c rq unfolding cpu_inv_def by simp
qed

lemma inv_upd_loose:
  assumes inv: "sched_inv s" and l: "loose s t" and f: "\<not> t_idle (f (tcb s t))"
  shows "sched_inv (upd_task t f s)"
proof -
  have "cpu_inv (upd_task t f s) cpu" if cpu: "cpu < cpu_count s" for cpu
    using l cpu inv_cpu[OF inv cpu]
    by (intro cpu_inv_frame[OF inv_cpu[OF inv cpu]]) (auto simp: loose_def same_task_def cpu_inv_def)
  then show ?thesis using inv f by (simp add: sched_inv_def)
qed

lemma loose_upd [simp]: "loose (upd_task u f s) t = loose s t" "loose (update_deadline_boost now u s) t = loose s t"
  by (simp_all add: loose_def)

section \<open>Run queues\<close>

lemma insert_task_set [simp]: "set (insert_task p t xs) = insert t (set xs)"
  by (induction xs) auto

lemma insert_task_length [simp]: "length (insert_task p t xs) = Suc (length xs)"
  by (induction xs) auto

lemma insert_task_distinct: "distinct xs \<Longrightarrow> t \<notin> set xs \<Longrightarrow> distinct (insert_task p t xs)"
  by (induction xs) auto

lemma add_to_queue_inv:
  assumes inv: "sched_inv s" and cpu: "cpu < cpu_count s" and l: "loose s t"
    and t: "t < MAX_TASKS" "t_id (tcb s t) \<noteq> 0" "t_state (tcb s t) = TASK_READY" "\<not> t_idle (tcb s t)"
  shows "sched_inv (add_to_cpu_queue_locked now t cpu s)"
proof -
  let ?s0 = "upd_task t (\<lambda>x. x\<lparr>assigned_cpu := cpu\<rparr>) s"
  let ?s1 = "update_deadline_boost now t ?s0"
  define s' where "s' = add_to_cpu_queue_locked now t cpu s"
  have i1: "sched_inv ?s1" using inv_upd_loose[OF inv l, of "\<lambda>x. x\<lparr>assigned_cpu := cpu\<rparr>"] t(4) by simp
  have s': "tcb s' = tcb ?s1" "current_task s' = current_task s" "cpu_count s' = cpu_count s" "next_task_id s' = next_task_id s"
    "cpu_steal_deques s' = cpu_steal_deques s"
    "cpu_rq s' = (cpu_rq s)(cpu := (cpu_rq s cpu)\<lparr>rq_tasks := insert_task (eprio ?s1) t (runq s cpu),
       ready_count := u32_add (ready_count (cpu_rq s cpu)) 1\<rparr>)"
    by (simp_all add: s'_def add_to_cpu_queue_locked_def Let_def)
  have c: "cpu_inv ?s1 c" if "c < cpu_count s" for c using inv_cpu[OF i1, of c] that by simp
  have rc: "u32_add (ready_count (cpu_rq s cpu)) 1 = Suc (length (runq s cpu))"
    using c[OF cpu] runq_length[OF c[OF cpu]] by (simp add: cpu_inv_def u32_add_eq)
  have nq: "t \<notin> set (runq s cpu)" using l cpu by (simp add: loose_def)
  have q: "queued_ok ?s1 cpu t" using t by (simp add: queued_ok_def)
  have "cpu_inv s' c" if cc: "c < cpu_count s" for c
  proof (cases "c = cpu")
    case True
    have "queued_ok s' cpu u = queued_ok ?s1 cpu u" "current_ok s' cpu u = current_ok ?s1 cpu u"
      "idle_ok s' cpu u = idle_ok ?s1 cpu u" "zombie_ok s' cpu u = zombie_ok ?s1 cpu u" for u
      by (simp_all add: queued_ok_def current_ok_def idle_ok_def zombie_ok_def s')
    then show ?thesis
      using c[OF cpu] q rc nq insert_task_distinct[of "runq s cpu" t "eprio ?s1"] unfolding True cpu_inv_def by (simp add: s')
  next
    case False
    then show ?thesis using c[OF cc] by (intro cpu_inv_frame[OF c[OF cc]]) (simp_all add: s' same_task_def cpu_inv_def)
  qed
  then show ?thesis using i1 unfolding s'_def[symmetric] sched_inv_def by (simp add: s')
qed

lemma remove_queue_inv:
  assumes inv: "sched_inv s" and cpu: "cpu < cpu_count s" and r: "remove_from_cpu_queue_locked t cpu s = (b, s')"
  shows "sched_inv s'" "b \<longleftrightarrow> t \<in> set (runq s cpu)" "b \<Longrightarrow> loose s' t" "b \<Longrightarrow> queued_ok s cpu t" "tcb s' = tcb s"
    "\<not> b \<Longrightarrow> s' = s" "current_task s' = current_task s" "cpu_count s' = cpu_count s" "isolated_cores s' = isolated_cores s"
    "loose s u \<Longrightarrow> loose s' u" "cpu_steal_deques s' = cpu_steal_deques s" "sleep_queue s' = sleep_queue s"
proof -
  have c: "cpu_inv s c" if "c < cpu_count s" for c using inv_cpu[OF inv that] .
  show b: "b \<longleftrightarrow> t \<in> set (runq s cpu)" and "\<not> b \<Longrightarrow> s' = s"
    using r by (auto simp: remove_from_cpu_queue_locked_def unlink_task_eq split: if_splits)
  show f: "tcb s' = tcb s" "current_task s' = current_task s" "cpu_count s' = cpu_count s" "isolated_cores s' = isolated_cores s"
    "cpu_steal_deques s' = cpu_steal_deques s" "sleep_queue s' = sleep_queue s"
    using r by (auto simp: remove_from_cpu_queue_locked_def split: option.splits)
  show "queued_ok s cpu t" if b using c[OF cpu] b that by (simp add: cpu_inv_def)
  have rq: "cpu_rq s' = (cpu_rq s)(cpu := (cpu_rq s cpu)\<lparr>rq_tasks := remove1 t (runq s cpu),
      ready_count := length (runq s cpu) - 1\<rparr>)" if b
  proof -
    have "Suc 0 \<le> length (runq s cpu)" using b that by (cases "runq s cpu") auto
    then have "u32_sub (ready_count (cpu_rq s cpu)) 1 = length (runq s cpu) - 1"
      using c[OF cpu] runq_length[OF c[OF cpu]] by (simp add: cpu_inv_def u32_sub_eq)
    then show ?thesis using r b that by (auto simp: remove_from_cpu_queue_locked_def unlink_task_eq)
  qed
  show "sched_inv s'"
  proof (cases b)
    case True
    have "cpu_inv s' d" if d: "d < cpu_count s" for d
    proof (cases "d = cpu")
      case True
      have "length (remove1 t (runq s cpu)) = length (runq s cpu) - 1" using b \<open>b\<close> by (simp add: length_remove1)
      moreover have "queued_ok s' cpu u = queued_ok s cpu u" "current_ok s' cpu u = current_ok s cpu u"
        "idle_ok s' cpu u = idle_ok s cpu u" "zombie_ok s' cpu u = zombie_ok s cpu u" for u
        by (simp_all add: queued_ok_def current_ok_def idle_ok_def zombie_ok_def f rq[OF \<open>b\<close>])
      ultimately show ?thesis using c[OF cpu] set_remove1_subset[of t "runq s cpu"] unfolding True cpu_inv_def
        by (auto simp: rq[OF \<open>b\<close>] f)
    next
      case False
      then show ?thesis using c[OF d]
        by (intro cpu_inv_frame[OF c[OF d]]) (simp_all add: f rq[OF \<open>b\<close>] same_task_def cpu_inv_def)
    qed
    moreover have "next_task_id s' = next_task_id s"
      using r by (auto simp: remove_from_cpu_queue_locked_def split: option.splits)
    ultimately show ?thesis using inv f unfolding sched_inv_def by simp
  next
    case False
    then show ?thesis using inv r by (auto simp: remove_from_cpu_queue_locked_def split: option.splits)
  qed
  show "loose s' t" if tb: b
  proof -
    have q: "queued_ok s cpu t" using c[OF cpu] b tb by (simp add: cpu_inv_def)
    have "t \<notin> set (runq s' d) \<and> current_task s d \<noteq> Some t \<and> zombie (cpu_rq s' d) \<noteq> Some t \<and> idle_task (cpu_rq s' d) \<noteq> Some t"
      if d: "d < cpu_count s" for d
    proof -
      have "d = cpu" if "t \<in> set (runq s d)" using c[OF d] that q by (auto simp: cpu_inv_def queued_ok_def)
      then have "t \<notin> set (runq s' d)" using c[OF cpu] rq[OF tb] by (auto simp: cpu_inv_def)
      moreover have "current_task s d \<noteq> Some t" using c[OF d] q by (auto simp: cpu_inv_def queued_ok_def current_ok_def)
      moreover have e: "zombie (cpu_rq s' d) = zombie (cpu_rq s d)" "idle_task (cpu_rq s' d) = idle_task (cpu_rq s d)"
        by (simp_all add: rq[OF tb])
      moreover have "zombie (cpu_rq s d) \<noteq> Some t" using c[OF d] q by (auto simp: cpu_inv_def queued_ok_def zombie_ok_def)
      moreover have "idle_task (cpu_rq s d) \<noteq> Some t" using c[OF d] q by (auto simp: cpu_inv_def queued_ok_def idle_ok_def)
      ultimately show ?thesis by simp
    qed
    then show ?thesis unfolding loose_def f by simp
  qed
  show "loose s' u" if "loose s u"
  proof (cases b)
    case True
    then show ?thesis using that unfolding loose_def f rq[OF True] by (auto dest: notin_set_remove1)
  next
    case False
    then show ?thesis using that r by (auto simp: remove_from_cpu_queue_locked_def split: option.splits)
  qed
qed

section \<open>Placement\<close>

lemma inv_misc [simp]:
  "sched_inv (s\<lparr>task_count := n\<rparr>) = sched_inv s" "sched_inv (s\<lparr>rr_next := n\<rparr>) = sched_inv s"
  "sched_inv (s\<lparr>timer_ticks := n\<rparr>) = sched_inv s" "sched_inv (s\<lparr>isolated_cores := m\<rparr>) = sched_inv s"
  "sched_inv (s\<lparr>rebalance_tick_counter := n\<rparr>) = sched_inv s" "sched_inv (s\<lparr>rebalance_migrations := n\<rparr>) = sched_inv s"
  "sched_inv (s\<lparr>sleep_queue := q\<rparr>) = sched_inv s"
  by (rule sched_inv_cong; simp)+

lemma loose_misc [simp]:
  "loose (s\<lparr>task_count := n\<rparr>) t = loose s t" "loose (s\<lparr>rr_next := n\<rparr>) t = loose s t"
  "loose (s\<lparr>sleep_queue := q\<rparr>) t = loose s t" "loose (s\<lparr>rebalance_tick_counter := n\<rparr>) t = loose s t"
  "loose (s\<lparr>cpu_steal_deques := ds\<rparr>) t = loose s t"
  by (simp_all add: loose_def)

lemma inv_deque:
  assumes "sched_inv s" "deque_inv d"
  shows "sched_inv (s\<lparr>cpu_steal_deques := (cpu_steal_deques s)(c := d)\<rparr>)"
proof -
  have "cpu_inv (s\<lparr>cpu_steal_deques := (cpu_steal_deques s)(c := d)\<rparr>) cpu" if "cpu < cpu_count s" for cpu
    using inv_cpu[OF assms(1) that] assms(2)
    by (intro cpu_inv_frame[OF inv_cpu[OF assms(1) that]]) (auto simp: same_task_def cpu_inv_def)
  then show ?thesis using assms(1) by (simp add: sched_inv_def)
qed

text \<open>A task that may be put on a queue.\<close>

definition addable :: "sched_state \<Rightarrow> nat \<Rightarrow> bool" where
  "addable s t \<longleftrightarrow> loose s t \<and> t < MAX_TASKS \<and> t_id (tcb s t) \<noteq> 0 \<and> \<not> t_idle (tcb s t)"

lemma addable_misc [simp]:
  "addable (s\<lparr>task_count := n\<rparr>) t = addable s t" "addable (s\<lparr>rr_next := n\<rparr>) t = addable s t"
  "addable (s\<lparr>sleep_queue := q\<rparr>) t = addable s t"
  by (simp_all add: addable_def)

lemma add_task_to_cpu_inv:
  assumes inv: "sched_inv s" and a: "addable s t"
  shows "sched_inv (scheduler_add_task_to_cpu now t cpu s)"
proof (cases "t_state (tcb s t) \<noteq> TASK_READY \<or> cpu \<ge> cpu_count s")
  case True
  then show ?thesis using inv by (auto simp: scheduler_add_task_to_cpu_def)
next
  case False
  let ?s1 = "(add_to_cpu_queue_locked now t cpu s)\<lparr>task_count := u32_add (task_count (add_to_cpu_queue_locked now t cpu s)) 1\<rparr>"
  have cpu: "cpu < cpu_count s" using False by simp
  have i1: "sched_inv ?s1" using add_to_queue_inv[OF inv cpu] a False by (simp add: addable_def)
  have "cpu_count ?s1 = cpu_count s" by (simp add: add_to_cpu_queue_locked_def Let_def)
  then have "deque_inv (cpu_steal_deques ?s1 cpu)" using inv_cpu[OF i1, of cpu] cpu by (simp add: cpu_inv_def)
  then have "deque_inv (snd (steal_deque_push (cpu_steal_deques ?s1 cpu) t g))" for g
    using sd.push_law[of "cpu_steal_deques ?s1 cpu" t g] by (metis prod.collapse)
  then show ?thesis using False i1 inv_deque[OF i1] by (simp add: scheduler_add_task_to_cpu_def Let_def)
qed

lemma assign_frame:
  obtains c r where "heuristic_assign_cpu now t s = (c, s\<lparr>rr_next := r\<rparr>)"
proof -
  have target: "\<exists>c r. find_target_cpu now s = (c, s\<lparr>rr_next := r\<rparr>)"
    by (auto simp: find_target_cpu_def Let_def split: prod.splits)
  have "\<exists>c. find_performance_cpu now s = (c, s) \<or> find_performance_cpu now s = find_target_cpu now s"
    by (auto simp: find_performance_cpu_def split: prod.splits)
  moreover have "s = s\<lparr>rr_next := rr_next s\<rparr>" by simp
  ultimately have "\<exists>c r. find_performance_cpu now s = (c, s\<lparr>rr_next := r\<rparr>)" using target by metis
  then have "\<exists>c r. heuristic_assign_cpu now t s = (c, s\<lparr>rr_next := r\<rparr>)" using target by (simp add: heuristic_assign_cpu_def)
  then show thesis using that by blast
qed

lemma add_task_inv:
  assumes inv: "sched_inv s" and a: "addable s t"
  shows "sched_inv (scheduler_add_task cfg now t s)"
proof -
  let ?s1 = "upd_task t (\<lambda>x. x\<lparr>ai_priority := TASK_AI_PRIORITY_NONE\<rparr>) s"
  have i: "sched_inv ?s1" "addable ?s1 t" using inv a by (simp_all add: inv_upd_neutral addable_def)
  obtain c r where h: "heuristic_assign_cpu now t ?s1 = (c, ?s1\<lparr>rr_next := r\<rparr>)" by (rule assign_frame)
  have "sched_inv (?s1\<lparr>rr_next := r\<rparr>)" "addable (?s1\<lparr>rr_next := r\<rparr>) t" using i by simp_all
  then show ?thesis using add_task_to_cpu_inv i inv h by (simp add: scheduler_add_task_def Let_def)
qed

section \<open>Movement\<close>

lemma queued_addable: "queued_ok s cpu t \<Longrightarrow> tcb s' = tcb s \<Longrightarrow> loose s' t \<Longrightarrow> addable s' t \<and> t_state (tcb s' t) = TASK_READY"
  by (simp add: addable_def queued_ok_def)

lemma remove_task_inv: "sched_inv s \<Longrightarrow> sched_inv (scheduler_remove_task t s)"
  using remove_queue_inv(1)[of s "assigned_cpu (tcb s t)" t]
  by (cases "remove_from_cpu_queue_locked t (assigned_cpu (tcb s t)) s") (auto simp: scheduler_remove_task_def Let_def)

lemma find_prev_next_member: "find_prev_next t prev xs = Some r \<Longrightarrow> t \<in> set xs"
  by (induction xs arbitrary: prev) (auto split: if_splits)

lemma reposition_inv:
  assumes inv: "sched_inv s"
  shows "sched_inv (sched_reposition_task now t s)"
proof -
  let ?cpu = "assigned_cpu (tcb s t)"
  show ?thesis
  proof (cases "?cpu < cpu_count s \<and> find_prev_next t None (runq s ?cpu) \<noteq> None")
    case True
    let ?s1 = "update_deadline_boost now t s"
    have i1: "sched_inv ?s1" "?cpu < cpu_count ?s1" using inv True by simp_all
    have mem: "t \<in> set (runq ?s1 ?cpu)" using True find_prev_next_member by fastforce
    obtain b s2 where r: "remove_from_cpu_queue_locked t ?cpu ?s1 = (b, s2)" by (cases "remove_from_cpu_queue_locked t ?cpu ?s1")
    note rr = remove_queue_inv[OF i1 r]
    have b using rr(2) mem by simp
    then have "addable s2 t \<and> t_state (tcb s2 t) = TASK_READY" using queued_addable[OF rr(4) rr(5) rr(3)] by simp
    then have "sched_inv (add_to_cpu_queue_locked now t ?cpu s2)"
      using add_to_queue_inv[OF rr(1), of ?cpu t now] i1(2) rr(8) by (simp add: addable_def)
    then show ?thesis using True r i1 by (auto simp: sched_reposition_task_def reposition_locked_def Let_def split: option.splits)
  next
    case False
    then show ?thesis using inv
      by (cases "find_prev_next t None (runq s ?cpu)") (auto simp: sched_reposition_task_def reposition_locked_def Let_def)
  qed
qed

text \<open>Migration: of a queued task, or of a task no CPU knows.\<close>

lemma migrate_inv:
  assumes inv: "sched_inv s" and old: "assigned_cpu (tcb s t) < cpu_count s"
    and t: "t_state (tcb s t) = TASK_RUNNING \<or> t \<in> set (runq s (assigned_cpu (tcb s t))) \<or> addable s t"
  shows "sched_inv (snd (sched_migrate_task now t target s))"
proof (cases "target < cpu_count s \<and> t_state (tcb s t) \<noteq> TASK_RUNNING \<and> assigned_cpu (tcb s t) \<noteq> target \<and>
    (cpu_affinity (tcb s t) = CPU_AFFINITY_ANY \<or> cpu_affinity (tcb s t) = target)")
  case False
  then have "snd (sched_migrate_task now t target s) = s" by (auto simp: sched_migrate_task_def Let_def)
  then show ?thesis using inv by simp
next
  case go: True
  let ?old = "assigned_cpu (tcb s t)"
  obtain b s2 where r: "remove_from_cpu_queue_locked t ?old s = (b, s2)" by (cases "remove_from_cpu_queue_locked t ?old s")
  note rr = remove_queue_inv[OF inv old r]
  show ?thesis
  proof (cases b)
    case True
    then have "addable s2 t \<and> t_state (tcb s2 t) = TASK_READY" using queued_addable[OF rr(4) rr(5) rr(3)] by simp
    then have "sched_inv (add_to_cpu_queue_locked now t target s2)"
      using add_to_queue_inv[OF rr(1), of target t now] go rr(8) by (simp add: addable_def)
    moreover have "t_state (tcb s t) = TASK_READY" using rr(4) True by (simp add: queued_ok_def)
    ultimately show ?thesis using go r True by (auto simp: sched_migrate_task_def Let_def)
  next
    case False
    then have "addable s t" using t go rr(2) by auto
    then have "sched_inv (upd_task t (\<lambda>x. x\<lparr>assigned_cpu := target\<rparr>) s)" using inv_upd_loose[OF inv, of t] by (simp add: addable_def)
    then show ?thesis using go r False rr(6) by (auto simp: sched_migrate_task_def Let_def)
  qed
qed

text \<open>The current task of a CPU is known to no other CPU, nor to its queue.\<close>

lemma current_known:
  assumes inv: "sched_inv s" and cpu: "cpu < cpu_count s" and cur: "current_task s cpu = Some t" and c: "c < cpu_count s"
  shows "t \<notin> set (runq s c)" "zombie (cpu_rq s c) \<noteq> Some t" "current_task s c = Some t \<longleftrightarrow> c = cpu"
    "\<not> t_idle (tcb s t) \<Longrightarrow> idle_task (cpu_rq s c) \<noteq> Some t"
proof -
  have t: "current_ok s cpu t" using inv_cpu[OF inv cpu] cur by (simp add: cpu_inv_def)
  note d = cpu_inv_dest(1-4)[OF inv_cpu[OF inv c], of t]
  show "t \<notin> set (runq s c)" using d(1) t by (auto simp: queued_ok_def current_ok_def)
  show "zombie (cpu_rq s c) \<noteq> Some t" using d(4) t cur by (auto simp: zombie_ok_def current_ok_def)
  show "current_task s c = Some t \<longleftrightarrow> c = cpu" using d(2) t cur by (auto simp: current_ok_def)
  show "idle_task (cpu_rq s c) \<noteq> Some t" if "\<not> t_idle (tcb s t)" using d(3) that by (auto simp: idle_ok_def)
qed

lemma inv_upd_current:
  assumes inv: "sched_inv s" and cpu: "cpu < cpu_count s" and cur: "current_task s cpu = Some t" and ni: "\<not> t_idle (tcb s t)"
    and st: "st \<in> {TASK_RUNNING, TASK_BLOCKED, TASK_TERMINATED}"
  shows "sched_inv (set_state t st s)"
proof -
  note k = current_known[OF inv cpu cur]
  have "cpu_inv (set_state t st s) c" if c: "c < cpu_count s" for c
  proof (cases "c = cpu")
    case False
    then show ?thesis using k[OF c] ni inv_cpu[OF inv c]
      by (intro cpu_inv_frame[OF inv_cpu[OF inv c]]) (auto simp: set_state_def same_task_def cpu_inv_def)
  next
    case True
    let ?s = "set_state t st s"
    have same: "same_task s ?s u" if "u \<noteq> t" for u using that by (simp add: same_task_def set_state_def)
    have fr: "cpu_rq ?s = cpu_rq s" "current_task ?s = current_task s" "cpu_steal_deques ?s = cpu_steal_deques s"
      by (simp_all add: set_state_def)
    note ic = inv_cpu[OF inv cpu, unfolded cpu_inv_def]
    have "\<forall>u \<in> set (runq s cpu). queued_ok ?s cpu u" using ic ok_same(1)[OF same] k(1)[OF cpu] fr by metis
    moreover have "current_ok ?s cpu t" using ic cur st ni by (auto simp: current_ok_def set_state_def)
    moreover have "\<exists>i. idle_task (cpu_rq s cpu) = Some i \<and> idle_ok ?s cpu i" using ic ok_same(3)[OF same] k(4)[OF cpu ni] fr by metis
    moreover have "\<forall>z. zombie (cpu_rq s cpu) = Some z \<longrightarrow> zombie_ok ?s cpu z" using ic ok_same(4)[OF same] k(2)[OF cpu] fr by metis
    ultimately show ?thesis using ic cur unfolding True cpu_inv_def fr by simp
  qed
  then show ?thesis using inv ni by (simp add: sched_inv_def set_state_def)
qed

lemma remove_upd_commute:
  "remove_from_cpu_queue_locked t cpu (upd_task u f s) =
     (case remove_from_cpu_queue_locked t cpu s of (b, s') \<Rightarrow> (b, upd_task u f s'))"
  by (simp add: remove_from_cpu_queue_locked_def upd_task_def upd_rq_def split: option.splits)

text \<open>Termination of any task but an idle one.  A running task stays current until its CPU switches.\<close>

lemma terminate_inv:
  assumes inv: "sched_inv s" and t: "\<not> t_idle (tcb s t)"
    and known: "addable s t \<or> (\<exists>cpu < cpu_count s. current_task s cpu = Some t \<or> t \<in> set (runq s cpu))"
  shows "\<exists>s'. scheduler_terminate_task t s = Some s' \<and> sched_inv s' \<and> current_task s' = current_task s \<and> cpu_count s' = cpu_count s"
proof (cases "assigned_cpu (tcb s t) < cpu_count s")
  case False
  then show ?thesis using inv t by (simp add: scheduler_terminate_task_def Let_def)
next
  case cpu: True
  let ?cpu = "assigned_cpu (tcb s t)"
  obtain b s1 where r: "remove_from_cpu_queue_locked t ?cpu s = (b, s1)" by (cases "remove_from_cpu_queue_locked t ?cpu s")
  note rr = remove_queue_inv[OF inv cpu r]
  let ?s1 = "set_state t TASK_TERMINATED s1"
  have r1: "remove_from_cpu_queue_locked t ?cpu (set_state t TASK_TERMINATED s) = (b, ?s1)"
    by (simp add: set_state_def remove_upd_commute r)
  have i1: "sched_inv ?s1"
  proof (cases "b \<or> addable s t")
    case True
    then have "loose s1 t" using rr(3) rr(10)[of t] by (auto simp: addable_def)
    then show ?thesis using inv_upd_loose[OF rr(1)] t rr(5) by (simp add: set_state_def)
  next
    case False
    then obtain cpu where c: "cpu < cpu_count s" "current_task s cpu = Some t \<or> t \<in> set (runq s cpu)" using known by blast
    have "t \<notin> set (runq s cpu)" using False rr(2) inv_cpu[OF inv c(1)] by (auto simp: cpu_inv_def queued_ok_def)
    then show ?thesis using inv_upd_current[OF inv c(1)] c(2) t rr(6) False by simp
  qed
  let ?s2 = "if b then ?s1\<lparr>task_count := u32_sub (task_count ?s1) 1\<rparr> else ?s1"
  have i2: "sched_inv ?s2" using i1 by simp
  have fr: "cpu_count ?s2 = cpu_count s" "current_task ?s2 = current_task s" using rr(7,8) by (simp_all add: set_state_def)
  have "deque_inv (cpu_steal_deques ?s2 ?cpu)" using inv_cpu[OF i2, of ?cpu] cpu fr by (simp add: cpu_inv_def)
  then have "deque_inv (snd (steal_deque_remove (cpu_steal_deques ?s2 ?cpu) (Some t)))"
    using sd.drop_law[of "cpu_steal_deques ?s2 ?cpu" t] by (metis prod.collapse)
  then have "sched_inv (?s2\<lparr>cpu_steal_deques := (cpu_steal_deques ?s2)(?cpu := snd (steal_deque_remove (cpu_steal_deques ?s2 ?cpu) (Some t)))\<rparr>)"
    by (rule inv_deque[OF i2])
  then show ?thesis using t cpu r1 fr by (simp add: scheduler_terminate_task_def Let_def)
qed

section \<open>Stealing\<close>

lemma probe_victim_inv:
  assumes "sched_inv s" "victim < cpu_count s" "probe_victim n victim s = (r, s')"
  shows "sched_inv s' \<and> current_task s' = current_task s \<and> cpu_count s' = cpu_count s \<and> tcb s' = tcb s \<and>
    isolated_cores s' = isolated_cores s \<and> sleep_queue s' = sleep_queue s \<and> preempt_disabled s' = preempt_disabled s \<and>
    (\<forall>u. loose s u \<longrightarrow> loose s' u) \<and>
    (\<forall>t. r = Some t \<longrightarrow> loose s' t \<and> queued_ok s victim t \<and> cpu_affinity (tcb s t) = CPU_AFFINITY_ANY \<and> t \<in> set (runq s victim))"
  using assms
proof (induction n arbitrary: s r s')
  case (Suc n)
  obtain e d where st: "steal_deque_steal (cpu_steal_deques s victim) = (e, d)" by (cases "steal_deque_steal (cpu_steal_deques s victim)")
  have d: "deque_inv d"
    using sd.front_law[OF _ st] inv_cpu[OF Suc.prems(1,2)] by (simp add: cpu_inv_def)
  let ?s1 = "s\<lparr>cpu_steal_deques := (cpu_steal_deques s)(victim := d)\<rparr>"
  have i1: "sched_inv ?s1" by (rule inv_deque[OF Suc.prems(1) d])
  show ?case
  proof (cases e)
    case None
    then show ?thesis using Suc.prems(3) st i1 by auto
  next
    case (Some p)
    obtain c g where p: "p = (c, g)" by (cases p)
    let ?ok = "t_generation (tcb s c) = g \<and> t_state (tcb s c) = TASK_READY \<and> assigned_cpu (tcb s c) = victim \<and>
      cpu_affinity (tcb s c) = CPU_AFFINITY_ANY"
    show ?thesis
    proof (cases ?ok)
      case False
      then have "probe_victim n victim ?s1 = (r, s')" using Suc.prems(3) st Some p by (auto simp: Let_def split: if_splits)
      from Suc.IH[OF i1 _ this] Suc.prems(2) show ?thesis by (simp add: queued_ok_def)
    next
      case True
      obtain b s2 where r2: "remove_from_cpu_queue_locked c victim ?s1 = (b, s2)" by (cases "remove_from_cpu_queue_locked c victim ?s1")
      have v: "victim < cpu_count ?s1" using Suc.prems(2) by simp
      note rr = remove_queue_inv[OF i1 v r2]
      have pd: "preempt_disabled s2 = preempt_disabled s"
        using r2 by (auto simp: remove_from_cpu_queue_locked_def split: option.splits)
      have call: "(r, s') = (if b then (Some c, s2) else probe_victim n victim s2)"
        using Suc.prems(3) st Some p True r2 by (simp add: Let_def)
      show ?thesis
      proof (cases b)
        case True
        then have "r = Some c" "s' = s2" using call by auto
        then show ?thesis using rr True pd \<open>?ok\<close> by (simp add: queued_ok_def)
      next
        case False
        then have "probe_victim n victim ?s1 = (r, s')" using call rr(6) by simp
        from Suc.IH[OF i1 v this] show ?thesis by (simp add: queued_ok_def)
      qed
    qed
  qed
qed simp

lemma steal_scan_inv:
  assumes "sched_inv s" "this_cpu < cpu_count s" "steal_scan this_cpu is s = (r, s')"
  shows "sched_inv s' \<and> current_task s' = current_task s \<and> cpu_count s' = cpu_count s \<and> tcb s' = tcb s \<and>
    sleep_queue s' = sleep_queue s \<and> (\<forall>u. loose s u \<longrightarrow> loose s' u) \<and>
    (\<forall>t. r = Some t \<longrightarrow> loose s' t \<and> cpu_affinity (tcb s t) = CPU_AFFINITY_ANY \<and>
      (\<exists>victim < cpu_count s. victim \<noteq> this_cpu \<and> queued_ok s victim t))"
  using assms
proof (induction "is" arbitrary: s)
  case (Cons i "is")
  let ?v = "(this_cpu + i) mod cpu_count s"
  have v: "?v < cpu_count s" using Cons.prems(2) by simp
  show ?case
  proof (cases "?v = this_cpu \<or> preempt_disabled s ?v")
    case True
    then have "steal_scan this_cpu is s = (r, s')" using Cons.prems(3) by (simp add: Let_def)
    from Cons.IH[OF Cons.prems(1,2) this] show ?thesis .
  next
    case False
    obtain q s1 where p: "probe_victim 32 ?v s = (q, s1)" by (cases "probe_victim 32 ?v s")
    note pv = probe_victim_inv[OF Cons.prems(1) v p]
    show ?thesis
    proof (cases q)
      case None
      then have "steal_scan this_cpu is s1 = (r, s')" using Cons.prems(3) False p by (simp add: Let_def)
      from Cons.IH[OF _ _ this] pv Cons.prems(2) show ?thesis by (simp add: queued_ok_def)
    next
      case (Some t)
      then have "r = Some t" "s' = s1" using Cons.prems(3) False p by (auto simp: Let_def)
      then show ?thesis using pv Some v False by auto
    qed
  qed
qed simp

lemma try_steal_inv:
  assumes "sched_inv s" "this_cpu < cpu_count s" "sched_try_steal this_cpu s = (r, s')"
  shows "sched_inv s' \<and> current_task s' = current_task s \<and> cpu_count s' = cpu_count s \<and> tcb s' = tcb s \<and>
    sleep_queue s' = sleep_queue s \<and> (\<forall>u. loose s u \<longrightarrow> loose s' u) \<and>
    (\<forall>t. r = Some t \<longrightarrow> loose s' t \<and> cpu_affinity (tcb s t) = CPU_AFFINITY_ANY \<and> \<not> core_isolated s this_cpu \<and>
      (\<exists>victim < cpu_count s. victim \<noteq> this_cpu \<and> queued_ok s victim t))"
  using steal_scan_inv[OF assms(1,2), of "[1 ..< cpu_count s]" r s'] assms
  by (auto simp: sched_try_steal_def split: if_splits)

end
