(* ===== verification/SchedDispatch.thy ===== *)
theory SchedDispatch
  imports SchedInv
begin

text \<open>
  Dispatch: \<open>schedule\<close> keeps the scheduler invariant and never panics.  The proofs work on the state
  with the current task of the switching CPU detached: the outgoing task is parked (queued, idle,
  blocked or terminated), the incoming one is taken from the queue, and then becomes current.
\<close>

section \<open>Detaching and attaching the current task\<close>

abbreviation put_current :: "nat \<Rightarrow> nat option \<Rightarrow> sched_state \<Rightarrow> sched_state" where
  "put_current cpu c s \<equiv> s\<lparr>current_task := (current_task s)(cpu := c)\<rparr>"

lemma inv_counters [simp]:
  "sched_inv (s\<lparr>context_switches := n\<rparr>) = sched_inv s" "sched_inv (s\<lparr>preempt_disabled := p\<rparr>) = sched_inv s"
  by (rule sched_inv_cong; simp)+

lemma detach_inv:
  assumes inv: "sched_inv s" and cpu: "cpu < cpu_count s"
  shows "sched_inv (put_current cpu None s)"
    "current_task s cpu = Some c \<Longrightarrow> \<not> t_idle (tcb s c) \<Longrightarrow> loose (put_current cpu None s) c"
proof -
  have "cpu_inv (put_current cpu None s) c" if c: "c < cpu_count s" for c
  proof (cases "c = cpu")
    case False
    then show ?thesis using cpu_inv_dest(5)[OF inv_cpu[OF inv c]]
      by (intro cpu_inv_frame[OF inv_cpu[OF inv c]]) (auto simp: same_task_def)
  next
    case True
    then show ?thesis using inv_cpu[OF inv c]
      by (auto simp: cpu_inv_def queued_ok_def idle_ok_def zombie_ok_def)
  qed
  then show "sched_inv (put_current cpu None s)" using inv by (simp add: sched_inv_def)
  assume c: "current_task s cpu = Some c" and ni: "\<not> t_idle (tcb s c)"
  then show "loose (put_current cpu None s) c"
    using current_known[OF inv cpu c] by (auto simp: loose_def)
qed

lemma attach_inv:
  assumes inv: "sched_inv d" and cpu: "cpu < cpu_count d"
    and n: "n < MAX_TASKS" "t_id (tcb d n) \<noteq> 0" "assigned_cpu (tcb d n) = cpu" "t_state (tcb d n) = TASK_RUNNING"
    and free: "loose d n \<and> \<not> t_idle (tcb d n) \<or> idle_task (cpu_rq d cpu) = Some n"
  shows "sched_inv (put_current cpu (Some n) d)"
proof -
  have "cpu_inv (put_current cpu (Some n) d) c" if c: "c < cpu_count d" for c
  proof (cases "c = cpu")
    case False
    then show ?thesis using cpu_inv_dest(5)[OF inv_cpu[OF inv c]]
      by (intro cpu_inv_frame[OF inv_cpu[OF inv c]]) (auto simp: same_task_def)
  next
    case True
    note d = cpu_inv_dest[OF inv_cpu[OF inv cpu]]
    have "current_ok (put_current cpu (Some n) d) cpu n" using n free by (auto simp: current_ok_def)
    moreover have "zombie_ok (put_current cpu (Some n) d) cpu z" if z: "zombie (cpu_rq d cpu) = Some z" for z
    proof -
      have "z \<noteq> n" using free z d(4)[OF z] d(3)[of n] cpu by (auto simp: loose_def zombie_ok_def idle_ok_def)
      then show ?thesis using d(4)[OF z] by (simp add: zombie_ok_def)
    qed
    ultimately show ?thesis using inv_cpu[OF inv cpu] unfolding True
      by (simp add: cpu_inv_def queued_ok_def idle_ok_def)
  qed
  then show ?thesis using inv by (simp add: sched_inv_def)
qed

lemma inv_upd_idle:
  assumes inv: "sched_inv d" and cpu: "cpu < cpu_count d" and det: "current_task d cpu = None"
    and i: "idle_task (cpu_rq d cpu) = Some i"
    and f: "t_id (f (tcb d i)) = t_id (tcb d i)" "assigned_cpu (f (tcb d i)) = assigned_cpu (tcb d i)"
      "t_idle (f (tcb d i)) = t_idle (tcb d i)" "t_state (f (tcb d i)) \<in> {TASK_READY, TASK_RUNNING}"
  shows "sched_inv (upd_task i f d)"
proof -
  have io: "idle_ok d cpu i" using cpu_inv_dest(3)[OF inv_cpu[OF inv cpu] i] .
  have "cpu_inv (upd_task i f d) c" if c: "c < cpu_count d" for c
  proof -
    note dc = cpu_inv_dest[OF inv_cpu[OF inv c]]
    have q: "i \<notin> set (runq d c)" using dc(1)[of i] io by (auto simp: queued_ok_def idle_ok_def)
    have z: "zombie (cpu_rq d c) \<noteq> Some i" using dc(4)[of i] io by (auto simp: zombie_ok_def idle_ok_def)
    have cu: "current_task d c \<noteq> Some i" using dc(2)[of i] io det by (auto simp: current_ok_def idle_ok_def)
    show ?thesis
    proof (cases "c = cpu")
      case False
      then have "idle_task (cpu_rq d c) \<noteq> Some i" using dc(3)[of i] io by (auto simp: idle_ok_def)
      then show ?thesis using q z cu dc(5) by (intro cpu_inv_frame[OF inv_cpu[OF inv c]]) (auto simp: same_task_def)
    next
      case True
      have "idle_ok (upd_task i f d) cpu i" using io f by (simp add: idle_ok_def)
      moreover have "queued_ok (upd_task i f d) cpu u" if "u \<in> set (runq d cpu)" for u
        using dc(1)[of u] that q True by (auto simp: queued_ok_def)
      moreover have "zombie_ok (upd_task i f d) cpu u" if "zombie (cpu_rq d cpu) = Some u" for u
        using dc(4)[of u] that z True by (auto simp: zombie_ok_def)
      ultimately show ?thesis using inv_cpu[OF inv cpu] i det unfolding True cpu_inv_def by simp
    qed
  qed
  then show ?thesis using inv f by (simp add: sched_inv_def)
qed

lemma set_zombie_inv:
  assumes inv: "sched_inv d" and cpu: "cpu < cpu_count d" and z: "loose d z" "z < MAX_TASKS" "t_id (tcb d z) \<noteq> 0"
    "assigned_cpu (tcb d z) = cpu" "t_state (tcb d z) = TASK_TERMINATED" "\<not> t_idle (tcb d z)"
  shows "sched_inv (upd_rq cpu (\<lambda>rq. rq\<lparr>zombie := Some z\<rparr>) d)"
proof -
  let ?s = "upd_rq cpu (\<lambda>rq. rq\<lparr>zombie := Some z\<rparr>) d"
  have "cpu_inv ?s c" if c: "c < cpu_count d" for c
  proof (cases "c = cpu")
    case False
    then show ?thesis using cpu_inv_dest(5)[OF inv_cpu[OF inv c]]
      by (intro cpu_inv_frame[OF inv_cpu[OF inv c]]) (auto simp: same_task_def)
  next
    case True
    have "zombie_ok ?s cpu z" using z cpu by (simp add: zombie_ok_def loose_def)
    moreover have "queued_ok ?s cpu u = queued_ok d cpu u" "current_ok ?s cpu u = current_ok d cpu u"
      "idle_ok ?s cpu u = idle_ok d cpu u" for u
      by (simp_all add: queued_ok_def current_ok_def idle_ok_def)
    ultimately show ?thesis using inv_cpu[OF inv cpu] unfolding True cpu_inv_def by simp
  qed
  then show ?thesis using inv by (simp add: sched_inv_def)
qed

section \<open>Stealing and reaping\<close>

lemma schedule_steal_inv:
  assumes inv: "sched_inv s" and cpu: "cpu < cpu_count s"
  shows "sched_inv (schedule_steal now cpu s) \<and> current_task (schedule_steal now cpu s) = current_task s \<and>
    cpu_count (schedule_steal now cpu s) = cpu_count s"
proof (cases "runq s cpu = []")
  case True
  obtain r s1 where st: "sched_try_steal cpu s = (r, s1)" by (cases "sched_try_steal cpu s")
  note ts = try_steal_inv[OF inv cpu st]
  show ?thesis
  proof (cases r)
    case None
    then show ?thesis using ts True st by (simp add: schedule_steal_def)
  next
    case (Some t)
    then obtain v where "loose s1 t" "queued_ok s v t" using ts by blast
    then have "sched_inv (add_to_cpu_queue_locked now t cpu s1)"
      using add_to_queue_inv[of s1 cpu t now] ts cpu by (simp add: queued_ok_def)
    then show ?thesis using ts True st Some by (simp add: schedule_steal_def add_to_cpu_queue_locked_def Let_def)
  qed
qed (simp add: schedule_steal_def inv)

lemma schedule_reap_inv:
  assumes inv: "sched_inv s" and cpu: "cpu < cpu_count s"
  shows "\<exists>s'. schedule_reap cpu s = Some s' \<and> sched_inv s' \<and> current_task s' = current_task s \<and> cpu_count s' = cpu_count s \<and>
    zombie (cpu_rq s' cpu) = None"
proof (cases "zombie (cpu_rq s cpu)")
  case None
  then show ?thesis using inv by (simp add: schedule_reap_def)
next
  case (Some z)
  let ?s = "upd_rq cpu (\<lambda>rq. rq\<lparr>zombie := None\<rparr>) s"
  have zk: "zombie_ok s cpu z" using cpu_inv_dest(4)[OF inv_cpu[OF inv cpu] Some] .
  have "cpu_inv ?s c" if c: "c < cpu_count s" for c
  proof (cases "c = cpu")
    case False
    then show ?thesis using cpu_inv_dest(5)[OF inv_cpu[OF inv c]]
      by (intro cpu_inv_frame[OF inv_cpu[OF inv c]]) (auto simp: same_task_def)
  next
    case True
    have "queued_ok ?s cpu u = queued_ok s cpu u" "current_ok ?s cpu u = current_ok s cpu u"
      "idle_ok ?s cpu u = idle_ok s cpu u" for u
      by (simp_all add: queued_ok_def current_ok_def idle_ok_def)
    then show ?thesis using inv_cpu[OF inv cpu] unfolding True cpu_inv_def by simp
  qed
  then have i: "sched_inv ?s" using inv by (simp add: sched_inv_def)
  have "z \<notin> set (runq s c) \<and> current_task s c \<noteq> Some z \<and> idle_task (cpu_rq s c) \<noteq> Some z \<and> (c \<noteq> cpu \<longrightarrow> zombie (cpu_rq s c) \<noteq> Some z)"
    if c: "c < cpu_count s" for c
    using cpu_inv_dest(1-4)[OF inv_cpu[OF inv c], of z] zk
    by (auto simp: queued_ok_def current_ok_def idle_ok_def zombie_ok_def)
  then have "loose ?s z" by (simp add: loose_def)
  then have "sched_inv (upd_task z (\<lambda>x. x\<lparr>t_id := 0, t_generation := t_generation x + 1\<rparr>) ?s)"
    using inv_upd_loose[OF i] zk by (simp add: zombie_ok_def)
  then show ?thesis using Some zk by (simp add: schedule_reap_def task_destroy_def zombie_ok_def)
qed

lemma pick_next_some:
  assumes inv: "sched_inv s" and cpu: "cpu < cpu_count s"
  shows "pick_next_task cpu s = Some (case runq s cpu of h # _ \<Rightarrow> Some h | [] \<Rightarrow> idle_task (cpu_rq s cpu))"
  using cpu_inv_dest(1)[OF inv_cpu[OF inv cpu]]
  by (cases "runq s cpu") (auto simp: pick_next_task_def queued_ok_def)

section \<open>Requeue and switch\<close>

definition parked :: "sched_state \<Rightarrow> nat \<Rightarrow> nat \<Rightarrow> bool" where
  "parked d cpu c \<longleftrightarrow> idle_task (cpu_rq d cpu) = Some c \<or> c \<in> set (runq d cpu) \<or>
     (addable d c \<and> assigned_cpu (tcb d c) = cpu \<and> t_state (tcb d c) \<in> {TASK_BLOCKED, TASK_TERMINATED})"

lemma upd_commute:
  "upd_task t f (s\<lparr>current_task := m\<rparr>) = (upd_task t f s)\<lparr>current_task := m\<rparr>"
  "upd_rq cpu g (s\<lparr>current_task := m\<rparr>) = (upd_rq cpu g s)\<lparr>current_task := m\<rparr>"
  by (simp_all add: upd_task_def upd_rq_def)

lemma boost_commute: "update_deadline_boost now t (s\<lparr>current_task := m\<rparr>) = (update_deadline_boost now t s)\<lparr>current_task := m\<rparr>"
proof -
  have f: "tcb (s\<lparr>current_task := m\<rparr>) = tcb s" "deadline_cfg (s\<lparr>current_task := m\<rparr>) = deadline_cfg s"
    "ai_priority_actions (s\<lparr>current_task := m\<rparr>) = ai_priority_actions s" by simp_all
  have "boosted_priority now (s\<lparr>current_task := m\<rparr>) t = boosted_priority now s t"
    "effective_base_priority (s\<lparr>current_task := m\<rparr>) t = effective_base_priority s t"
    by (simp_all only: boosted_priority_def effective_base_priority_def f)
  then show ?thesis by (simp add: update_deadline_boost_def set_effective_priority_def upd_commute)
qed

lemma add_commute: "add_to_cpu_queue_locked now t cpu (s\<lparr>current_task := m\<rparr>) = (add_to_cpu_queue_locked now t cpu s)\<lparr>current_task := m\<rparr>"
proof -
  have "eprio (u\<lparr>current_task := m\<rparr>) = eprio u" for u by (rule ext) (simp add: eprio_def)
  then show ?thesis by (simp add: add_to_cpu_queue_locked_def upd_commute boost_commute Let_def)
qed

lemma set_state_commute: "set_state t st (s\<lparr>current_task := m\<rparr>) = (set_state t st s)\<lparr>current_task := m\<rparr>"
  by (simp add: set_state_def upd_commute)

lemmas put_commute = upd_commute boost_commute add_commute set_state_commute

lemma add_to_queue_frame [simp]:
  "current_task (add_to_cpu_queue_locked now t cpu s) = current_task s"
  "cpu_count (add_to_cpu_queue_locked now t cpu s) = cpu_count s"
  "set (runq (add_to_cpu_queue_locked now t cpu s) cpu) = insert t (set (runq s cpu))"
  "idle_task (cpu_rq (add_to_cpu_queue_locked now t cpu s) c) = idle_task (cpu_rq s c)"
  by (simp_all add: add_to_cpu_queue_locked_def Let_def)

lemma set_state_frame [simp]:
  "current_task (set_state t st s) = current_task s" "cpu_count (set_state t st s) = cpu_count s"
  "cpu_rq (set_state t st s) = cpu_rq s" "loose (set_state t st s) u = loose s u"
  "tcb (set_state t st s) = (tcb s)(t := (tcb s t)\<lparr>t_state := st\<rparr>)"
  by (simp_all add: set_state_def)

lemma head_boost_inv:
  assumes "sched_inv d" "parked d cpu c" "d' = (case runq d cpu of [] \<Rightarrow> d | h # _ \<Rightarrow> update_deadline_boost now h d)"
  shows "sched_inv d' \<and> current_task d' = current_task d \<and> cpu_count d' = cpu_count d \<and> parked d' cpu c"
  using assms by (auto simp: parked_def addable_def split: list.split)

lemma schedule_requeue_inv:
  assumes inv: "sched_inv s" and cpu: "cpu < cpu_count s" and cur: "current_task s cpu = Some c"
  shows "\<exists>d. schedule_requeue now cpu s = put_current cpu (Some c) d \<and> sched_inv d \<and>
    current_task d = (current_task s)(cpu := None) \<and> cpu_count d = cpu_count s \<and> parked d cpu c"
proof -
  define d where "d = put_current cpu None s"
  have s: "s = d\<lparr>current_task := current_task s\<rparr>" by (simp add: d_def)
  have m: "(current_task s)(cpu := Some c) = current_task s" using cur by (simp add: fun_upd_idem)
  have fr: "tcb d = tcb s" "cpu_rq d = cpu_rq s" "cpu_count d = cpu_count s" "current_task d = (current_task s)(cpu := None)"
    by (simp_all add: d_def)
  have ok: "current_ok s cpu c" using cpu_inv_dest(2)[OF inv_cpu[OF inv cpu] cur] .
  have inv_d: "sched_inv d" and loose_d: "\<not> t_idle (tcb s c) \<Longrightarrow> loose d c"
    using detach_inv[OF inv cpu] cur by (simp_all add: d_def)
  obtain i where i: "idle_task (cpu_rq s cpu) = Some i" "idle_ok s cpu i" using inv_cpu[OF inv cpu] by (auto simp: cpu_inv_def)
  show ?thesis
  proof (cases "t_state (tcb s c) = TASK_RUNNING")
    case False
    then have "\<not> t_idle (tcb s c)" using ok by (auto simp: current_ok_def)
    then have "parked d cpu c" using loose_d ok False by (auto simp: parked_def addable_def current_ok_def fr)
    then show ?thesis using inv_d False cur fr m by (intro exI[of _ d]) (simp add: schedule_requeue_def d_def)
  next
    case True
    let ?r = "set_state c TASK_READY d"
    define q where "q = (if c = i then ?r else add_to_cpu_queue_locked now c cpu ?r)"
    have q: "sched_inv q \<and> current_task q = current_task d \<and> cpu_count q = cpu_count s \<and> parked q cpu c"
    proof (cases "c = i")
      case True
      then show ?thesis using inv_upd_idle[OF inv_d, of cpu i "\<lambda>x. x\<lparr>t_state := TASK_READY\<rparr>"] i cpu
        by (simp add: set_state_def parked_def fr q_def)
    next
      case False
      then have ni: "\<not> t_idle (tcb s c)" using ok i by (auto simp: current_ok_def)
      have r: "sched_inv ?r" using inv_upd_loose[OF inv_d loose_d[OF ni]] ni by (simp add: set_state_def fr)
      have "sched_inv (add_to_cpu_queue_locked now c cpu ?r)"
        using add_to_queue_inv[OF r, of cpu c now] cpu loose_d[OF ni] ok ni by (simp add: current_ok_def fr)
      then show ?thesis using False by (simp add: parked_def q_def fr)
    qed
    define e where "e = (case runq q cpu of [] \<Rightarrow> q | h # _ \<Rightarrow> update_deadline_boost now h q)"
    have e: "sched_inv e \<and> current_task e = current_task q \<and> cpu_count e = cpu_count q \<and> parked e cpu c"
      using head_boost_inv[OF _ _ e_def] q by blast
    have "schedule_requeue now cpu (d\<lparr>current_task := w\<rparr>) = e\<lparr>current_task := w\<rparr>" if "w cpu = Some c" for w
      using True i(1) that unfolding schedule_requeue_def
      by (simp add: put_commute fr Let_def e_def q_def split: list.split)
    then have "schedule_requeue now cpu s = e\<lparr>current_task := current_task s\<rparr>" using s cur by metis
    then show ?thesis using e q m fr by (intro exI[of _ e]) simp
  qed
qed

text \<open>The next task and the queue without it.\<close>

definition next_of :: "sched_state \<Rightarrow> nat \<Rightarrow> nat option" where
  "next_of d cpu = (case runq d cpu of h # _ \<Rightarrow> Some h | [] \<Rightarrow> idle_task (cpu_rq d cpu))"

definition popped :: "nat \<Rightarrow> nat option \<Rightarrow> sched_state \<Rightarrow> sched_state" where
  "popped cpu nxt d = (case runq d cpu of
       h # q \<Rightarrow> if nxt \<noteq> idle_task (cpu_rq d cpu) \<and> nxt = Some h
                then upd_rq cpu (\<lambda>rq. rq\<lparr>rq_tasks := q, ready_count := u32_sub (ready_count rq) 1\<rparr>) d else d
     | [] \<Rightarrow> d)"

definition runnable_on :: "sched_state \<Rightarrow> nat \<Rightarrow> nat \<Rightarrow> bool" where
  "runnable_on d cpu n \<longleftrightarrow> n < MAX_TASKS \<and> t_id (tcb d n) \<noteq> 0 \<and> assigned_cpu (tcb d n) = cpu \<and>
     t_state (tcb d n) \<in> {TASK_READY, TASK_RUNNING} \<and> (loose d n \<and> \<not> t_idle (tcb d n) \<or> idle_task (cpu_rq d cpu) = Some n)"

lemma take_next:
  assumes inv: "sched_inv d" and cpu: "cpu < cpu_count d" and d1: "d1 = popped cpu (next_of d cpu) d"
  shows "\<exists>n. next_of d cpu = Some n \<and> sched_inv d1 \<and> tcb d1 = tcb d \<and> current_task d1 = current_task d \<and>
    cpu_count d1 = cpu_count d \<and> (\<forall>u. loose d u \<longrightarrow> loose d1 u) \<and> runnable_on d1 cpu n"
proof (cases "runq d cpu")
  case Nil
  obtain i where i: "idle_task (cpu_rq d cpu) = Some i" "idle_ok d cpu i" using inv_cpu[OF inv cpu] by (auto simp: cpu_inv_def)
  then show ?thesis using Nil inv d1 by (auto simp: next_of_def popped_def runnable_on_def idle_ok_def)
next
  case (Cons h q)
  note dd = cpu_inv_dest[OF inv_cpu[OF inv cpu]]
  have h: "queued_ok d cpu h" using dd(1)[of h] Cons by simp
  then have ni: "idle_task (cpu_rq d cpu) \<noteq> Some h" using dd(3)[of h] by (auto simp: queued_ok_def idle_ok_def)
  have r: "remove_from_cpu_queue_locked h cpu d = (True, d1)"
    using Cons ni by (simp add: d1 popped_def next_of_def remove_from_cpu_queue_locked_def)
  note rr = remove_queue_inv[OF inv cpu r]
  show ?thesis using Cons h rr(1,3,5,7,8,10) by (simp add: next_of_def runnable_on_def queued_ok_def)
qed

lemma run_next_inv:
  assumes inv: "sched_inv d" and cpu: "cpu < cpu_count d" and det: "current_task d cpu = None" and n: "runnable_on d cpu n"
    and f: "\<And>x. t_id (f x) = t_id x" "\<And>x. assigned_cpu (f x) = assigned_cpu x" "\<And>x. t_idle (f x) = t_idle x" "\<And>x. t_state (f x) = TASK_RUNNING"
    and e: "e = upd_task n f d"
  shows "sched_inv e \<and> runnable_on e cpu n \<and> t_state (tcb e n) = TASK_RUNNING"
proof -
  have "sched_inv e"
  proof (cases "idle_task (cpu_rq d cpu) = Some n")
    case True
    then show ?thesis using inv_upd_idle[OF inv cpu det True, of f] f e by simp
  next
    case False
    then show ?thesis using inv_upd_loose[OF inv, of n f] n f e by (simp add: runnable_on_def)
  qed
  then show ?thesis using n f e by (auto simp: runnable_on_def)
qed

definition note_zombie :: "nat \<Rightarrow> nat option \<Rightarrow> sched_state \<Rightarrow> sched_state" where
  "note_zombie cpu co g = (case co of
       Some c \<Rightarrow> if t_state (tcb g c) = TASK_TERMINATED then upd_rq cpu (\<lambda>rq. rq\<lparr>zombie := Some c\<rparr>) g else g
     | None \<Rightarrow> g)"

lemma outgoing_inv:
  assumes inv: "sched_inv g" and cpu: "cpu < cpu_count g" and n: "runnable_on g cpu n" "t_state (tcb g n) = TASK_RUNNING"
    and c: "\<And>c. co = Some c \<Longrightarrow> t_state (tcb g c) = TASK_TERMINATED \<Longrightarrow> addable g c \<and> assigned_cpu (tcb g c) = cpu"
  shows "sched_inv (put_current cpu (Some n) (note_zombie cpu co g))"
proof (cases "\<exists>c. co = Some c \<and> t_state (tcb g c) = TASK_TERMINATED")
  case False
  then have "note_zombie cpu co g = g" by (auto simp: note_zombie_def split: option.split)
  then show ?thesis using attach_inv[OF inv cpu] n by (simp add: runnable_on_def)
next
  case True
  then obtain c where co: "co = Some c" "t_state (tcb g c) = TASK_TERMINATED" by blast
  let ?z = "upd_rq cpu (\<lambda>rq. rq\<lparr>zombie := Some c\<rparr>) g"
  have "sched_inv ?z" using set_zombie_inv[OF inv cpu] c[OF co] co by (simp add: addable_def)
  moreover have "loose g n \<Longrightarrow> loose ?z n" using co n(2) by (auto simp: loose_def)
  ultimately show ?thesis using attach_inv[of ?z cpu n] n cpu co by (auto simp: runnable_on_def note_zombie_def)
qed

lemma parked_terminated:
  assumes "sched_inv d" "cpu < cpu_count d" "parked d cpu c" "t_state (tcb d c) = TASK_TERMINATED"
  shows "addable d c \<and> assigned_cpu (tcb d c) = cpu"
  using assms cpu_inv_dest(1,3)[OF inv_cpu[OF assms(1,2)], of c] by (auto simp: parked_def queued_ok_def idle_ok_def)

lemma switch_inv:
  assumes inv: "sched_inv d" and cpu: "cpu < cpu_count d" and det: "current_task d cpu = None"
    and c: "\<And>c. co = Some c \<Longrightarrow> parked d cpu c"
  shows "\<exists>s' n. next_of d cpu = Some n \<and> schedule_switch cpu (next_of d cpu) (put_current cpu co d) = Some s' \<and> sched_inv s' \<and>
    current_task s' = (current_task d)(cpu := Some n) \<and> cpu_count s' = cpu_count d"
proof -
  define d1 where "d1 = popped cpu (next_of d cpu) d"
  obtain n where n: "next_of d cpu = Some n" "sched_inv d1" "tcb d1 = tcb d" "current_task d1 = current_task d"
      "cpu_count d1 = cpu_count d" "\<And>u. loose d u \<Longrightarrow> loose d1 u" "runnable_on d1 cpu n"
    using take_next[OF inv cpu d1_def] by blast
  have cpu1: "cpu < cpu_count d1" "current_task d1 cpu = None" using n cpu det by simp_all
  have sw: "(case runq (put_current cpu co d) cpu of
      h # q \<Rightarrow> if next_of d cpu \<noteq> idle_task (cpu_rq (put_current cpu co d) cpu) \<and> next_of d cpu = Some h
               then upd_rq cpu (\<lambda>rq. rq\<lparr>rq_tasks := q, ready_count := u32_sub (ready_count rq) 1\<rparr>) (put_current cpu co d)
               else put_current cpu co d | [] \<Rightarrow> put_current cpu co d) = put_current cpu co d1"
    by (simp add: d1_def popped_def upd_commute split: list.split)
  show ?thesis
  proof (cases "co = Some n")
    case True
    let ?e = "upd_task n (\<lambda>x. x\<lparr>t_state := TASK_RUNNING\<rparr>) d1"
    have e: "sched_inv ?e \<and> runnable_on ?e cpu n \<and> t_state (tcb ?e n) = TASK_RUNNING"
      by (rule run_next_inv[OF n(2) cpu1 n(7) _ _ _ _ refl]) simp_all
    then have "sched_inv (put_current cpu (Some n) ?e)" using attach_inv[of ?e cpu n] cpu1 by (auto simp: runnable_on_def)
    moreover have "t_state (tcb d1 n) \<noteq> TASK_TERMINATED" "t_state (tcb d1 n) \<noteq> TASK_DESTROYED" using n(7) by (auto simp: runnable_on_def)
    ultimately show ?thesis using True n cpu1 unfolding schedule_switch_def sw
      by (simp add: set_state_def upd_commute Let_def)
  next
    case False
    define g where "g = (upd_task n (\<lambda>x. x\<lparr>t_state := TASK_RUNNING, t_switches := u64_add (t_switches x) 1\<rparr>) d1)
      \<lparr>context_switches := u64_add (context_switches d1) 1\<rparr>"
    have "sched_inv (upd_task n (\<lambda>x. x\<lparr>t_state := TASK_RUNNING, t_switches := u64_add (t_switches x) 1\<rparr>) d1) \<and>
      runnable_on (upd_task n (\<lambda>x. x\<lparr>t_state := TASK_RUNNING, t_switches := u64_add (t_switches x) 1\<rparr>) d1) cpu n \<and>
      t_state (tcb (upd_task n (\<lambda>x. x\<lparr>t_state := TASK_RUNNING, t_switches := u64_add (t_switches x) 1\<rparr>) d1) n) = TASK_RUNNING"
      by (rule run_next_inv[OF n(2) cpu1 n(7) _ _ _ _ refl]) simp_all
    then have g: "sched_inv g" "runnable_on g cpu n" "t_state (tcb g n) = TASK_RUNNING"
      by (simp_all add: g_def runnable_on_def loose_def)
    have gf: "cpu_count g = cpu_count d" "current_task g = current_task d" "\<And>u. loose g u = loose d1 u"
      "\<And>u. u \<noteq> n \<Longrightarrow> tcb g u = tcb d u" by (simp_all add: g_def n loose_def)
    have "addable g c \<and> assigned_cpu (tcb g c) = cpu" if "co = Some c" "t_state (tcb g c) = TASK_TERMINATED" for c
    proof -
      have "c \<noteq> n" using False that by auto
      then show ?thesis using parked_terminated[OF inv cpu c[OF that(1)]] that(2) gf n(6) by (simp add: addable_def)
    qed
    then have "sched_inv (put_current cpu (Some n) (note_zombie cpu co g))" using outgoing_inv[OF g(1) _ g(2,3)] cpu gf by simp
    moreover have "schedule_switch cpu (next_of d cpu) (put_current cpu co d) =
        Some ((put_current cpu (Some n) (note_zombie cpu co g))\<lparr>preempt_disabled := (preempt_disabled d)(cpu := False)\<rparr>)"
    proof -
      have pd: "preempt_disabled d1 = preempt_disabled d" by (simp add: d1_def popped_def split: list.split)
      show ?thesis using False n(1,4) unfolding schedule_switch_def sw
        by (auto simp: g_def note_zombie_def upd_task_def upd_rq_def Let_def pd split: option.split)
    qed
    moreover have "current_task (note_zombie cpu co g) = current_task d" "cpu_count (note_zombie cpu co g) = cpu_count d"
      by (simp_all add: note_zombie_def gf split: option.split)
    ultimately show ?thesis using n(1) by simp
  qed
qed

section \<open>The whole of \<open>schedule\<close>\<close>

text \<open>The outgoing task is parked in a detached state from which the switch starts.\<close>

lemma schedule_requeue_parked:
  assumes inv: "sched_inv s" and cpu: "cpu < cpu_count s"
  obtains d where "schedule_requeue now cpu s = put_current cpu (current_task s cpu) d" "sched_inv d"
    "current_task d = (current_task s)(cpu := None)" "cpu_count d = cpu_count s"
    "\<And>c. current_task s cpu = Some c \<Longrightarrow> parked d cpu c"
proof (cases "current_task s cpu")
  case None
  then have "schedule_requeue now cpu s = put_current cpu None s" "(current_task s)(cpu := None) = current_task s"
    by (simp_all add: schedule_requeue_def fun_upd_idem)
  then show thesis using that[of s] None inv by simp
next
  case (Some c)
  obtain d where "schedule_requeue now cpu s = put_current cpu (Some c) d" "sched_inv d"
      "current_task d = (current_task s)(cpu := None)" "cpu_count d = cpu_count s" "parked d cpu c"
    using schedule_requeue_inv[OF inv cpu Some, of now] by blast
  then show thesis using that[of d] Some by simp
qed

lemma schedule_split:
  assumes inv: "sched_inv s" and cpu: "cpu < cpu_count s"
  obtains s2 d where "schedule_reap cpu (schedule_steal now cpu s) = Some s2" "sched_inv s2" "current_task s2 = current_task s"
    "cpu_count s2 = cpu_count s" "schedule_requeue now cpu s2 = put_current cpu (current_task s2 cpu) d" "sched_inv d"
    "current_task d = (current_task s2)(cpu := None)" "cpu_count d = cpu_count s2"
    "\<forall>c. current_task s2 cpu = Some c \<longrightarrow> parked d cpu c"
    "schedule now cpu s = schedule_switch cpu (next_of d cpu) (put_current cpu (current_task s2 cpu) d)"
proof -
  note st = schedule_steal_inv[OF inv cpu, of now]
  obtain s2 where r: "schedule_reap cpu (schedule_steal now cpu s) = Some s2" "sched_inv s2" "current_task s2 = current_task s"
      "cpu_count s2 = cpu_count s"
    using schedule_reap_inv[of "schedule_steal now cpu s" cpu] st cpu by auto
  obtain d where d: "schedule_requeue now cpu s2 = put_current cpu (current_task s2 cpu) d" "sched_inv d"
      "current_task d = (current_task s2)(cpu := None)" "cpu_count d = cpu_count s2"
      "\<And>c. current_task s2 cpu = Some c \<Longrightarrow> parked d cpu c"
    using schedule_requeue_parked[OF r(2), of cpu now] cpu r(4) by metis
  have cd: "cpu < cpu_count d" using d r cpu by simp
  have "pick_next_task cpu s2 \<noteq> None" using pick_next_some[OF r(2), of cpu] cpu r(4) by simp
  moreover have "pick_next_task cpu (put_current cpu co d) = Some (next_of d cpu)" for co
    using pick_next_some[OF d(2) cd] by (cases "runq d cpu") (simp_all add: pick_next_task_def next_of_def)
  ultimately have "schedule now cpu s = schedule_switch cpu (next_of d cpu) (put_current cpu (current_task s2 cpu) d)"
    using r(1) d(1) by (auto simp: schedule_def Let_def)
  then show thesis using that[OF r(1-4) d(1-4)] d(5) by blast
qed

lemma schedule_inv:
  assumes inv: "sched_inv s" and cpu: "cpu < cpu_count s"
  shows "\<exists>s' n. schedule now cpu s = Some s' \<and> sched_inv s' \<and> current_task s' = (current_task s)(cpu := Some n) \<and>
    cpu_count s' = cpu_count s"
proof -
  obtain s2 d where r: "schedule_reap cpu (schedule_steal now cpu s) = Some s2" "sched_inv s2"
      and d: "current_task s2 = current_task s" "cpu_count s2 = cpu_count s"
      and q: "schedule_requeue now cpu s2 = put_current cpu (current_task s2 cpu) d" and e: "sched_inv d"
      "current_task d = (current_task s2)(cpu := None)" "cpu_count d = cpu_count s2"
      "\<forall>c. current_task s2 cpu = Some c \<longrightarrow> parked d cpu c"
      "schedule now cpu s = schedule_switch cpu (next_of d cpu) (put_current cpu (current_task s2 cpu) d)"
    by (rule schedule_split[OF inv cpu, of now])
  then show ?thesis using switch_inv[of d cpu "current_task s2 cpu"] cpu by auto
qed

text \<open>The chosen task is taken off the queue; the idle task runs only when the queue is empty.\<close>

lemma switch_queue:
  assumes inv: "sched_inv d" and cpu: "cpu < cpu_count d" and sw: "schedule_switch cpu (next_of d cpu) (put_current cpu co d) = Some s'"
  shows "runq s' cpu = tl (runq d cpu) \<and> idle_task (cpu_rq s' cpu) = idle_task (cpu_rq d cpu)"
proof -
  have "Some h \<noteq> idle_task (cpu_rq d cpu)" if "runq d cpu = h # q" for h q
    using cpu_inv_dest(1,3)[OF inv_cpu[OF inv cpu], of h] that by (auto simp: queued_ok_def idle_ok_def)
  then show ?thesis using sw unfolding schedule_switch_def next_of_def
    by (cases "runq d cpu") (auto simp: Let_def set_state_def split: option.splits if_splits)
qed

end
