(* ===== verification/SchedQuiet.thy ===== *)
theory SchedQuiet
  imports SchedDispatch
begin

text \<open>
  What the scheduler leaves alone: a resting task (blocked and known to no CPU) stays at rest, and the
  sleep queue stays as it is, through every operation that is not aimed at that task.
\<close>

section \<open>Resting tasks\<close>

definition resting :: "sched_state \<Rightarrow> nat \<Rightarrow> bool" where
  "resting s u \<longleftrightarrow> addable s u \<and> t_state (tcb s u) = TASK_BLOCKED"

definition quiet :: "sched_state \<Rightarrow> sched_state \<Rightarrow> bool" where
  "quiet s s' \<longleftrightarrow> sleep_queue s' = sleep_queue s \<and> cpu_count s' = cpu_count s \<and> (\<forall>u. resting s u \<longrightarrow> resting s' u)"

lemma quiet_refl [simp]: "quiet s s"
  by (simp add: quiet_def)

lemma quiet_trans [trans]: "quiet s s' \<Longrightarrow> quiet s' s'' \<Longrightarrow> quiet s s''"
  by (simp add: quiet_def)

text \<open>The fields that decide whether a task is at rest.\<close>

lemma quiet_frame:
  assumes "sleep_queue s' = sleep_queue s" "cpu_count s' = cpu_count s"
    and "\<And>u. resting s u \<Longrightarrow> t_id (tcb s' u) = t_id (tcb s u) \<and> t_state (tcb s' u) = t_state (tcb s u) \<and> t_idle (tcb s' u) = t_idle (tcb s u)"
    and "\<And>u. resting s u \<Longrightarrow> loose s' u"
  shows "quiet s s'"
  using assms by (simp add: quiet_def resting_def addable_def)

lemma resting_loose: "resting s u \<Longrightarrow> loose s u"
  by (simp add: resting_def addable_def)

lemma quiet_upd: "\<not> resting s t \<Longrightarrow> quiet s (upd_task t f s)"
  by (rule quiet_frame) (auto simp: resting_loose)

lemma quiet_neutral:
  assumes "\<And>x. t_id (f x) = t_id x" "\<And>x. t_state (f x) = t_state x" "\<And>x. t_idle (f x) = t_idle x"
  shows "quiet s (upd_task t f s)"
  by (rule quiet_frame) (auto simp: assms resting_loose)

lemma quiet_boost: "quiet s (update_deadline_boost now t s)"
  by (rule quiet_frame) (auto simp: resting_loose)

lemma quiet_misc [simp]:
  "quiet s (s'\<lparr>task_count := n\<rparr>) = quiet s s'" "quiet s (s'\<lparr>rr_next := n\<rparr>) = quiet s s'"
  "quiet s (s'\<lparr>timer_ticks := n\<rparr>) = quiet s s'" "quiet s (s'\<lparr>rebalance_tick_counter := n\<rparr>) = quiet s s'"
  "quiet s (s'\<lparr>rebalance_migrations := n\<rparr>) = quiet s s'" "quiet s (s'\<lparr>cpu_steal_deques := ds\<rparr>) = quiet s s'"
  "quiet s (s'\<lparr>context_switches := n\<rparr>) = quiet s s'" "quiet s (s'\<lparr>preempt_disabled := p\<rparr>) = quiet s s'"
  "quiet s (s'\<lparr>isolated_cores := m\<rparr>) = quiet s s'"
  by (simp_all add: quiet_def resting_def addable_def loose_def)

lemma quiet_add_queue:
  assumes "\<not> resting s t"
  shows "quiet s (add_to_cpu_queue_locked now t cpu s)"
proof (rule quiet_frame)
  fix u assume u: "resting s u"
  then have "u \<noteq> t" using assms by auto
  then show "loose (add_to_cpu_queue_locked now t cpu s) u"
    using resting_loose[OF u] by (auto simp: add_to_cpu_queue_locked_def Let_def loose_def)
qed (auto simp: add_to_cpu_queue_locked_def Let_def)

lemma quiet_remove:
  assumes inv: "sched_inv s" and cpu: "cpu < cpu_count s" and r: "remove_from_cpu_queue_locked t cpu s = (b, s')"
  shows "quiet s s'"
  using remove_queue_inv[OF inv cpu r] by (intro quiet_frame) (auto simp: resting_loose)

section \<open>Placement and movement\<close>

lemma ready_not_resting: "t_state (tcb s t) \<noteq> TASK_BLOCKED \<Longrightarrow> \<not> resting s t"
  by (simp add: resting_def)

lemma quiet_add_to_cpu: "quiet s (scheduler_add_task_to_cpu now t cpu s)"
proof (cases "t_state (tcb s t) = TASK_READY")
  case True
  then have "quiet s (add_to_cpu_queue_locked now t cpu s)" using quiet_add_queue ready_not_resting by simp
  then show ?thesis by (simp add: scheduler_add_task_to_cpu_def Let_def)
qed (simp add: scheduler_add_task_to_cpu_def)

lemma quiet_add_task: "quiet s (scheduler_add_task cfg now t s)"
proof -
  let ?s1 = "upd_task t (\<lambda>x. x\<lparr>ai_priority := TASK_AI_PRIORITY_NONE\<rparr>) s"
  have 1: "quiet s ?s1" by (rule quiet_neutral) simp_all
  obtain c r where h: "heuristic_assign_cpu now t ?s1 = (c, ?s1\<lparr>rr_next := r\<rparr>)" by (rule assign_frame)
  have "quiet s (?s1\<lparr>rr_next := r\<rparr>)" using 1 by simp
  then have "quiet s (scheduler_add_task_to_cpu now t c' (?s1\<lparr>rr_next := r\<rparr>))"
    "quiet s (scheduler_add_task_to_cpu now t c' ?s1)" for c'
    using 1 quiet_add_to_cpu quiet_trans by blast+
  then show ?thesis using 1 h by (simp add: scheduler_add_task_def Let_def)
qed

lemma quiet_reposition:
  assumes inv: "sched_inv s"
  shows "quiet s (sched_reposition_task now t s)"
proof (cases "assigned_cpu (tcb s t) < cpu_count s \<and> find_prev_next t None (runq s (assigned_cpu (tcb s t))) \<noteq> None")
  case True
  let ?cpu = "assigned_cpu (tcb s t)" and ?s1 = "update_deadline_boost now t s"
  have i1: "sched_inv ?s1" "?cpu < cpu_count ?s1" using inv True by simp_all
  obtain b s2 where r: "remove_from_cpu_queue_locked t ?cpu ?s1 = (b, s2)" by (cases "remove_from_cpu_queue_locked t ?cpu ?s1")
  note rr = remove_queue_inv[OF i1 r]
  have "t \<in> set (runq ?s1 ?cpu)" using True find_prev_next_member by fastforce
  then have "t_state (tcb s2 t) = TASK_READY" using rr(2,4,5) by (simp add: queued_ok_def)
  then have "quiet s2 (add_to_cpu_queue_locked now t ?cpu s2)" by (intro quiet_add_queue ready_not_resting) simp
  then have "quiet s (add_to_cpu_queue_locked now t ?cpu s2)" "quiet s ?s1"
    using quiet_boost quiet_remove[OF i1 r] quiet_trans by blast+
  then show ?thesis using True r by (auto simp: sched_reposition_task_def reposition_locked_def Let_def split: option.splits)
next
  case False
  then show ?thesis
    by (cases "find_prev_next t None (runq s (assigned_cpu (tcb s t)))") (auto simp: sched_reposition_task_def reposition_locked_def Let_def)
qed

lemma quiet_migrate:
  assumes inv: "sched_inv s" and old: "assigned_cpu (tcb s t) < cpu_count s"
  shows "quiet s (snd (sched_migrate_task now t target s))"
proof -
  obtain b s2 where r: "remove_from_cpu_queue_locked t (assigned_cpu (tcb s t)) s = (b, s2)"
    by (cases "remove_from_cpu_queue_locked t (assigned_cpu (tcb s t)) s")
  note rr = remove_queue_inv[OF inv old r] and q = quiet_remove[OF inv old r]
  have n: "quiet u (upd_task t (\<lambda>x. x\<lparr>assigned_cpu := target\<rparr>) u)" for u by (rule quiet_neutral) simp_all
  have "quiet s (add_to_cpu_queue_locked now t target s2)" if "t_state (tcb s t) = TASK_READY"
    using quiet_trans[OF q quiet_add_queue] ready_not_resting[of s2 t] that rr(5) by simp
  then show ?thesis using r n quiet_trans[OF q n] by (auto simp: sched_migrate_task_def Let_def)
qed

section \<open>Dispatch\<close>

lemma quiet_steal:
  assumes inv: "sched_inv s" and cpu: "cpu < cpu_count s"
  shows "quiet s (schedule_steal now cpu s)"
proof (cases "runq s cpu = []")
  case True
  obtain r s1 where st: "sched_try_steal cpu s = (r, s1)" by (cases "sched_try_steal cpu s")
  note ts = try_steal_inv[OF inv cpu st]
  have q: "quiet s s1" using ts by (intro quiet_frame) (auto simp: resting_loose)
  have "quiet s (add_to_cpu_queue_locked now t cpu s1)" if "r = Some t" for t
  proof -
    have "t_state (tcb s1 t) = TASK_READY" using ts that by (auto simp: queued_ok_def)
    then show ?thesis using quiet_trans[OF q quiet_add_queue] ready_not_resting by simp
  qed
  then show ?thesis using True st q by (auto simp: schedule_steal_def split: option.split)
qed (simp add: schedule_steal_def)

lemma quiet_reap:
  assumes inv: "sched_inv s" and cpu: "cpu < cpu_count s" and r: "schedule_reap cpu s = Some s'"
  shows "quiet s s'"
proof (cases "zombie (cpu_rq s cpu)")
  case (Some z)
  let ?s = "upd_rq cpu (\<lambda>rq. rq\<lparr>zombie := None\<rparr>) s"
  have z: "zombie_ok s cpu z" using cpu_inv_dest(4)[OF inv_cpu[OF inv cpu] Some] .
  have 1: "quiet s ?s" by (rule quiet_frame) (auto simp: loose_def dest!: resting_loose)
  have "\<not> resting ?s z" using z by (simp add: resting_def zombie_ok_def)
  then have "quiet s (upd_task z f ?s)" for f using quiet_trans[OF 1 quiet_upd] by simp
  then show ?thesis using r Some z by (auto simp: schedule_reap_def task_destroy_def zombie_ok_def)
qed (use r in \<open>simp add: schedule_reap_def\<close>)

lemma quiet_requeue: "quiet (put_current cpu None s) (put_current cpu None (schedule_requeue now cpu s))"
proof (cases "current_task s cpu")
  case (Some c)
  show ?thesis
  proof (cases "t_state (tcb s c) = TASK_RUNNING")
    case True
    define d where "d = s\<lparr>current_task := (current_task s)(cpu := None)\<rparr>"
    define r where "r = set_state c TASK_READY d"
    define q where "q = (if idle_task (cpu_rq s cpu) \<noteq> Some c then add_to_cpu_queue_locked now c cpu r else r)"
    have 1: "quiet d r" unfolding r_def set_state_def using True by (intro quiet_upd ready_not_resting) (simp add: d_def)
    have "quiet r q" unfolding q_def by (auto simp: r_def intro!: quiet_add_queue ready_not_resting)
    then have "quiet d (case runq q cpu of [] \<Rightarrow> q | h # _ \<Rightarrow> update_deadline_boost now h q)"
      using quiet_trans[OF 1] quiet_trans[OF _ quiet_boost] by (auto split: list.split)
    moreover have "put_current cpu None (schedule_requeue now cpu s) = (case runq q cpu of [] \<Rightarrow> q | h # _ \<Rightarrow> update_deadline_boost now h q)"
      using Some True by (simp add: schedule_requeue_def q_def r_def d_def put_commute Let_def split: list.split)
    ultimately show ?thesis by (simp add: d_def)
  next
    case False
    then show ?thesis using Some by (simp add: schedule_requeue_def)
  qed
qed (simp add: schedule_requeue_def)

lemma quiet_switch:
  assumes inv: "sched_inv d" and cpu: "cpu < cpu_count d" and det: "current_task d cpu = None"
    and sw: "schedule_switch cpu (next_of d cpu) (put_current cpu co d) = Some s'"
  shows "quiet d s'"
proof -
  obtain n where n: "next_of d cpu = Some n" using take_next[OF inv cpu refl] by blast
  have nl: "u \<noteq> n" if "resting d u" for u
    using n resting_loose[OF that] cpu by (auto simp: next_of_def loose_def split: list.splits)
  have fr: "sleep_queue s' = sleep_queue d \<and> cpu_count s' = cpu_count d \<and> (\<forall>u. u \<noteq> n \<longrightarrow> tcb s' u = tcb d u) \<and>
      (\<forall>c. c \<noteq> cpu \<longrightarrow> cpu_rq s' c = cpu_rq d c \<and> current_task s' c = current_task d c) \<and> current_task s' cpu = Some n \<and>
      set (runq s' cpu) \<subseteq> set (runq d cpu) \<and> idle_task (cpu_rq s' cpu) = idle_task (cpu_rq d cpu) \<and>
      (zombie (cpu_rq s' cpu) = zombie (cpu_rq d cpu) \<or> (\<exists>z. zombie (cpu_rq s' cpu) = Some z \<and> z \<noteq> n \<and> t_state (tcb d z) = TASK_TERMINATED))"
    using sw n unfolding schedule_switch_def
    by (auto simp: Let_def set_state_def split: list.splits option.splits if_splits)
  show ?thesis
  proof (rule quiet_frame)
    fix u assume u: "resting d u"
    then have "t_state (tcb d u) = TASK_BLOCKED" by (simp add: resting_def)
    then show "loose s' u" using fr nl[OF u] resting_loose[OF u] cpu unfolding loose_def by (metis option.inject subsetD task_state.distinct(15))
  qed (use fr nl in auto)
qed

lemma quiet_detach: "quiet s (put_current cpu None s)"
  by (rule quiet_frame) (auto simp: loose_def dest!: resting_loose)

lemma steal_tasks:
  assumes inv: "sched_inv s" and cpu: "cpu < cpu_count s"
  shows "t_state (tcb (schedule_steal now cpu s) u) = t_state (tcb s u) \<and> t_idle (tcb (schedule_steal now cpu s) u) = t_idle (tcb s u)"
proof -
  obtain r s1 where st: "sched_try_steal cpu s = (r, s1)" by (cases "sched_try_steal cpu s")
  have "tcb s1 = tcb s" using try_steal_inv[OF inv cpu st] by simp
  then show ?thesis using st by (auto simp: schedule_steal_def add_to_cpu_queue_locked_def Let_def split: option.split)
qed

lemma reap_tasks:
  assumes inv: "sched_inv s" and cpu: "cpu < cpu_count s" and r: "schedule_reap cpu s = Some s'" and c: "current_task s cpu = Some c"
  shows "tcb s' c = tcb s c"
proof (cases "zombie (cpu_rq s cpu)")
  case (Some z)
  have z: "zombie_ok s cpu z" using cpu_inv_dest(4)[OF inv_cpu[OF inv cpu] Some] .
  then show ?thesis using r c Some by (auto simp: schedule_reap_def task_destroy_def zombie_ok_def)
qed (use r in \<open>simp add: schedule_reap_def\<close>)

text \<open>A switch leaves every resting task alone and puts a blocked current task to rest.\<close>

lemma schedule_quiet:
  assumes inv: "sched_inv s" and cpu: "cpu < cpu_count s" and sch: "schedule now cpu s = Some s'"
  shows "quiet s s' \<and> (\<forall>c. current_task s cpu = Some c \<and> t_state (tcb s c) = TASK_BLOCKED \<and> \<not> t_idle (tcb s c) \<longrightarrow> resting s' c)"
proof -
  let ?s1 = "schedule_steal now cpu s"
  note st = schedule_steal_inv[OF inv cpu, of now]
  have c1: "cpu < cpu_count ?s1" using st cpu by simp
  obtain s2 d where r: "schedule_reap cpu ?s1 = Some s2" "sched_inv s2" "current_task s2 = current_task s" "cpu_count s2 = cpu_count s"
      and d: "schedule_requeue now cpu s2 = put_current cpu (current_task s2 cpu) d" "sched_inv d"
      "current_task d = (current_task s2)(cpu := None)" "cpu_count d = cpu_count s2"
      "\<forall>c. current_task s2 cpu = Some c \<longrightarrow> parked d cpu c"
      and eq: "schedule now cpu s = schedule_switch cpu (next_of d cpu) (put_current cpu (current_task s2 cpu) d)"
    by (rule schedule_split[OF inv cpu, of now])
  have c2: "cpu < cpu_count s2" using r cpu by simp
  let ?d2 = "put_current cpu None s2" and ?d = "put_current cpu None (schedule_requeue now cpu s2)"
  have dd: "?d = d" using d(1,3) by simp
  have cd: "cpu < cpu_count d" "current_task d cpu = None" using d r cpu by simp_all
  have "schedule_switch cpu (next_of d cpu) (put_current cpu (current_task s2 cpu) d) = Some s'" using sch eq by simp
  then have q: "quiet ?d2 s'" using quiet_switch[OF d(2) cd] quiet_requeue[where cpu = cpu and s = s2 and now = now] quiet_trans unfolding dd by blast
  have "quiet s s'" using quiet_steal[OF inv cpu, of now] quiet_reap[OF _ c1 r(1)] st quiet_detach[of s2 cpu] q quiet_trans by metis
  moreover have "resting s' c" if c: "current_task s cpu = Some c" "t_state (tcb s c) = TASK_BLOCKED" "\<not> t_idle (tcb s c)" for c
  proof -
    have c3: "current_task s2 cpu = Some c" using c r by simp
    have t: "t_state (tcb s2 c) = TASK_BLOCKED" "\<not> t_idle (tcb s2 c)"
      using reap_tasks[OF _ c1 r(1), of c] steal_tasks[OF inv cpu, of now c] c st by simp_all
    have "resting ?d2 c" using detach_inv(2)[OF r(2) c2 c3 t(2)] t cpu_inv_dest(2)[OF inv_cpu[OF r(2) c2] c3]
      by (simp add: resting_def addable_def current_ok_def)
    then show ?thesis using q by (simp add: quiet_def)
  qed
  ultimately show ?thesis by blast
qed

end
