(* ===== verification/SchedSystem.thy ===== *)
theory SchedSystem
  imports SchedQuiet
begin

text \<open>
  The scheduler as a transition system.  Each step is one call of an entry point of the scheduler, on any
  CPU and in any order.  Every reachable state satisfies the scheduler invariant, every sleeping task
  is at rest, and no step panics.
\<close>

section \<open>Sleepers\<close>

definition sleep_ok :: "sched_state \<Rightarrow> bool" where
  "sleep_ok s \<longleftrightarrow> distinct (sleep_queue s) \<and> (\<forall>t \<in> set (sleep_queue s). resting s t)"

definition sched_ok :: "sched_state \<Rightarrow> bool" where
  "sched_ok s \<longleftrightarrow> sched_inv s \<and> sleep_ok s"

lemma sched_okI: "sched_inv s' \<Longrightarrow> sleep_ok s \<Longrightarrow> quiet s s' \<Longrightarrow> sched_ok s'"
  by (simp add: sched_ok_def sleep_ok_def quiet_def)

text \<open>Operations aimed at one task, which does not sleep.\<close>

lemma sched_ok_but:
  assumes "sched_inv s'" "sleep_ok s" "t \<notin> set (sleep_queue s)" "sleep_queue s' = sleep_queue s"
    "\<And>u. u \<noteq> t \<Longrightarrow> resting s u \<Longrightarrow> resting s' u"
  shows "sched_ok s'"
  using assms unfolding sched_ok_def sleep_ok_def by metis

lemma resting_upd_other: "u \<noteq> t \<Longrightarrow> resting (upd_task t f s) u = resting s u"
  by (simp add: resting_def addable_def)

lemma wake_sleeper_inv:
  assumes inv: "sched_inv s" and t: "resting s t"
  shows "sched_inv (wake_sleeper cfg now t s) \<and> sleep_queue (wake_sleeper cfg now t s) = sleep_queue s \<and>
    cpu_count (wake_sleeper cfg now t s) = cpu_count s \<and> (\<forall>u. u \<noteq> t \<longrightarrow> resting s u \<longrightarrow> resting (wake_sleeper cfg now t s) u)"
proof -
  let ?s1 = "upd_task t (\<lambda>x. x\<lparr>wake_time_ns := 0, t_state := TASK_READY\<rparr>) s"
  have i: "sched_inv ?s1" using inv_upd_loose[OF inv] t by (simp add: resting_def addable_def)
  have a: "addable ?s1 t" using t by (simp add: resting_def addable_def)
  show ?thesis using add_task_inv[OF i a, of cfg now] quiet_add_task[of ?s1 cfg now t] resting_upd_other[of _ t]
    by (simp add: wake_sleeper_def quiet_def)
qed

lemma wake_all_inv:
  assumes "sched_inv s" "distinct ts" "\<forall>t \<in> set ts. resting s t"
  shows "sched_inv (fold (wake_sleeper cfg now) ts s) \<and> sleep_queue (fold (wake_sleeper cfg now) ts s) = sleep_queue s \<and>
    cpu_count (fold (wake_sleeper cfg now) ts s) = cpu_count s \<and>
    (\<forall>u. u \<notin> set ts \<longrightarrow> resting s u \<longrightarrow> resting (fold (wake_sleeper cfg now) ts s) u)"
  using assms
proof (induction ts arbitrary: s)
  case (Cons t ts)
  note w = wake_sleeper_inv[OF Cons.prems(1), of t cfg now]
  have r: "resting s t" using Cons.prems(3) by simp
  have "\<forall>u \<in> set ts. resting (wake_sleeper cfg now t s) u" using w[OF r] Cons.prems(2,3) by auto
  then show ?case using Cons.IH[of "wake_sleeper cfg now t s"] w[OF r] Cons.prems(2) by auto
qed simp

lemma sleep_queue_resting [simp]: "resting (s\<lparr>sleep_queue := q\<rparr>) u = resting s u"
  by (simp add: resting_def)

lemma wake_sleepers_ok:
  assumes "sched_ok s"
  shows "sched_ok (task_wake_sleepers cfg now ticks s) \<and> cpu_count (task_wake_sleepers cfg now ticks s) = cpu_count s \<and>
    (\<forall>u. resting s u \<and> u \<notin> set (sleep_queue s) \<longrightarrow> resting (task_wake_sleepers cfg now ticks s) u) \<and>
    set (sleep_queue (task_wake_sleepers cfg now ticks s)) \<subseteq> set (sleep_queue s)"
proof -
  let ?e = "\<lambda>t. wake_time_ns (tcb s t) \<le> ticks"
  let ?s1 = "s\<lparr>sleep_queue := filter (\<lambda>t. \<not> ?e t) (sleep_queue s)\<rparr>"
  let ?ts = "rev (filter ?e (sleep_queue s))"
  have "sched_inv ?s1" "distinct ?ts" "\<forall>t \<in> set ?ts. resting ?s1 t" using assms by (auto simp: sched_ok_def sleep_ok_def)
  from wake_all_inv[OF this, of cfg now] show ?thesis
    using assms unfolding task_wake_sleepers_def Let_def sched_ok_def sleep_ok_def by auto
qed

lemma sleep_wake_ok:
  assumes ok: "sched_ok s"
  shows "sched_ok (task_sleep_wake cfg now t s)"
proof (cases "t \<in> set (sleep_queue s)")
  case True
  let ?s1 = "s\<lparr>sleep_queue := remove1 t (sleep_queue s)\<rparr>"
  have "sched_inv ?s1" "resting ?s1 t" using ok True by (auto simp: sched_ok_def sleep_ok_def)
  from wake_sleeper_inv[OF this, of cfg now] show ?thesis using ok True
    by (auto simp: task_sleep_wake_def unlink_task_eq sched_ok_def sleep_ok_def)
next
  case False
  have "quiet s (upd_task t (\<lambda>x. x\<lparr>wakeup_pending := True\<rparr>) s)" by (rule quiet_neutral) simp_all
  then show ?thesis using False ok sched_okI[of "upd_task t (\<lambda>x. x\<lparr>wakeup_pending := True\<rparr>) s" s]
    by (simp add: task_sleep_wake_def unlink_task_eq sched_ok_def inv_upd_neutral)
qed

section \<open>Switching steps\<close>

lemma schedule_ok:
  assumes ok: "sched_ok s" and cpu: "cpu < cpu_count s"
  shows "\<exists>s'. schedule now cpu s = Some s' \<and> sched_ok s'"
proof -
  obtain s' where s': "schedule now cpu s = Some s'" "sched_inv s'" using schedule_inv[OF _ cpu, of now] ok by (auto simp: sched_ok_def)
  then show ?thesis using schedule_quiet[OF _ cpu s'(1)] ok sched_okI by (auto simp: sched_ok_def)
qed

text \<open>The running task blocks: the state change and the switch that follows it.\<close>

definition block_current :: "nat \<Rightarrow> nat \<Rightarrow> sched_state \<Rightarrow> sched_state option" where
  "block_current now cpu s =
     (case current_task s cpu of None \<Rightarrow> None | Some t \<Rightarrow> schedule now cpu (set_state t TASK_BLOCKED s))"

lemma current_not_resting:
  assumes "cpu < cpu_count s" "current_task s cpu = Some t"
  shows "\<not> resting s t"
  using assms by (auto simp: resting_def addable_def loose_def)

lemma block_ok:
  assumes ok: "sched_ok s" and cpu: "cpu < cpu_count s" and c: "current_task s cpu = Some t" "\<not> t_idle (tcb s t)"
  shows "\<exists>s'. block_current now cpu s = Some s' \<and> sched_ok s' \<and> resting s' t"
proof -
  let ?s1 = "set_state t TASK_BLOCKED s"
  have i: "sched_inv ?s1" using inv_upd_current[OF _ cpu c] ok by (simp add: sched_ok_def)
  have q: "quiet s ?s1" unfolding set_state_def using quiet_upd current_not_resting[OF cpu c(1)] by simp
  have ok1: "sched_ok ?s1" using sched_okI[OF i _ q] ok by (simp add: sched_ok_def)
  obtain s' where s': "schedule now cpu ?s1 = Some s'" "sched_ok s'" using schedule_ok[OF ok1, of cpu now] cpu by auto
  then have "resting s' t" using schedule_quiet[OF i _ s'(1)] cpu c by simp
  then show ?thesis using s' c by (simp add: block_current_def)
qed

lemma sleep_ms_ok:
  assumes ok: "sched_ok s" and cpu: "cpu < cpu_count s" and c: "current_task s cpu = Some t" "\<not> t_idle (tcb s t)"
  shows "\<exists>s'. task_sleep_ms ms freq ticks now cpu s = Some s' \<and> sched_ok s'"
proof -
  obtain b s1 where p: "task_sleep_prepare ms freq ticks t s = (b, s1)" by (cases "task_sleep_prepare ms freq ticks t s")
  have inv: "sched_inv s" and sl: "sleep_ok s" using ok by (simp_all add: sched_ok_def)
  show ?thesis
  proof (cases b)
    case False
    have "quiet s (upd_task t (\<lambda>x. x\<lparr>wakeup_pending := False\<rparr>) s)" by (rule quiet_neutral) simp_all
    then have "sched_ok (upd_task t (\<lambda>x. x\<lparr>wakeup_pending := False\<rparr>) s)" using sched_okI[OF _ sl] inv by (simp add: inv_upd_neutral)
    moreover have "s1 = s \<or> s1 = upd_task t (\<lambda>x. x\<lparr>wakeup_pending := False\<rparr>) s"
      using p False by (auto simp: task_sleep_prepare_def Let_def split: if_splits)
    ultimately have "sched_ok s1" using ok by blast
    then show ?thesis using p False c by (simp add: task_sleep_ms_def)
  next
    case True
    then obtain w where s1: "s1 = upd_task t (\<lambda>x. x\<lparr>wake_time_ns := w, t_state := TASK_BLOCKED\<rparr>) (s\<lparr>sleep_queue := t # sleep_queue s\<rparr>)"
      using p by (auto simp: task_sleep_prepare_def Let_def split: if_splits)
    have e: "s1 = upd_task t (\<lambda>x. x\<lparr>wake_time_ns := w\<rparr>) ((set_state t TASK_BLOCKED s)\<lparr>sleep_queue := t # sleep_queue s\<rparr>)"
      unfolding s1 upd_task_def set_state_def by (cases "tcb s t") simp
    have i: "sched_inv s1" unfolding e using inv_upd_current[OF inv cpu c] by (simp add: inv_upd_neutral)
    have nr: "\<not> resting s t" using current_not_resting[OF cpu c(1)] .
    obtain s' where s': "schedule now cpu s1 = Some s'" "sched_inv s'"
      using schedule_inv[OF i, of cpu now] cpu by (auto simp: s1)
    have q: "quiet s1 s' \<and> resting s' t" using schedule_quiet[OF i _ s'(1)] cpu c by (simp add: s1)
    have "resting s1 u" if "resting s u" for u
    proof -
      have "u \<noteq> t" using that nr by auto
      then show ?thesis using that by (simp add: s1 resting_upd_other)
    qed
    then have "sleep_ok s'" using sl q nr by (auto simp: sleep_ok_def quiet_def s1)
    then show ?thesis using s' p True c by (simp add: task_sleep_ms_def sched_ok_def)
  qed
qed

text \<open>Termination, of a task that does not sleep.\<close>

lemma terminate_frame:
  assumes inv: "sched_inv s" and T: "scheduler_terminate_task t s = Some s'"
  shows "sleep_queue s' = sleep_queue s \<and> (\<forall>u. u \<noteq> t \<longrightarrow> resting s u \<longrightarrow> resting s' u)"
proof (cases "assigned_cpu (tcb s t) < cpu_count s")
  case False
  then show ?thesis using T by (simp add: scheduler_terminate_task_def Let_def split: if_splits)
next
  case cpu: True
  obtain b s1 where r: "remove_from_cpu_queue_locked t (assigned_cpu (tcb s t)) s = (b, s1)"
    by (cases "remove_from_cpu_queue_locked t (assigned_cpu (tcb s t)) s")
  have r1: "remove_from_cpu_queue_locked t (assigned_cpu (tcb s t)) (set_state t TASK_TERMINATED s) = (b, set_state t TASK_TERMINATED s1)"
    by (simp add: set_state_def remove_upd_commute r)
  have q: "quiet s s1" by (rule quiet_remove[OF inv cpu r])
  have "\<exists>n ds. s' = (set_state t TASK_TERMINATED s1)\<lparr>task_count := n, cpu_steal_deques := ds\<rparr>"
    using T r1 cpu by (auto simp: scheduler_terminate_task_def Let_def set_state_def upd_task_def split: if_splits) (metis sched_state.surjective sched_state.update_convs(7))
  then obtain n ds where s': "s' = (set_state t TASK_TERMINATED s1)\<lparr>task_count := n, cpu_steal_deques := ds\<rparr>" by blast
  show ?thesis using q by (auto simp: s' quiet_def resting_def addable_def loose_def set_state_def)
qed

lemma terminate_ok:
  assumes ok: "sched_ok s" and t: "\<not> t_idle (tcb s t)" "t \<notin> set (sleep_queue s)"
    and known: "addable s t \<or> (\<exists>cpu < cpu_count s. current_task s cpu = Some t \<or> t \<in> set (runq s cpu))"
  shows "\<exists>s'. scheduler_terminate_task t s = Some s' \<and> sched_ok s' \<and> current_task s' = current_task s \<and> cpu_count s' = cpu_count s"
proof -
  obtain s' where s': "scheduler_terminate_task t s = Some s'" "sched_inv s'" "current_task s' = current_task s" "cpu_count s' = cpu_count s"
    using terminate_inv[OF _ t(1) known] ok by (auto simp: sched_ok_def)
  then show ?thesis using sched_ok_but[OF s'(2) _ t(2)] terminate_frame[OF _ s'(1)] ok by (auto simp: sched_ok_def)
qed

lemma exit_ok:
  assumes ok: "sched_ok s" and cpu: "cpu < cpu_count s" and c: "current_task s cpu = Some t" "\<not> t_idle (tcb s t)"
  shows "\<exists>s'. task_exit now cpu s = Some s' \<and> sched_ok s'"
proof -
  have "t \<notin> set (sleep_queue s)" using ok current_not_resting[OF cpu c(1)] by (auto simp: sched_ok_def sleep_ok_def)
  then obtain s1 where s1: "scheduler_terminate_task t s = Some s1" "sched_ok s1" "cpu_count s1 = cpu_count s"
    using terminate_ok[OF ok c(2)] cpu c(1) by auto
  then show ?thesis using schedule_ok[OF s1(2), of cpu now] cpu c by (simp add: task_exit_def)
qed

section \<open>Other steps\<close>

lemma busy_idle_bound:
  "busy_idle_scan s is (b, m, i, n) = (b', m', i', n') \<Longrightarrow> b' \<in> insert b (set is) \<and> i' \<in> insert i (set is)"
  by (induction "is" arbitrary: b m i n) (auto simp: Let_def split: if_splits)

lemma rebalance_ok:
  assumes ok: "sched_ok s"
  shows "sched_ok (sched_rebalance_tick now cpu s) \<and> quiet s (sched_rebalance_tick now cpu s)"
proof -
  let ?s1 = "s\<lparr>rebalance_tick_counter := u64_add (rebalance_tick_counter s) 1\<rparr>"
  have inv: "sched_inv s" and sl: "sleep_ok s" using ok by (simp_all add: sched_ok_def)
  have i1: "sched_inv ?s1" using inv by simp
  have ok1: "sched_ok ?s1" using sched_okI[OF i1 sl] by simp
  obtain b m i n where sc: "busy_idle_scan ?s1 [0 ..< cpu_count ?s1] (0, 0, 0, UINT32_MAX) = (b, m, i, n)" by (metis prod_cases4)
  have bi: "b < cpu_count s" "i < cpu_count s" using busy_idle_bound[OF sc] inv by (auto simp: sched_inv_def)
  have q1: "quiet s ?s1" by simp
  have move: "sched_ok s4 \<and> quiet s s4"
    if c: "find (migratable ?s1 b) (runq ?s1 b) = Some c"
      and s4: "s4 = scheduler_add_task_to_cpu now c i (upd_task c (\<lambda>x. x\<lparr>t_state := TASK_READY, assigned_cpu := i\<rparr>)
        (snd (remove_from_cpu_queue_locked c b ?s1)))" for c s4
  proof -
    have cb: "b < cpu_count ?s1" and mem: "c \<in> set (runq ?s1 b)" using bi c by (auto simp: find_Some_iff)
    obtain r s2 where r: "remove_from_cpu_queue_locked c b ?s1 = (r, s2)" by (cases "remove_from_cpu_queue_locked c b ?s1")
    note rr = remove_queue_inv[OF i1 cb r]
    have a: "addable s2 c \<and> t_state (tcb s2 c) = TASK_READY" using queued_addable[OF rr(4) rr(5) rr(3)] rr(2) mem by simp
    let ?s3 = "upd_task c (\<lambda>x. x\<lparr>t_state := TASK_READY, assigned_cpu := i\<rparr>) s2"
    have i3: "sched_inv ?s3" using inv_upd_loose[OF rr(1)] a by (simp add: addable_def)
    have "sched_inv s4" using add_task_to_cpu_inv[OF i3, of c now i] a r by (simp add: s4 addable_def)
    moreover have "quiet ?s1 s4"
      using quiet_trans[OF quiet_trans[OF quiet_remove[OF i1 cb r] quiet_upd] quiet_add_to_cpu] ready_not_resting[of s2 c] a r by (simp add: s4)
    ultimately show ?thesis using sched_okI[of s4 ?s1] ok1 quiet_trans[OF q1] by (simp add: sched_ok_def)
  qed
  let ?r = "sched_rebalance_tick now cpu s"
  have "sched_ok (s4\<lparr>rebalance_migrations := k\<rparr>) = sched_ok s4" for s4 k
    by (simp add: sched_ok_def sleep_ok_def resting_def addable_def loose_def)
  then have moved: "sched_ok ?r \<and> quiet s ?r"
    if "find (migratable ?s1 b) (runq ?s1 b) = Some c" "?r = (scheduler_add_task_to_cpu now c i
      (upd_task c (\<lambda>x. x\<lparr>t_state := TASK_READY, assigned_cpu := i\<rparr>) (snd (remove_from_cpu_queue_locked c b ?s1))))\<lparr>rebalance_migrations := k\<rparr>"
    for c k using move[OF that(1) refl] unfolding that(2) by simp
  have "?r = s \<or> ?r = ?s1 \<or> (\<exists>c k. find (migratable ?s1 b) (runq ?s1 b) = Some c \<and> ?r = (scheduler_add_task_to_cpu now c i
      (upd_task c (\<lambda>x. x\<lparr>t_state := TASK_READY, assigned_cpu := i\<rparr>) (snd (remove_from_cpu_queue_locked c b ?s1))))\<lparr>rebalance_migrations := k\<rparr>)"
    unfolding sched_rebalance_tick_def Let_def sc prod.case
    by (cases "find (migratable ?s1 b) (runq ?s1 b)") (simp_all, blast)
  then consider "?r = s" | "?r = ?s1" | c k where "find (migratable ?s1 b) (runq ?s1 b) = Some c" "?r = (scheduler_add_task_to_cpu now c i
      (upd_task c (\<lambda>x. x\<lparr>t_state := TASK_READY, assigned_cpu := i\<rparr>) (snd (remove_from_cpu_queue_locked c b ?s1))))\<lparr>rebalance_migrations := k\<rparr>"
    by blast
  then show ?thesis
  proof cases
    case 1
    then show ?thesis using ok by simp
  next
    case 2
    then show ?thesis using ok1 by simp
  next
    case 3
    then show ?thesis by (rule moved)
  qed
qed

lemma tick_ok:
  assumes ok: "sched_ok s" and cpu: "cpu < cpu_count s"
  shows "\<exists>s'. scheduler_tick cfg now ticks cpu s = Some s' \<and> sched_ok s'"
proof -
  let ?s1 = "task_wake_sleepers cfg now ticks s"
  let ?s2 = "?s1\<lparr>timer_ticks := u64_add (timer_ticks ?s1) 1\<rparr>"
  note w = wake_sleepers_ok[OF ok, of cfg now ticks]
  have "sched_ok ?s2" using w sched_okI[of ?s2 ?s1] by (simp add: sched_ok_def)
  from rebalance_ok[OF this, of now cpu] show ?thesis
    using schedule_ok[of "sched_rebalance_tick now cpu ?s2" cpu now] cpu w by (auto simp: scheduler_tick_def Let_def quiet_def)
qed

lemma free_slot:
  assumes inv: "sched_inv s" and t: "t_id (tcb s t) = 0"
  shows "loose s t" "\<not> t_idle (tcb s t)" "\<not> resting s t"
proof -
  show "loose s t" unfolding loose_def
    using cpu_inv_dest(1-4)[OF inv_cpu[OF inv], of _ t] t by (auto simp: queued_ok_def current_ok_def idle_ok_def zombie_ok_def)
  show "\<not> t_idle (tcb s t)" using inv t by (auto simp: sched_inv_def)
  show "\<not> resting s t" using t by (simp add: resting_def addable_def)
qed

lemma alloc_slot: "alloc_task_slot s = Some t \<Longrightarrow> t < MAX_TASKS \<and> t_id (tcb s t) = 0"
  by (auto simp: alloc_task_slot_def find_Some_iff)

lemma inv_next_id: "sched_inv s \<Longrightarrow> 0 < n \<Longrightarrow> sched_inv (s\<lparr>next_task_id := n\<rparr>)"
proof -
  assume s: "sched_inv s" "0 < n"
  have "cpu_inv (s\<lparr>next_task_id := n\<rparr>) c = cpu_inv s c" for c
    by (simp add: cpu_inv_def queued_ok_def current_ok_def idle_ok_def zombie_ok_def)
  then show ?thesis using s by (simp add: sched_inv_def)
qed

text \<open>A new task is ready and known to no CPU.\<close>

lemma alloc_ok:
  assumes ok: "sched_ok s" and n: "next_task_id s < UINT32_MAX" and r: "task_alloc p s = (r, s')"
  shows "sched_ok s' \<and> (\<forall>t. r = Some t \<longrightarrow> addable s' t \<and> t_state (tcb s' t) = TASK_READY)"
proof (cases "alloc_task_slot s")
  case None
  then show ?thesis using ok r by (auto simp: task_alloc_def Let_def)
next
  case (Some t)
  have inv: "sched_inv s" "sleep_ok s" and t: "t_id (tcb s t) = 0" "t < MAX_TASKS" using ok alloc_slot[OF Some] by (simp_all add: sched_ok_def)
  let ?s0 = "s\<lparr>next_task_id := u32_add (next_task_id s) 1\<rparr>"
  have i0: "sched_inv ?s0" using inv_next_id[OF inv(1)] n by (simp add: u32_add_eq)
  obtain f where s': "s' = upd_task t f ?s0" "r = Some t" "\<And>x. t_idle (f x) = t_idle x" "t_id (f (tcb s t)) = next_task_id s"
      "t_state (f (tcb s t)) = TASK_READY"
    using r Some by (fastforce simp: task_alloc_def Let_def)
  note fs = free_slot[OF inv(1) t(1)]
  have l: "loose ?s0 t" using fs(1) by (simp add: loose_def)
  have i: "sched_inv s'" using inv_upd_loose[OF i0 l] fs(2) by (simp add: s')
  have "quiet s ?s0" by (simp add: quiet_def resting_def addable_def loose_def)
  moreover have "quiet ?s0 s'" unfolding s'(1) by (rule quiet_upd) (use t in \<open>simp add: resting_def addable_def\<close>)
  ultimately have "sched_ok s'" using sched_okI[OF i inv(2)] quiet_trans by blast
  moreover have "addable s' t" using l t fs(2) inv(1) by (simp add: s' addable_def sched_inv_def)
  ultimately show ?thesis using s' by simp
qed

lemma destroy_ok:
  assumes ok: "sched_ok s" and t: "loose s t" "\<not> t_idle (tcb s t)"
  shows "\<exists>s'. task_destroy t s = Some s' \<and> sched_ok s'"
proof (cases "t_state (tcb s t) = TASK_TERMINATED")
  case True
  let ?s' = "upd_task t (\<lambda>x. x\<lparr>t_id := 0, t_generation := t_generation x + 1\<rparr>) s"
  have "sched_inv ?s'" using inv_upd_loose[OF _ t(1)] ok t by (simp add: sched_ok_def)
  moreover have "quiet s ?s'" using quiet_upd ready_not_resting True by simp
  ultimately show ?thesis using True t ok sched_okI[of ?s' s] by (simp add: task_destroy_def sched_ok_def)
qed (use ok t in \<open>simp add: task_destroy_def\<close>)

lemma start_ok:
  assumes ok: "sched_ok s" and cpu: "cpu < cpu_count s" and det: "current_task s cpu = None"
  shows "\<exists>s'. scheduler_start cpu s = Some s' \<and> sched_ok s'"
proof -
  have inv: "sched_inv s" "sleep_ok s" using ok by (simp_all add: sched_ok_def)
  have p: "put_current cpu None s = s" using det by (simp add: fun_upd_idem)
  obtain s' n where s': "next_of s cpu = Some n" "schedule_switch cpu (next_of s cpu) s = Some s'" "sched_inv s'"
    using switch_inv[OF inv(1) cpu det, of None] p by auto
  have "quiet s s'" using quiet_switch[OF inv(1) cpu det, of None s'] p s' by simp
  then have ok': "sched_ok s'" using sched_okI[OF s'(3) inv(2)] by simp
  have "pick_next_task cpu s = Some (Some n)" using pick_next_some[OF inv(1) cpu] s'(1) by (simp add: next_of_def)
  then have "scheduler_start cpu s = Some (s'\<lparr>preempt_disabled := (preempt_disabled s)(cpu := True)\<rparr>)"
    using s'(1,2) det by (auto simp: scheduler_start_def schedule_switch_def Let_def next_of_def split: list.splits if_splits)
  moreover have "sched_ok (s'\<lparr>preempt_disabled := q\<rparr>)" for q using ok' sched_okI[of "s'\<lparr>preempt_disabled := q\<rparr>" s'] by (simp add: sched_ok_def)
  ultimately show ?thesis by blast
qed

section \<open>Start-up\<close>

definition zero_task :: task where
  "zero_task = \<lparr>t_id = 0, t_state = TASK_READY, cpu_affinity = 0, assigned_cpu = 0, t_priority = 0, effective_priority = 0,
     pi_priority = 0, pi_mutexes_held = 0, deadline_ns = 0, wake_time_ns = 0, t_switches = 0, t_idle = False,
     wakeup_pending = False, t_generation = 0, ai_priority = 0\<rparr>"

text \<open>The data segment of the boot image on a machine with \<open>n\<close> CPUs.\<close>

definition boot_image :: "nat \<Rightarrow> sched_state" where
  "boot_image n = \<lparr>tcb = (\<lambda>_. zero_task), next_task_id = 1,
     cpu_rq = (\<lambda>_. \<lparr>rq_tasks = [], idle_task = None, zombie = None, ready_count = 0\<rparr>), current_task = (\<lambda>_. None),
     cpu_steal_deques = (\<lambda>_. steal_deque_init), preempt_disabled = (\<lambda>_. False), task_count = 0, context_switches = 0,
     timer_ticks = 0, isolated_cores = 0, cpu_count = n, ai_priority_actions = False,
     deadline_cfg = sched_set_default_deadline_thresholds, rr_next = 0, rebalance_tick_counter = 0, rebalance_migrations = 0,
     sleep_queue = []\<rparr>"

fun init_secondaries :: "nat list \<Rightarrow> sched_state \<Rightarrow> sched_state option" where
  "init_secondaries [] s = Some s"
| "init_secondaries (c # cs) s = do { s1 \<leftarrow> scheduler_init_secondary True c s; init_secondaries cs s1 }"

definition boot_sched :: "nat \<Rightarrow> sched_state option" where
  "boot_sched n = do { s \<leftarrow> scheduler_init True (boot_image n); init_secondaries [1 ..< n] s }"

text \<open>After the start-up of the first \<open>k\<close> CPUs.\<close>

definition started :: "nat \<Rightarrow> nat \<Rightarrow> sched_state \<Rightarrow> bool" where
  "started n k s \<longleftrightarrow> cpu_count s = n \<and> next_task_id s = Suc k \<and> sleep_queue s = [] \<and> current_task s = (\<lambda>_. None) \<and>
     isolated_cores s = 0 \<and> rr_next s = 0 \<and> (\<forall>c. deque_inv (cpu_steal_deques s c)) \<and>
     (\<forall>c. rq_tasks (cpu_rq s c) = [] \<and> ready_count (cpu_rq s c) = 0 \<and> zombie (cpu_rq s c) = None) \<and>
     (\<forall>c < k. idle_task (cpu_rq s c) = Some c \<and> idle_ok s c c \<and> t_id (tcb s c) = Suc c) \<and>
     (\<forall>t. k \<le> t \<longrightarrow> t_id (tcb s t) = 0 \<and> \<not> t_idle (tcb s t))"

lemma started_slot:
  assumes "started n k s" "k < MAX_TASKS"
  shows "alloc_task_slot s = Some k"
proof -
  have "t_id (tcb s c) \<noteq> 0" if "c < k" for c using assms(1) that by (auto simp: started_def idle_ok_def)
  moreover have "t_id (tcb s k) = 0" using assms(1) by (simp add: started_def)
  ultimately show ?thesis using assms(2) by (auto simp: alloc_task_slot_def find_Some_iff intro!: exI[of _ k])
qed

lemma started_step:
  assumes "started n k s" "k < MAX_CPUS"
  shows "\<exists>t s1. task_create True s = (Some t, s1) \<and> started n (Suc k) (set_idle k t s1)"
proof -
  have "alloc_task_slot s = Some k" using started_slot assms by simp
  then show ?thesis using assms
    by (auto simp: task_create_def task_create_with_priority_def task_alloc_def Let_def set_idle_def started_def idle_ok_def u32_add_eq less_Suc_eq)
qed

lemma started_sched_ok:
  assumes "started n n s" "0 < n" "n \<le> MAX_CPUS"
  shows "sched_ok s"
proof -
  have id: "t < n" if "t_idle (tcb s t)" for t using assms(1) that by (auto simp: started_def not_less[symmetric])
  have "cpu_inv s c" if "c < n" for c using assms(1) that by (auto simp: started_def cpu_inv_def)
  moreover have "t_id (tcb s t) \<noteq> 0" if "t_idle (tcb s t)" for t using assms(1) id[OF that] by (auto simp: started_def idle_ok_def)
  ultimately show ?thesis using assms by (simp add: sched_ok_def sched_inv_def sleep_ok_def started_def)
qed

lemma scheduler_init_started: "\<exists>s. scheduler_init True (boot_image n) = Some s \<and> started n 1 s"
proof -
  let ?s1 = "(boot_image n)\<lparr>task_count := 0, context_switches := 0, timer_ticks := 0, isolated_cores := 0, sleep_queue := []\<rparr>"
  define s2 where "s2 = fold (\<lambda>i s. (sched_runqueue_clear i s)\<lparr>cpu_steal_deques := (cpu_steal_deques s)(i := steal_deque_init)\<rparr>) [0 ..< MAX_CPUS] ?s1"
  have "started n 0 (fold (\<lambda>i s. (sched_runqueue_clear i s)\<lparr>cpu_steal_deques := (cpu_steal_deques s)(i := steal_deque_init)\<rparr>) is s)"
    if "started n 0 s" for "is" s using that
    by (induction "is" arbitrary: s) (auto simp: started_def sched_runqueue_clear_def init_entries)
  moreover have "started n 0 ?s1" by (simp add: started_def boot_image_def zero_task_def init_entries)
  ultimately have "started n 0 s2" unfolding s2_def by blast
  from started_step[OF this] obtain t s3 where "task_create True s2 = (Some t, s3)" "started n 1 (set_idle 0 t s3)" by auto
  then show ?thesis by (simp add: scheduler_init_def Let_def s2_def)
qed

lemma secondaries_started:
  assumes "started n k s" "0 < k" "k \<le> n" "n \<le> MAX_CPUS"
  shows "\<exists>s'. init_secondaries [k ..< n] s = Some s' \<and> started n n s'"
  using assms
proof (induction "n - k" arbitrary: k s)
  case (Suc d)
  have k: "k < MAX_CPUS" using Suc.hyps(2) Suc.prems(4) by linarith
  obtain t s1 where s1: "task_create True s = (Some t, s1)" "started n (Suc k) (set_idle k t s1)"
    using started_step[OF Suc.prems(1) k] by blast
  have "[k ..< n] = k # [Suc k ..< n]" using Suc.hyps(2) by (simp add: upt_rec)
  moreover have "scheduler_init_secondary True k s = Some (set_idle k t s1)"
    using s1 Suc.hyps(2) Suc.prems by (simp add: scheduler_init_secondary_def)
  ultimately show ?case using Suc.hyps(1)[OF _ s1(2)] Suc.hyps(2) Suc.prems by simp
qed simp

lemma boot_ok:
  assumes "0 < n" "n \<le> MAX_CPUS"
  shows "\<exists>s. boot_sched n = Some s \<and> sched_ok s \<and> cpu_count s = n"
proof -
  obtain s where s: "scheduler_init True (boot_image n) = Some s" "started n 1 s" using scheduler_init_started by blast
  obtain s' where "init_secondaries [1 ..< n] s = Some s'" "started n n s'" using secondaries_started[OF s(2)] assms by auto
  then show ?thesis using s started_sched_ok assms by (auto simp: boot_sched_def started_def)
qed

section \<open>The transition system\<close>

text \<open>
  Callers of the functions that take a task keep these rules: a task is added while no CPU knows it; a
  task that is woken is at rest; a task that is killed does not sleep; a task that is freed is known to no CPU.
\<close>

definition movable :: "sched_state \<Rightarrow> nat \<Rightarrow> bool" where
  "movable s t \<longleftrightarrow> assigned_cpu (tcb s t) < cpu_count s \<and>
     (t_state (tcb s t) = TASK_RUNNING \<or> t \<in> set (runq s (assigned_cpu (tcb s t))) \<or> addable s t)"

inductive sched_step :: "sched_state \<Rightarrow> sched_state option \<Rightarrow> bool" where
  create: "next_task_id s < UINT32_MAX \<Longrightarrow> sched_step s (Some (snd (task_create_with_priority stack p s)))"
| add: "addable s t \<Longrightarrow> t_state (tcb s t) = TASK_READY \<Longrightarrow> sched_step s (Some (scheduler_add_task cfg now t s))"
| start: "cpu < cpu_count s \<Longrightarrow> current_task s cpu = None \<Longrightarrow> sched_step s (scheduler_start cpu s)"
| yield: "cpu < cpu_count s \<Longrightarrow> sched_step s (schedule now cpu s)"
| block: "cpu < cpu_count s \<Longrightarrow> current_task s cpu = Some t \<Longrightarrow> \<not> t_idle (tcb s t) \<Longrightarrow> sched_step s (block_current now cpu s)"
| wake: "resting s t \<Longrightarrow> t \<notin> set (sleep_queue s) \<Longrightarrow> sched_step s (Some (scheduler_add_task cfg now t (set_state t TASK_READY s)))"
| sleep: "cpu < cpu_count s \<Longrightarrow> current_task s cpu = Some t \<Longrightarrow> \<not> t_idle (tcb s t) \<Longrightarrow>
    sched_step s (task_sleep_ms ms freq ticks now cpu s)"
| rouse: "sched_step s (Some (task_sleep_wake cfg now t s))"
| tick: "cpu < cpu_count s \<Longrightarrow> sched_step s (scheduler_tick cfg now ticks cpu s)"
| exit: "cpu < cpu_count s \<Longrightarrow> current_task s cpu = Some t \<Longrightarrow> \<not> t_idle (tcb s t) \<Longrightarrow> sched_step s (task_exit now cpu s)"
| kill: "\<not> t_idle (tcb s t) \<Longrightarrow> t \<notin> set (sleep_queue s) \<Longrightarrow>
    addable s t \<or> (\<exists>cpu < cpu_count s. current_task s cpu = Some t \<or> t \<in> set (runq s cpu)) \<Longrightarrow>
    sched_step s (scheduler_terminate_task t s)"
| free: "loose s t \<Longrightarrow> \<not> t_idle (tcb s t) \<Longrightarrow> sched_step s (task_destroy t s)"
| remove: "sched_step s (Some (scheduler_remove_task t s))"
| migrate: "movable s t \<Longrightarrow> sched_step s (Some (snd (sched_migrate_task now t target s)))"
| reposition: "sched_step s (Some (sched_reposition_task now t s))"
| priority: "sched_step s (Some (task_set_priority t p s))"
| deadline: "sched_step s (Some (task_set_deadline t dl s))"
| refresh: "sched_step s (Some (sched_refresh_effective_priority now t s))"
| action: "sched_step s (Some (sched_ai_apply_priority_action t adj s))"
| isolate: "sched_step s (Some (snd (sched_isolate_core cpu s)))"
| unisolate: "sched_step s (Some (snd (sched_unisolate_core cpu s)))"

inductive sched_reachable :: "nat \<Rightarrow> sched_state \<Rightarrow> bool" for n where
  boot: "boot_sched n = Some s \<Longrightarrow> sched_reachable n s"
| step: "sched_reachable n s \<Longrightarrow> sched_step s (Some s') \<Longrightarrow> sched_reachable n s'"

lemma quiet_remove_task:
  assumes "sched_inv s"
  shows "quiet s (scheduler_remove_task t s)"
  using assms quiet_remove[of s "assigned_cpu (tcb s t)" t]
  by (cases "remove_from_cpu_queue_locked t (assigned_cpu (tcb s t)) s") (auto simp: scheduler_remove_task_def Let_def)

lemma neutral_ok:
  assumes "sched_ok s" "\<And>x. t_id (f x) = t_id x" "\<And>x. t_state (f x) = t_state x" "\<And>x. assigned_cpu (f x) = assigned_cpu x"
    "\<And>x. t_idle (f x) = t_idle x"
  shows "sched_ok (upd_task t f s)"
  using assms sched_okI[of "upd_task t f s" s] quiet_neutral[of f s t] by (simp add: sched_ok_def inv_upd_neutral)

lemma wake_ok:
  assumes ok: "sched_ok s" and t: "resting s t" "t \<notin> set (sleep_queue s)"
  shows "sched_ok (scheduler_add_task cfg now t (set_state t TASK_READY s))"
proof -
  let ?s1 = "set_state t TASK_READY s"
  have i: "sched_inv ?s1" using inv_upd_loose[of s t] ok t by (simp add: sched_ok_def set_state_def resting_def addable_def)
  have a: "addable ?s1 t" using t by (simp add: set_state_def resting_def addable_def)
  have "sched_ok ?s1" using sched_ok_but[OF i _ t(2)] ok resting_upd_other[of _ t] by (simp add: sched_ok_def set_state_def)
  then show ?thesis using sched_okI[OF add_task_inv[OF i a] _ quiet_add_task] by (simp add: sched_ok_def)
qed

lemma step_ok:
  assumes "sched_ok s" "sched_step s r"
  shows "\<exists>s'. r = Some s' \<and> sched_ok s'"
  using assms(2,1)
proof cases
  case (create stack p)
  then show ?thesis using assms(1) alloc_ok[OF assms(1)] by (cases "task_alloc p s") (auto simp: task_create_with_priority_def)
next
  case (add t cfg now)
  then show ?thesis using assms(1) sched_okI[OF add_task_inv _ quiet_add_task] by (simp add: sched_ok_def)
next
  case (block cpu t now)
  then show ?thesis using block_ok[OF assms(1), of cpu t now] by blast
next
  case (kill t)
  then show ?thesis using terminate_ok[OF assms(1)] by blast
next
  case (remove t)
  then show ?thesis using assms(1) sched_okI[OF remove_task_inv _ quiet_remove_task] by (simp add: sched_ok_def)
next
  case (migrate t now target)
  then show ?thesis using assms(1) sched_okI[OF migrate_inv _ quiet_migrate] by (simp add: sched_ok_def movable_def)
next
  case (reposition now t)
  then show ?thesis using assms(1) sched_okI[OF reposition_inv _ quiet_reposition] by (simp add: sched_ok_def)
next
  case (refresh now t)
  then show ?thesis using assms(1) sched_okI[OF _ _ quiet_boost] by (simp add: sched_ok_def sched_refresh_effective_priority_def)
next
  case (isolate cpu)
  then show ?thesis using assms(1) sched_okI[of "s\<lparr>isolated_cores := m\<rparr>" s for m] by (simp add: sched_isolate_core_def sched_ok_def)
next
  case (unisolate cpu)
  then show ?thesis using assms(1) sched_okI[of "s\<lparr>isolated_cores := m\<rparr>" s for m] by (simp add: sched_unisolate_core_def sched_ok_def)
qed (use assms(1) in \<open>auto simp: task_set_priority_def task_set_deadline_def sched_ai_apply_priority_action_def Let_def
    intro!: neutral_ok intro: start_ok schedule_ok wake_ok sleep_ms_ok sleep_wake_ok tick_ok exit_ok destroy_ok\<close>)

lemma reachable_ok:
  assumes "sched_reachable n s" "0 < n" "n \<le> MAX_CPUS"
  shows "sched_ok s"
  using assms
proof (induction rule: sched_reachable.induct)
  case (boot s)
  then show ?case using boot_ok[of n] by auto
next
  case (step s s')
  then show ?case using step_ok by blast
qed

end
