(* ===== verification/SchedProps.thy ===== *)
theory SchedProps
  imports SchedSystem
begin

text \<open>
  The scheduler's properties.  The demonstration states start from the boot of a machine with two CPUs.
\<close>

section \<open>Demonstration states\<close>

definition demo_boot :: sched_state where
  "demo_boot = the (boot_sched 2)"

definition demo_new :: sched_state where
  "demo_new = snd (task_create_with_priority True TASK_PRIORITY_NORMAL demo_boot)"

definition demo_running :: sched_state where
  "demo_running = the (scheduler_start 0 demo_boot)"

lemma demo_boot_started: "boot_sched 2 = Some demo_boot" "started 2 2 demo_boot"
proof -
  obtain s where s: "scheduler_init True (boot_image 2) = Some s" "started 2 1 s" using scheduler_init_started by blast
  obtain s' where "init_secondaries [1 ..< 2] s = Some s'" "started 2 2 s'" using secondaries_started[OF s(2)] by auto
  then have "boot_sched 2 = Some s'" "started 2 2 s'" using s by (simp_all add: boot_sched_def)
  then show "boot_sched 2 = Some demo_boot" "started 2 2 demo_boot" by (simp_all add: demo_boot_def)
qed

lemma demo_boot_reachable: "sched_reachable 2 demo_boot"
  by (rule sched_reachable.boot[OF demo_boot_started(1)])

lemma demo_new_facts:
  "sched_reachable 2 demo_new" "addable demo_new 2" "t_state (tcb demo_new 2) = TASK_READY" "cpu_affinity (tcb demo_new 2) = CPU_AFFINITY_ANY"
  "cpu_count demo_new = 2" "isolated_cores demo_new = 0" "rr_next demo_new = 0"
proof -
  have st: "started 2 2 demo_boot" by (rule demo_boot_started)
  have slot: "alloc_task_slot demo_boot = Some 2" using started_slot[OF st] by simp
  have n: "next_task_id demo_boot < UINT32_MAX" using st by (simp add: started_def)
  show "sched_reachable 2 demo_new" unfolding demo_new_def by (rule sched_reachable.step[OF demo_boot_reachable create[OF n]])
  have ok: "sched_ok demo_boot" using reachable_ok[OF demo_boot_reachable] by simp
  have call: "task_alloc TASK_PRIORITY_NORMAL demo_boot = (Some 2, demo_new)"
    using slot by (simp add: demo_new_def task_create_with_priority_def task_alloc_def Let_def)
  then show "addable demo_new 2" "t_state (tcb demo_new 2) = TASK_READY" using alloc_ok[OF ok n call] by simp_all
  show "cpu_affinity (tcb demo_new 2) = CPU_AFFINITY_ANY" "cpu_count demo_new = 2" "isolated_cores demo_new = 0" "rr_next demo_new = 0"
    using slot st by (simp_all add: demo_new_def task_create_with_priority_def task_alloc_def Let_def started_def)
qed

section \<open>Every task is in one place\<close>

definition occurrences :: "sched_state \<Rightarrow> nat \<Rightarrow> nat" where
  "occurrences s t = (\<Sum>c < cpu_count s. count_list (runq s c) t + (if current_task s c = Some t then 1 else 0))"

lemma count_list_distinct: "distinct xs \<Longrightarrow> count_list xs t = (if t \<in> set xs then 1 else 0)"
  by (induction xs) auto

lemma occurrences_le:
  assumes inv: "sched_inv s"
  shows "occurrences s t \<le> 1"
proof -
  let ?f = "\<lambda>c. count_list (runq s c) t + (if current_task s c = Some t then 1 else 0)"
  let ?a = "assigned_cpu (tcb s t)"
  have z: "?f c = 0" if "c < cpu_count s" "c \<noteq> ?a" for c
    using cpu_inv_dest(1,2)[OF inv_cpu[OF inv], of c t] that by (auto simp: queued_ok_def current_ok_def count_list_0_iff)
  have one: "?f c \<le> 1" if c: "c < cpu_count s" for c
    using cpu_inv_dest(1,2)[OF inv_cpu[OF inv c], of t] cpu_inv_dest(6)[OF inv_cpu[OF inv c]]
    by (auto simp: count_list_distinct queued_ok_def current_ok_def)
  show ?thesis
  proof (cases "?a < cpu_count s")
    case True
    have "(\<Sum>c < cpu_count s. ?f c) = (\<Sum>c \<in> {?a}. ?f c)" by (rule sum.mono_neutral_right) (use True z in auto)
    then show ?thesis using one[OF True] by (simp add: occurrences_def)
  next
    case False
    then show ?thesis using z by (simp add: occurrences_def)
  qed
qed





section \<open>Dispatch\<close>





section \<open>Placement\<close>

lemma best_cpu_scan_result:
  assumes "best_cpu_scan now s cpus (b, sc, f) = (b', sc', f')"
  shows "sc' \<le> sc \<and> (\<forall>c \<in> set cpus. \<not> core_isolated s c \<longrightarrow> sc' \<le> cpu_score now c s) \<and>
    ((b', sc', f') = (b, sc, f) \<or> b' \<in> set cpus \<and> \<not> core_isolated s b' \<and> sc' = cpu_score now b' s \<and> f')"
  using assms
proof (induction cpus arbitrary: b sc f)
  case (Cons c cpus)
  then show ?case by (fastforce split: if_splits)
qed simp

lemma least_loaded_result:
  assumes "least_loaded_scan s cs (b, r, k, n) = (b', r', k', n')"
  shows "b' = b \<or> b' \<in> set cs \<and> \<not> core_isolated s b'"
  using assms
proof (induction cs arbitrary: b r k n)
  case (Cons c cs)
  then show ?case by (fastforce simp: Let_def split: if_splits)
qed simp

lemma find_target_ok:
  assumes "0 < cpu_count s" "\<not> core_isolated s 0" "find_target_cpu now s = (c, s')"
  shows "c < cpu_count s \<and> \<not> core_isolated s c"
proof -
  let ?cpus = "map (\<lambda>i. u32_add (rr_next s) i mod cpu_count s) [0 ..< cpu_count s]"
  obtain b sc f where r: "best_cpu_scan now s ?cpus (0, UINT32_MAX, False) = (b, sc, f)" by (metis prod_cases3)
  then have "c = b" using assms(3) by (simp add: find_target_cpu_def)
  then show ?thesis using best_cpu_scan_result[OF r] assms(1,2) by auto
qed

lemma assign_ok:
  assumes "0 < cpu_count s" "\<not> core_isolated s 0" "heuristic_assign_cpu now t s = (c, s')"
  shows "c < cpu_count s \<and> \<not> core_isolated s c"
proof -
  obtain b sc f where r: "best_cpu_scan now s [1 ..< cpu_count s] (0, UINT32_MAX, False) = (b, sc, f)" by (metis prod_cases3)
  show ?thesis using assms r best_cpu_scan_result[OF r] find_target_ok[OF assms(1,2)]
    by (auto simp: heuristic_assign_cpu_def find_performance_cpu_def split: if_splits)
qed

lemma override_ok:
  assumes "c < cpu_count s" "\<not> core_isolated s c"
  shows "balance_override cfg s c < cpu_count s \<and> \<not> core_isolated s (balance_override cfg s c)"
proof -
  obtain b r k n where l: "least_loaded_scan s [0 ..< cpu_count s] (c, UINT32_MAX, 0, 0) = (b, r, k, n)" by (metis prod_cases4)
  then show ?thesis using least_loaded_result[OF l] assms by (auto simp: balance_override_def least_loaded_cpu_def Let_def)
qed

lemma add_task_queued:
  assumes inv: "0 < cpu_count s" and iso: "\<not> core_isolated s 0" and t: "t_state (tcb s t) = TASK_READY" "cpu_affinity (tcb s t) = CPU_AFFINITY_ANY"
  shows "\<exists>c < cpu_count s. \<not> core_isolated s c \<and> t \<in> set (runq (scheduler_add_task cfg now t s) c)"
proof -
  let ?s1 = "upd_task t (\<lambda>x. x\<lparr>ai_priority := TASK_AI_PRIORITY_NONE\<rparr>) s"
  obtain c r where h: "heuristic_assign_cpu now t ?s1 = (c, ?s1\<lparr>rr_next := r\<rparr>)" by (rule assign_frame)
  let ?s2 = "?s1\<lparr>rr_next := r\<rparr>" and ?c = "balance_override cfg (?s1\<lparr>rr_next := r\<rparr>) c"
  have "c < cpu_count ?s2 \<and> \<not> core_isolated ?s2 c" using assign_ok[OF _ _ h] inv iso by (simp add: core_isolated_def)
  then have c: "?c < cpu_count s \<and> \<not> core_isolated s ?c" using override_ok[of c ?s2 cfg] by (simp add: core_isolated_def)
  have "t \<in> set (runq (scheduler_add_task_to_cpu now t ?c ?s2) ?c)"
    using t c by (simp add: scheduler_add_task_to_cpu_def Let_def)
  moreover have "scheduler_add_task cfg now t s = scheduler_add_task_to_cpu now t ?c ?s2" using t h by (simp add: scheduler_add_task_def Let_def)
  ultimately show ?thesis using c by (intro exI[of _ ?c]) simp
qed

definition demo_resting :: sched_state where
  "demo_resting = set_state 2 TASK_BLOCKED demo_new"

lemma demo_resting_facts:
  "sched_ok demo_resting" "resting demo_resting 2" "sleep_queue demo_resting = []" "cpu_affinity (tcb demo_resting 2) = CPU_AFFINITY_ANY"
  "isolated_cores demo_resting = 0" "rr_next demo_resting = 0" "cpu_count demo_resting = 2"
proof -
  have ok: "sched_ok demo_new" using reachable_ok[OF demo_new_facts(1)] by simp
  have sq: "sleep_queue demo_new = []" using demo_boot_started(2) started_slot[OF demo_boot_started(2)]
    by (simp add: demo_new_def task_create_with_priority_def task_alloc_def Let_def started_def)
  have "sched_inv demo_resting" using inv_upd_loose[of demo_new 2] ok demo_new_facts(2)
    by (simp add: demo_resting_def set_state_def sched_ok_def addable_def)
  then show "sched_ok demo_resting" "resting demo_resting 2" "sleep_queue demo_resting = []" "cpu_affinity (tcb demo_resting 2) = CPU_AFFINITY_ANY"
    "isolated_cores demo_resting = 0" "rr_next demo_resting = 0" "cpu_count demo_resting = 2"
    using demo_new_facts sq by (simp_all add: demo_resting_def set_state_def sched_ok_def sleep_ok_def resting_def addable_def)
qed

lemma occurrences_pos: "c < cpu_count s \<Longrightarrow> t \<in> set (runq s c) \<Longrightarrow> 0 < occurrences s t"
  unfolding occurrences_def by (intro sum_pos2[of _ c]) (auto simp: count_list_0_iff intro!: Nat.gr0I)

text \<open>C25: A wake-up is never lost: waking a blocked, unpinned task that is at rest puts it on the run queue of
  exactly one CPU, and that CPU is not isolated.  CPU 0 is not isolated, which \<open>sched_isolate_core\<close> ensures.
\<close>

theorem wake_queues_once:
  assumes "sched_ok s" "resting s t" "t \<notin> set (sleep_queue s)" "cpu_affinity (tcb s t) = CPU_AFFINITY_ANY" "\<not> core_isolated s 0"
  shows "\<exists>c < cpu_count s. \<not> core_isolated s c \<and> t \<in> set (runq (scheduler_add_task cfg now t (set_state t TASK_READY s)) c) \<and>
    occurrences (scheduler_add_task cfg now t (set_state t TASK_READY s)) t = 1"
proof -
  let ?s1 = "set_state t TASK_READY s" and ?s2 = "scheduler_add_task cfg now t (set_state t TASK_READY s)"
  have ok2: "sched_ok ?s2" by (rule wake_ok[OF assms(1-3)])
  have "0 < cpu_count ?s1" "\<not> core_isolated ?s1 0" using assms by (simp_all add: sched_ok_def sched_inv_def core_isolated_def set_state_def)
  from add_task_queued[OF this, of t cfg now] obtain c where c: "c < cpu_count s" "\<not> core_isolated s c" "t \<in> set (runq ?s2 c)"
    using assms(4) by (auto simp: core_isolated_def set_state_def)
  have "cpu_count ?s2 = cpu_count s" using quiet_add_task[of ?s1 cfg now t] by (simp add: quiet_def)
  then have "0 < occurrences ?s2 t" using occurrences_pos[of c ?s2 t] c by simp
  moreover have "occurrences ?s2 t \<le> 1" using occurrences_le ok2 by (simp add: sched_ok_def)
  ultimately show ?thesis using c by (intro exI[of _ c]) simp
qed

theorem wake_queues_once_witness:
  "\<exists>c < 2. 2 \<in> set (runq (scheduler_add_task sched_balance_config_defaults 0 2 (set_state 2 TASK_READY demo_resting)) c)"
  using wake_queues_once[OF demo_resting_facts(1,2), of sched_balance_config_defaults 0] demo_resting_facts(3-7)
  by (auto simp: core_isolated_def)






section \<open>Stealing\<close>

text \<open>C27: A CPU steals only a ready, unpinned task from the run queue of another CPU, which it takes off that queue, so
  that no CPU knows the task any more; an isolated CPU steals nothing.
\<close>

theorem steal_takes_ready_task:
  assumes "sched_ok s" "this_cpu < cpu_count s"
  shows "case sched_try_steal this_cpu s of
      (None, s') \<Rightarrow> tcb s' = tcb s
    | (Some t, s') \<Rightarrow> \<not> core_isolated s this_cpu \<and> cpu_affinity (tcb s t) = CPU_AFFINITY_ANY \<and> t_state (tcb s t) = TASK_READY \<and>
        assigned_cpu (tcb s t) \<noteq> this_cpu \<and> loose s' t \<and> occurrences s' t = 0"
proof -
  obtain r s' where st: "sched_try_steal this_cpu s = (r, s')" by (cases "sched_try_steal this_cpu s")
  note ts = try_steal_inv[OF _ assms(2) st]
  have "occurrences s' t = 0" if "loose s' t" for t
    using that by (auto simp: loose_def occurrences_def count_list_0_iff)
  then show ?thesis using ts assms(1) st by (auto simp: sched_ok_def queued_ok_def split: option.split)
qed

theorem steal_takes_ready_task_witness:
  "sched_ok demo_resting \<and> (case sched_try_steal 1 demo_resting of (None, s') \<Rightarrow> tcb s' = tcb demo_resting | (Some t, s') \<Rightarrow> occurrences s' t = 0)"
  using steal_takes_ready_task[OF demo_resting_facts(1), of 1] demo_resting_facts(1,7) by (auto split: option.splits prod.splits)

section \<open>Priorities\<close>

lemma insert_task_sorted:
  "sorted_wrt (\<lambda>x y. p y \<le> p x) q \<Longrightarrow> sorted_wrt (\<lambda>x y. (p y :: nat) \<le> p x) (insert_task p t q)"
  by (induction q) auto

lemma insert_task_stable:
  "sorted_wrt (\<lambda>x y. p y \<le> p x) q \<Longrightarrow> filter (\<lambda>x. p x = p t) (insert_task p t q) = filter (\<lambda>x. p x = (p t :: nat)) q @ [t]"
proof (induction q)
  case (Cons a q)
  have "filter (\<lambda>x. p x = p t) q = []" if "\<not> p t \<le> p a" using Cons.prems that by (fastforce simp: filter_empty_conv)
  then show ?case using Cons by auto
qed simp

lemma insert_task_cong: "(\<And>x. x \<in> insert t (set q) \<Longrightarrow> p x = p' x) \<Longrightarrow> insert_task p t q = insert_task p' t q"
  by (induction q) auto

text \<open>C28: Queue insertion keeps a run queue in order of decreasing effective priority, and the task goes behind every
  queued task of its own priority.
\<close>

theorem queue_order:
  assumes "sorted_wrt (\<lambda>x y. eprio s y \<le> eprio s x) (runq s cpu)" "t \<notin> set (runq s cpu)" "s' = add_to_cpu_queue_locked now t cpu s"
  shows "sorted_wrt (\<lambda>x y. eprio s' y \<le> eprio s' x) (runq s' cpu) \<and>
    filter (\<lambda>x. eprio s' x = eprio s' t) (runq s' cpu) = filter (\<lambda>x. eprio s' x = eprio s' t) (runq s cpu) @ [t]"
proof -
  let ?s0 = "upd_task t (\<lambda>x. x\<lparr>assigned_cpu := cpu\<rparr>) s"
  obtain p where b: "update_deadline_boost now t ?s0 = upd_task t (\<lambda>x. x\<lparr>effective_priority := p\<rparr>) ?s0" by (rule update_deadline_boost_frame)
  have q: "runq s' cpu = insert_task (eprio s') t (runq s cpu)"
  proof -
    have "eprio s' = eprio (update_deadline_boost now t ?s0)" by (rule ext) (simp add: assms(3) add_to_cpu_queue_locked_def Let_def eprio_def)
    then show ?thesis by (simp add: assms(3) add_to_cpu_queue_locked_def Let_def)
  qed
  have same: "eprio s' x = eprio s x" if "x \<noteq> t" for x using that b by (simp add: assms(3) add_to_cpu_queue_locked_def Let_def eprio_def)
  have sorted: "sorted_wrt (\<lambda>x y. eprio s' y \<le> eprio s' x) (runq s cpu)"
  proof (rule sorted_wrt_mono_rel[OF _ assms(1)])
    fix x y assume "x \<in> set (runq s cpu)" "y \<in> set (runq s cpu)" "eprio s y \<le> eprio s x"
    moreover from this have "x \<noteq> t" "y \<noteq> t" using assms(2) by auto
    ultimately show "eprio s' y \<le> eprio s' x" using same by simp
  qed
  show ?thesis unfolding q using insert_task_sorted[OF sorted] insert_task_stable[OF sorted] by simp
qed

theorem queue_order_witness: "filter (\<lambda>x. eprio (add_to_cpu_queue_locked 0 2 0 demo_resting) x = eprio (add_to_cpu_queue_locked 0 2 0 demo_resting) 2)
    (runq (add_to_cpu_queue_locked 0 2 0 demo_resting) 0) = [2]"
proof -
  have "runq demo_resting 0 = []" using demo_boot_started(2) started_slot[OF demo_boot_started(2)]
    by (simp add: demo_resting_def demo_new_def set_state_def task_create_with_priority_def task_alloc_def Let_def started_def)
  then show ?thesis using queue_order[of demo_resting 0 2 _ 0] by simp
qed

text \<open>
  The level of a task whose deadline is \<open>remaining\<close> nanoseconds away.  A nearer deadline never lowers it, except for a
  task of level 6: it has level 7 in the outer window and falls back to 6 in the next one.
\<close>

definition level :: "nat \<Rightarrow> sched_state \<Rightarrow> nat \<Rightarrow> nat" where
  "level now s t = eprio (update_deadline_boost now t s) t"

lemma level_eq:
  "level now s t = max (pi_priority (tcb s t)) (if deadline_ns (tcb s t) = 0 then effective_base_priority s t else boosted_priority now s t)"
  by (simp add: level_def update_deadline_boost_def set_effective_priority_def eprio_def)




text \<open>A task of base priority 6 loses priority when its deadline comes nearer: between \<open>boost_ns\<close> and \<open>high_ns\<close> it has
  level 7, between \<open>high_ns\<close> and \<open>critical_ns\<close> only level 6.
\<close>

theorem deadline_boost_drops:
  assumes "effective_base_priority s t = 6" "pi_priority (tcb s t) \<le> 6" "now < later" "later < deadline_ns (tcb s t)"
    "high_ns (deadline_cfg s) \<le> deadline_ns (tcb s t) - now" "deadline_ns (tcb s t) - now < boost_ns (deadline_cfg s)"
    "critical_ns (deadline_cfg s) \<le> deadline_ns (tcb s t) - later" "deadline_ns (tcb s t) - later < high_ns (deadline_cfg s)"
    "critical_ns (deadline_cfg s) \<le> high_ns (deadline_cfg s)"
  shows "level now s t = 7 \<and> level later s t = 6"
  using assms by (auto simp: level_eq boosted_priority_def Let_def)

definition demo_deadline :: sched_state where
  "demo_deadline = upd_task 0 (\<lambda>x. x\<lparr>t_priority := 6, deadline_ns := 100000000\<rparr>) (boot_image 1)"

theorem deadline_boost_drops_witness: "level 20000000 demo_deadline 0 = 7 \<and> level 70000000 demo_deadline 0 = 6"
  by (rule deadline_boost_drops)
    (simp_all add: demo_deadline_def upd_task_def boot_image_def zero_task_def effective_base_priority_def sched_set_default_deadline_thresholds_def)

section \<open>The steal deque\<close>

text \<open>C30: The steal deque implements a bounded list of task entries for its owner and its thieves: a push that is
  accepted appends, the owner pops from the back and a thief takes the front; refused and empty calls change nothing
  that can be seen.
\<close>

theorem steal_deque_refines_list:
  assumes "deque_inv d"
  shows "live (snd (steal_deque_push d t g)) = (if fst (steal_deque_push d t g) = 0 then live d @ [(t, g)] else live d) \<and>
    fst (steal_deque_steal d) = (case live d of [] \<Rightarrow> None | e # _ \<Rightarrow> Some e) \<and> live (snd (steal_deque_steal d)) = tl (live d) \<and>
    fst (steal_deque_pop d) = (if live d = [] then None else Some (last (live d))) \<and> live (snd (steal_deque_pop d)) = butlast (live d)"
proof -
  obtain r d1 where p: "steal_deque_push d t g = (r, d1)" by (cases "steal_deque_push d t g")
  obtain d2 where s: "steal_deque_steal d = (case live d of [] \<Rightarrow> None | e # _ \<Rightarrow> Some e, d2)" "live d2 = tl (live d)" using steal_live[OF assms] by blast
  obtain d3 where q: "steal_deque_pop d = (if live d = [] then None else Some (last (live d)), d3)" "live d3 = butlast (live d)" using pop_live[OF assms] by blast
  have push: "live (snd (steal_deque_push d t g)) = (if fst (steal_deque_push d t g) = 0 then live d @ [(t, g)] else live d)"
    using sd.push_law[OF assms p] p by (auto split: if_splits)
  show ?thesis unfolding push s(1) q(1) using s(2) q(2) by simp
qed

theorem steal_deque_refines_list_witness:
  "fst (steal_deque_steal steal_deque_init) = None \<and> fst (steal_deque_pop steal_deque_init) = None"
  using steal_deque_refines_list[OF init_entries(1), of 0 0] init_entries(2) by (simp add: live_def)

section \<open>Where the code breaks the rules\<close>

text \<open>C31: The periodic rebalance ignores core isolation: on two CPUs it moves a ready, unpinned task from CPU 0 to an
  empty CPU 1 although CPU 1 is isolated.
\<close>

theorem rebalance_ignores_isolation:
  assumes "cpu_count s = 2" "core_isolated s 1" "u64_add (rebalance_tick_counter s) 1 mod 100 = 0"
    "runq s 0 = t # q" "ready_count (cpu_rq s 0) = 2" "ready_count (cpu_rq s 1) = 0" "migratable s 0 t" "idle_task (cpu_rq s 1) \<noteq> Some t"
  shows "t \<in> set (runq (sched_rebalance_tick now 0 s) 1)"
proof -
  let ?s1 = "s\<lparr>rebalance_tick_counter := u64_add (rebalance_tick_counter s) 1\<rparr>"
  have sc: "busy_idle_scan ?s1 [0 ..< cpu_count ?s1] (0, 0, 0, UINT32_MAX) = (0, 2, 1, 0)"
    using assms by (simp add: upt_rec numeral_2_eq_2 Let_def)
  have m: "migratable ?s1 0 t" using assms(7) by (simp add: migratable_def)
  show ?thesis unfolding sched_rebalance_tick_def Let_def using assms sc m
    by (simp add: u32_add_eq scheduler_add_task_to_cpu_def remove_from_cpu_queue_locked_def Let_def)
qed

definition demo_isolated :: sched_state where
  "demo_isolated = (boot_image 2)\<lparr>isolated_cores := 2, rebalance_tick_counter := 99,
     tcb := (\<lambda>_. zero_task\<lparr>t_id := 1, cpu_affinity := CPU_AFFINITY_ANY\<rparr>),
     cpu_rq := (\<lambda>c. \<lparr>rq_tasks = (if c = 0 then [2, 3] else []), idle_task = Some c, zombie = None, ready_count = (if c = 0 then 2 else 0)\<rparr>)\<rparr>"

theorem rebalance_ignores_isolation_witness: "core_isolated demo_isolated 1 \<and> 2 \<in> set (runq (sched_rebalance_tick 0 0 demo_isolated) 1)"
proof -
  have "core_isolated demo_isolated 1" by (simp add: demo_isolated_def boot_image_def core_isolated_def)
  then show ?thesis using rebalance_ignores_isolation[of demo_isolated 2 "[3]" 0]
    by (simp add: demo_isolated_def boot_image_def zero_task_def migratable_def u64_add_eq)
qed

text \<open>C32: The shell's kill command leaves a sleeping task on the sleep queue when it frees its slot: the next wake-up
  of sleepers puts the freed slot on a run queue.
\<close>

theorem kill_leaves_sleeper:
  assumes "sched_ok s" "sleep_queue s = [t]" "task_get pid s = Some t" "cpu_affinity (tcb s t) = CPU_AFFINITY_ANY"
    "wake_time_ns (tcb s t) \<le> ticks" "\<not> core_isolated s 0" "this_cpu < cpu_count s" "assigned_cpu (tcb s t) < cpu_count s"
  shows "\<exists>s1. cmd_kill this_cpu pid s = Some (0, s1) \<and> t_id (tcb s1 t) = 0 \<and>
    (\<exists>c < cpu_count s. t \<in> set (runq (task_wake_sleepers cfg now ticks s1) c))"
proof -
  have r: "resting s t" using assms(1,2) by (simp add: sched_ok_def sleep_ok_def)
  have l: "loose s t" "\<not> t_idle (tcb s t)" "t_state (tcb s t) = TASK_BLOCKED" using r by (simp_all add: resting_def addable_def)
  let ?s0 = "set_state t TASK_TERMINATED s"
  have "t \<notin> set (runq s (assigned_cpu (tcb s t)))" using l(1) assms(8) by (simp add: loose_def)
  then have rem: "scheduler_remove_task t ?s0 = ?s0"
    by (simp add: scheduler_remove_task_def remove_from_cpu_queue_locked_def unlink_task_eq Let_def)
  define s1 where "s1 = upd_task t (\<lambda>x. x\<lparr>t_id := 0, t_generation := t_generation x + 1\<rparr>) ?s0"
  have k: "cmd_kill this_cpu pid s = Some (0, s1)"
    using assms(3,7) l rem by (auto simp: cmd_kill_def task_destroy_def s1_def loose_def)
  let ?s2 = "upd_task t (\<lambda>x. x\<lparr>wake_time_ns := 0, t_state := TASK_READY\<rparr>) (s1\<lparr>sleep_queue := []\<rparr>)"
  have w: "task_wake_sleepers cfg now ticks s1 = scheduler_add_task cfg now t ?s2"
    using assms(2,5) by (simp add: task_wake_sleepers_def wake_sleeper_def s1_def set_state_def)
  have "0 < cpu_count ?s2" "\<not> core_isolated ?s2 0" "t_state (tcb ?s2 t) = TASK_READY" "cpu_affinity (tcb ?s2 t) = CPU_AFFINITY_ANY" "cpu_count ?s2 = cpu_count s"
    using assms by (simp_all add: sched_ok_def sched_inv_def core_isolated_def s1_def set_state_def)
  then have "\<exists>c < cpu_count s. t \<in> set (runq (scheduler_add_task cfg now t ?s2) c)" using add_task_queued[of ?s2 t cfg now] by auto
  then show ?thesis using k w by (simp add: s1_def)
qed

definition demo_sleeping :: sched_state where
  "demo_sleeping = demo_resting\<lparr>sleep_queue := [2]\<rparr>"

theorem kill_leaves_sleeper_witness:
  "\<exists>s1. cmd_kill 0 3 demo_sleeping = Some (0, s1) \<and> t_id (tcb s1 2) = 0 \<and>
    (\<exists>c < 2. 2 \<in> set (runq (task_wake_sleepers sched_balance_config_defaults 0 0 s1) c))"
proof -
  have ok: "sched_ok demo_sleeping" using demo_resting_facts by (simp add: demo_sleeping_def sched_ok_def sleep_ok_def)
  have n: "tcb demo_sleeping = (tcb demo_boot)(2 := (tcb demo_boot 2)\<lparr>t_id := 3, cpu_affinity := CPU_AFFINITY_ANY,
      assigned_cpu := 0, t_priority := 4, effective_priority := 4, pi_priority := 0, pi_mutexes_held := 0, ai_priority := TASK_AI_PRIORITY_NONE,
      deadline_ns := 0, wake_time_ns := 0, t_switches := 0, t_state := TASK_BLOCKED\<rparr>)"
    using demo_boot_started(2) started_slot[OF demo_boot_started(2)]
    by (simp add: demo_sleeping_def demo_resting_def demo_new_def set_state_def task_create_with_priority_def task_alloc_def Let_def started_def upd_task_def)
  have "t_id (tcb demo_sleeping i) = Suc i" if "i < 2" for i using demo_boot_started(2) that by (simp add: n started_def)
  then have "task_get 3 demo_sleeping = Some 2" by (auto simp: task_get_def find_Some_iff n intro!: exI[of _ 2])
  then show ?thesis using kill_leaves_sleeper[OF ok, of 2 3 0 0 sched_balance_config_defaults 0] demo_resting_facts n
    by (simp add: demo_sleeping_def core_isolated_def)
qed

end
