(* ===== verification/PiMutex.thy ===== *)
theory PiMutex
  imports SchedSystem
begin

text \<open>
  Priority-inheriting mutexes (\<open>kernel/ipc/pi_mutex.c\<close>) on top of the scheduler.

  A wait queue is the list of its tasks from head to tail.  The guard of a mutex makes each call atomic;
  a contended \<open>pi_mutex_lock\<close> runs up to the switch away from the caller.  \<open>None\<close> is a dereference of
  \<open>NULL\<close>.
\<close>

section \<open>The code\<close>

record pi_mutex =
  pm_owner :: "nat option"
  pm_waiters :: "nat list"
  pm_locked :: bool

record pi_state =
  mutexes :: "nat \<Rightarrow> pi_mutex"
  total_inversions :: nat
  last_inversion_flag :: bool
  psched :: sched_state

definition pi_mutex_init :: "nat \<Rightarrow> pi_state \<Rightarrow> pi_state" where
  "pi_mutex_init m ps = ps\<lparr>mutexes := (mutexes ps)(m := \<lparr>pm_owner = None, pm_waiters = [], pm_locked = False\<rparr>)\<rparr>"

definition note_mutex_acquired :: "nat \<Rightarrow> sched_state \<Rightarrow> sched_state" where
  "note_mutex_acquired t s = upd_task t (\<lambda>x. x\<lparr>pi_mutexes_held := (pi_mutexes_held x + 1) mod 256\<rparr>) s"

definition raise_inherited_priority :: "nat \<Rightarrow> nat \<Rightarrow> sched_state \<Rightarrow> bool \<times> sched_state" where
  "raise_inherited_priority t priority s =
     (if priority > pi_priority (tcb s t) then (True, upd_task t (\<lambda>x. x\<lparr>pi_priority := priority\<rparr>) s) else (False, s))"

definition try_boost_owner :: "nat \<Rightarrow> nat \<Rightarrow> pi_state \<Rightarrow> bool \<times> pi_state" where
  "try_boost_owner m caller ps =
     (case pm_owner (mutexes ps m) of
        None \<Rightarrow> (False, ps)
      | Some owner \<Rightarrow>
          (case raise_inherited_priority owner (eprio (psched ps) caller) (psched ps) of (changed, s1) \<Rightarrow>
             if eprio s1 caller > eprio s1 owner
             then (True, ps\<lparr>psched := upd_task owner (\<lambda>x. x\<lparr>effective_priority := eprio s1 caller\<rparr>) s1,
                            total_inversions := u32_add (total_inversions ps) 1, last_inversion_flag := True\<rparr>)
             else (changed, ps\<lparr>psched := s1\<rparr>)))"

definition pi_mutex_lock :: "nat \<Rightarrow> nat \<Rightarrow> nat \<Rightarrow> pi_state \<Rightarrow> pi_state option" where
  "pi_mutex_lock m now cpu ps0 =
     (case current_task (psched ps0) cpu of
        None \<Rightarrow> None
      | Some self \<Rightarrow>
          let ps = ps0\<lparr>last_inversion_flag := False\<rparr>; x = mutexes ps m
          in if \<not> pm_locked x
             then Some (ps\<lparr>mutexes := (mutexes ps)(m := x\<lparr>pm_locked := True, pm_owner := Some self\<rparr>),
                           psched := note_mutex_acquired self (psched ps)\<rparr>)
             else
               (case try_boost_owner m self ps of (changed, ps1) \<Rightarrow>
                  let s1 = (if changed then sched_reposition_task now (the (pm_owner x)) (psched ps1) else psched ps1);
                      ps2 = ps1\<lparr>mutexes := (mutexes ps1)(m := x\<lparr>pm_waiters := pm_waiters x @ [self]\<rparr>)\<rparr>
                  in do {
                    s2 \<leftarrow> schedule now cpu (set_state self TASK_BLOCKED s1);
                    Some (ps2\<lparr>psched := s2\<rparr>)
                  }))"

definition pi_mutex_trylock :: "nat \<Rightarrow> nat \<Rightarrow> pi_state \<Rightarrow> (nat \<times> pi_state) option" where
  "pi_mutex_trylock m cpu ps =
     (let x = mutexes ps m
      in if \<not> pm_locked x
         then (case current_task (psched ps) cpu of
                 None \<Rightarrow> None
               | Some self \<Rightarrow> Some (1, ps\<lparr>mutexes := (mutexes ps)(m := x\<lparr>pm_locked := True, pm_owner := Some self\<rparr>),
                                         psched := note_mutex_acquired self (psched ps)\<rparr>))
         else Some (0, ps))"

definition pi_mutex_held_by_self :: "nat \<Rightarrow> nat \<Rightarrow> pi_state \<Rightarrow> bool" where
  "pi_mutex_held_by_self m cpu ps \<longleftrightarrow> pm_locked (mutexes ps m) \<and> pm_owner (mutexes ps m) = current_task (psched ps) cpu"

text \<open>The release of the inherited priority with the last mutex.\<close>

definition drop_inherited :: "nat \<Rightarrow> nat \<Rightarrow> sched_state \<Rightarrow> sched_state" where
  "drop_inherited now owner s =
     (let s1 = (if pi_mutexes_held (tcb s owner) > 0
                then upd_task owner (\<lambda>x. x\<lparr>pi_mutexes_held := pi_mutexes_held x - 1\<rparr>) s else s)
      in if pi_mutexes_held (tcb s1 owner) = 0 \<and> pi_priority (tcb s1 owner) \<noteq> 0
         then sched_refresh_effective_priority now owner (upd_task owner (\<lambda>x. x\<lparr>pi_priority := 0\<rparr>) s1)
         else s1)"

fun best_waiter :: "(nat \<Rightarrow> nat) \<Rightarrow> nat option \<Rightarrow> nat list \<Rightarrow> nat option" where
  "best_waiter p best [] = best"
| "best_waiter p best (cur # ws) =
     best_waiter p (if best = None \<or> p cur > p (the best) then Some cur else best) ws"

definition pi_mutex_unlock :: "nat \<Rightarrow> nat \<Rightarrow> pi_state \<Rightarrow> pi_state" where
  "pi_mutex_unlock m now ps =
     (let x = mutexes ps m;
          s1 = (case pm_owner x of None \<Rightarrow> psched ps | Some owner \<Rightarrow> drop_inherited now owner (psched ps))
      in case best_waiter (eprio s1) None (pm_waiters x) of
           Some best \<Rightarrow>
             let ws = remove1 best (pm_waiters x);
                 s2 = note_mutex_acquired best s1;
                 s3 = fold (\<lambda>t s. snd (raise_inherited_priority best (eprio s t) s)) ws s2;
                 s4 = set_state best TASK_READY s3
             in ps\<lparr>mutexes := (mutexes ps)(m := x\<lparr>pm_waiters := ws, pm_owner := Some best\<rparr>),
                   psched := scheduler_add_task_to_cpu now best (assigned_cpu (tcb s4 best)) s4\<rparr>
         | None \<Rightarrow> ps\<lparr>mutexes := (mutexes ps)(m := x\<lparr>pm_owner := None, pm_locked := False\<rparr>), psched := s1\<rparr>)"

definition pi_mutex_inversion_detected :: "pi_state \<Rightarrow> bool" where
  "pi_mutex_inversion_detected ps = last_inversion_flag ps"

definition pi_mutex_inversion_count :: "pi_state \<Rightarrow> nat" where
  "pi_mutex_inversion_count ps = total_inversions ps"

section \<open>Changes the scheduler does not see\<close>

definition same_sched :: "sched_state \<Rightarrow> sched_state \<Rightarrow> bool" where
  "same_sched s s' \<longleftrightarrow> cpu_rq s' = cpu_rq s \<and> current_task s' = current_task s \<and> cpu_count s' = cpu_count s \<and>
     next_task_id s' = next_task_id s \<and> sleep_queue s' = sleep_queue s \<and> cpu_steal_deques s' = cpu_steal_deques s \<and>
     (\<forall>u. t_id (tcb s' u) = t_id (tcb s u) \<and> t_state (tcb s' u) = t_state (tcb s u) \<and>
       assigned_cpu (tcb s' u) = assigned_cpu (tcb s u) \<and> t_idle (tcb s' u) = t_idle (tcb s u))"

lemma same_sched_refl [simp]: "same_sched s s"
  by (simp add: same_sched_def)

lemma same_sched_trans [trans]: "same_sched s s' \<Longrightarrow> same_sched s' s'' \<Longrightarrow> same_sched s s''"
  by (simp add: same_sched_def)

lemma same_sched_resting: "same_sched s s' \<Longrightarrow> resting s' u = resting s u"
  by (simp add: same_sched_def resting_def addable_def loose_def)

lemma same_sched_ok:
  assumes "same_sched s s'"
  shows "sched_ok s' = sched_ok s"
proof -
  have "sched_inv s' = sched_inv s" by (rule sched_inv_cong) (use assms in \<open>auto simp: same_sched_def\<close>)
  then show ?thesis using same_sched_resting[OF assms] assms by (simp add: sched_ok_def sleep_ok_def same_sched_def)
qed

lemma same_sched_upd:
  assumes "\<And>x. t_id (f x) = t_id x" "\<And>x. t_state (f x) = t_state x" "\<And>x. assigned_cpu (f x) = assigned_cpu x" "\<And>x. t_idle (f x) = t_idle x"
  shows "same_sched s (upd_task t f s)"
  by (simp add: same_sched_def assms)

lemma same_sched_boost: "same_sched s (update_deadline_boost now t s)"
  by (simp add: same_sched_def)

lemma same_sched_note: "same_sched s (note_mutex_acquired t s)"
  unfolding note_mutex_acquired_def by (rule same_sched_upd) simp_all

lemma same_sched_raise: "same_sched s (snd (raise_inherited_priority t p s))"
  using same_sched_upd[of "\<lambda>x. x\<lparr>pi_priority := p\<rparr>" s t] by (simp add: raise_inherited_priority_def)

lemma same_sched_raise_all: "same_sched s (fold (\<lambda>t s. snd (raise_inherited_priority b (eprio s t) s)) ws s)"
proof (induction ws arbitrary: s)
  case (Cons w ws)
  show ?case using same_sched_trans[OF same_sched_raise Cons.IH] by simp
qed simp

lemma same_sched_drop: "same_sched s (drop_inherited now t s)"
proof -
  have 1: "same_sched s (upd_task t (\<lambda>x. x\<lparr>pi_mutexes_held := pi_mutexes_held x - 1\<rparr>) s)" by (rule same_sched_upd) simp_all
  have 2: "same_sched u (update_deadline_boost now t (upd_task t (\<lambda>x. x\<lparr>pi_priority := 0\<rparr>) u))" for u
    by (rule same_sched_trans[OF same_sched_upd same_sched_boost]) simp_all
  show ?thesis using 1 2 same_sched_trans[OF 1 2] by (simp add: drop_inherited_def sched_refresh_effective_priority_def Let_def)
qed

lemma same_sched_try_boost:
  assumes "try_boost_owner m c ps = (b, ps')"
  shows "same_sched (psched ps) (psched ps') \<and> mutexes ps' = mutexes ps"
proof (cases "pm_owner (mutexes ps m)")
  case (Some owner)
  obtain ch s1 where r: "raise_inherited_priority owner (eprio (psched ps) c) (psched ps) = (ch, s1)"
    by (cases "raise_inherited_priority owner (eprio (psched ps) c) (psched ps)")
  have 1: "same_sched (psched ps) s1" using same_sched_raise[of "psched ps" owner "eprio (psched ps) c"] r by simp
  have "same_sched s1 (upd_task owner (\<lambda>x. x\<lparr>effective_priority := p\<rparr>) s1)" for p by (rule same_sched_upd) simp_all
  then show ?thesis using assms Some r same_sched_trans[OF 1] 1 by (auto simp: try_boost_owner_def split: if_splits)
qed (use assms in \<open>simp add: try_boost_owner_def\<close>)

section \<open>The invariant\<close>

definition waiting_ok :: "sched_state \<Rightarrow> nat \<Rightarrow> bool" where
  "waiting_ok s w \<longleftrightarrow> resting s w \<and> w \<notin> set (sleep_queue s)"

definition mutex_ok :: "sched_state \<Rightarrow> pi_mutex \<Rightarrow> bool" where
  "mutex_ok s x \<longleftrightarrow> (pm_locked x \<longleftrightarrow> pm_owner x \<noteq> None) \<and> (pm_waiters x \<noteq> [] \<longrightarrow> pm_locked x) \<and> distinct (pm_waiters x) \<and>
     (\<forall>w \<in> set (pm_waiters x). waiting_ok s w \<and> pm_owner x \<noteq> Some w)"

definition pi_inv :: "pi_state \<Rightarrow> bool" where
  "pi_inv ps \<longleftrightarrow> sched_ok (psched ps) \<and> (\<forall>m. mutex_ok (psched ps) (mutexes ps m)) \<and>
     (\<forall>m m'. m \<noteq> m' \<longrightarrow> set (pm_waiters (mutexes ps m)) \<inter> set (pm_waiters (mutexes ps m')) = {})"

text \<open>A step of the scheduler keeps the invariant when it wakes no waiter.\<close>

lemma mutex_ok_mono: "mutex_ok s x \<Longrightarrow> (\<And>w. w \<in> set (pm_waiters x) \<Longrightarrow> waiting_ok s w \<Longrightarrow> waiting_ok s' w) \<Longrightarrow> mutex_ok s' x"
  by (auto simp: mutex_ok_def)

lemma pi_inv_sched:
  assumes "pi_inv ps" "sched_ok s'" "\<And>w. waiting_ok (psched ps) w \<Longrightarrow> waiting_ok s' w"
  shows "pi_inv (ps\<lparr>psched := s'\<rparr>)"
  using assms mutex_ok_mono[of "psched ps" _ s'] by (simp add: pi_inv_def)

lemma same_sched_waiting: "same_sched s s' \<Longrightarrow> waiting_ok s' w = waiting_ok s w"
  by (metis same_sched_def same_sched_resting waiting_ok_def)

lemma quiet_waiting: "quiet s s' \<Longrightarrow> waiting_ok s w \<Longrightarrow> waiting_ok s' w"
  by (simp add: waiting_ok_def quiet_def)

section \<open>Acquisition\<close>

lemma mutex_update_inv:
  assumes inv: "pi_inv ps" and ok: "sched_ok s'" and keep: "\<And>w. waiting_ok (psched ps) w \<Longrightarrow> w \<notin> set (pm_waiters (mutexes ps m)) \<Longrightarrow> waiting_ok s' w"
    and x: "mutex_ok s' x" and ws: "\<And>w m'. m' \<noteq> m \<Longrightarrow> w \<in> set (pm_waiters x) \<Longrightarrow> w \<notin> set (pm_waiters (mutexes ps m'))"
  shows "pi_inv (ps\<lparr>mutexes := (mutexes ps)(m := x), psched := s'\<rparr>)"
proof -
  have other: "mutex_ok s' (mutexes ps m')" if "m' \<noteq> m" for m'
  proof (rule mutex_ok_mono[of "psched ps"])
    show "mutex_ok (psched ps) (mutexes ps m')" using inv by (simp add: pi_inv_def)
    fix w assume w: "w \<in> set (pm_waiters (mutexes ps m'))" "waiting_ok (psched ps) w"
    have "set (pm_waiters (mutexes ps m')) \<inter> set (pm_waiters (mutexes ps m)) = {}" using inv that by (simp add: pi_inv_def)
    then show "waiting_ok s' w" using keep[OF w(2)] w(1) by blast
  qed
  have "set (pm_waiters (mutexes ps a)) \<inter> set (pm_waiters (mutexes ps b)) = {}" if "a \<noteq> b" for a b
    using inv that by (simp add: pi_inv_def)
  moreover have "set (pm_waiters x) \<inter> set (pm_waiters (mutexes ps a)) = {}" if "a \<noteq> m" for a using ws[OF that] by blast
  ultimately show ?thesis using ok x other unfolding pi_inv_def by (simp add: Int_commute)
qed

lemma pi_inv_cong: "mutexes ps = mutexes ps' \<Longrightarrow> psched ps = psched ps' \<Longrightarrow> pi_inv ps = pi_inv ps'"
  by (simp add: pi_inv_def)

lemma acquire_inv:
  assumes inv: "pi_inv ps" and free: "\<not> pm_locked (mutexes ps m)"
  shows "pi_inv (ps\<lparr>mutexes := (mutexes ps)(m := (mutexes ps m)\<lparr>pm_locked := True, pm_owner := Some t\<rparr>),
    psched := note_mutex_acquired t (psched ps)\<rparr>)"
proof (rule mutex_update_inv[OF inv])
  have "pm_waiters (mutexes ps m) = []" using inv free by (auto simp: pi_inv_def mutex_ok_def)
  then show "mutex_ok (note_mutex_acquired t (psched ps)) ((mutexes ps m)\<lparr>pm_locked := True, pm_owner := Some t\<rparr>)"
    "\<And>w m'. w \<in> set (pm_waiters ((mutexes ps m)\<lparr>pm_locked := True, pm_owner := Some t\<rparr>)) \<Longrightarrow> w \<notin> set (pm_waiters (mutexes ps m'))"
    by (simp_all add: mutex_ok_def)
  show "sched_ok (note_mutex_acquired t (psched ps))" using same_sched_ok[OF same_sched_note] inv by (simp add: pi_inv_def)
qed (simp add: same_sched_waiting[OF same_sched_note])

lemma reposition_frame: "current_task (sched_reposition_task now t s) = current_task s"
  "t_idle (tcb (sched_reposition_task now t s) u) = t_idle (tcb s u)" "cpu_count (sched_reposition_task now t s) = cpu_count s"
  by (auto simp: sched_reposition_task_def reposition_locked_def Let_def add_to_cpu_queue_locked_def remove_from_cpu_queue_locked_def
      split: option.split)

text \<open>A contended lock blocks its caller and switches away from it.\<close>

lemma lock_contended:
  assumes inv: "pi_inv ps" and cpu: "cpu < cpu_count (psched ps)" and cur: "current_task (psched ps) cpu = Some t" "\<not> t_idle (tcb (psched ps) t)"
    and held: "pm_locked (mutexes ps m)" "pm_owner (mutexes ps m) \<noteq> Some t"
  shows "\<exists>ps'. pi_mutex_lock m now cpu ps = Some ps' \<and> pi_inv ps' \<and>
    mutexes ps' = (mutexes ps)(m := (mutexes ps m)\<lparr>pm_waiters := pm_waiters (mutexes ps m) @ [t]\<rparr>)"
proof -
  let ?ps = "ps\<lparr>last_inversion_flag := False\<rparr>" and ?x = "mutexes ps m"
  obtain b ps1 where tb: "try_boost_owner m t ?ps = (b, ps1)" by (cases "try_boost_owner m t ?ps")
  have ss: "same_sched (psched ps) (psched ps1)" "mutexes ps1 = mutexes ps" using same_sched_try_boost[OF tb] by simp_all
  define s1 where "s1 = (if b then sched_reposition_task now (the (pm_owner ?x)) (psched ps1) else psched ps1)"
  have ok0: "sched_ok (psched ps1)" using same_sched_ok[OF ss(1)] inv by (simp add: pi_inv_def)
  have q: "quiet (psched ps1) s1" using quiet_reposition ok0 by (simp add: s1_def sched_ok_def)
  have ok1: "sched_ok s1" using ok0 reposition_inv sched_okI[OF _ _ q] by (auto simp: s1_def sched_ok_def)
  have c1: "cpu < cpu_count s1" "current_task s1 cpu = Some t" "\<not> t_idle (tcb s1 t)"
    using ss(1) cpu cur by (auto simp: s1_def reposition_frame same_sched_def)
  obtain s2 where s2: "block_current now cpu s1 = Some s2" "sched_ok s2" "resting s2 t" using block_ok[OF ok1 c1, of now] by blast
  have q2: "quiet s1 s2"
  proof -
    have i: "sched_inv (set_state t TASK_BLOCKED s1)" using inv_upd_current[OF _ c1] ok1 by (simp add: sched_ok_def)
    have "quiet s1 (set_state t TASK_BLOCKED s1)" unfolding set_state_def using quiet_upd current_not_resting[OF c1(1,2)] by simp
    moreover have "schedule now cpu (set_state t TASK_BLOCKED s1) = Some s2" using s2(1) c1(2) by (simp add: block_current_def)
    ultimately show ?thesis using schedule_quiet[OF i, of cpu now s2] c1(1) quiet_trans by simp
  qed
  have keep: "waiting_ok s2 w" if "waiting_ok (psched ps) w" for w
    using that same_sched_waiting[OF ss(1)] quiet_waiting[OF quiet_trans[OF q q2]] by simp
  have nt: "\<not> waiting_ok (psched ps) t" using current_not_resting[OF cpu cur(1)] by (simp add: waiting_ok_def)
  have tw: "waiting_ok s2 t"
  proof -
    have "t \<notin> set (sleep_queue (psched ps))" using current_not_resting[OF cpu cur(1)] inv by (auto simp: pi_inv_def sched_ok_def sleep_ok_def)
    then show ?thesis using s2(3) q q2 ss(1) by (simp add: waiting_ok_def quiet_def same_sched_def)
  qed
  have fresh: "t \<notin> set (pm_waiters (mutexes ps m'))" for m' using inv nt by (auto simp: pi_inv_def mutex_ok_def)
  have "mutex_ok s2 (?x\<lparr>pm_waiters := pm_waiters ?x @ [t]\<rparr>)" using inv keep tw fresh held by (auto simp: pi_inv_def mutex_ok_def)
  moreover have "w \<notin> set (pm_waiters (mutexes ps m'))" if "m' \<noteq> m" "w \<in> set (pm_waiters ?x @ [t])" for w m'
  proof -
    have "set (pm_waiters ?x) \<inter> set (pm_waiters (mutexes ps m')) = {}" using inv that(1) by (auto simp: pi_inv_def)
    then show ?thesis using that(2) fresh by auto
  qed
  ultimately have "pi_inv (ps\<lparr>mutexes := (mutexes ps)(m := ?x\<lparr>pm_waiters := pm_waiters ?x @ [t]\<rparr>), psched := s2\<rparr>)"
    using mutex_update_inv[OF inv s2(2), of m "?x\<lparr>pm_waiters := pm_waiters ?x @ [t]\<rparr>"] keep by simp
  then have "pi_inv (ps1\<lparr>mutexes := (mutexes ps1)(m := ?x\<lparr>pm_waiters := pm_waiters ?x @ [t]\<rparr>), psched := s2\<rparr>)"
    using pi_inv_cong ss(2) by (metis (no_types, lifting) pi_state.select_convs(1,4) pi_state.surjective pi_state.update_convs(1,4))
  moreover have "schedule now cpu (set_state t TASK_BLOCKED s1) = Some s2" using s2(1) c1(2) by (simp add: block_current_def)
  ultimately show ?thesis using cur(1) held(1) tb ss(2) by (cases b) (simp_all add: pi_mutex_lock_def Let_def s1_def)
qed

section \<open>Release\<close>

lemma best_waiter_spec:
  assumes "best_waiter p best ws = Some w" "best = None \<or> (\<exists>b. best = Some b)"
  shows "(best = Some w \<or> w \<in> set ws) \<and> (\<forall>v \<in> set ws. p v \<le> p w) \<and> (\<forall>b. best = Some b \<longrightarrow> p b \<le> p w) \<and>
    (best = Some w \<or> (\<forall>b. best = Some b \<longrightarrow> p b < p w) \<and> (\<exists>us vs. ws = us @ w # vs \<and> (\<forall>u \<in> set us. p u < p w)))"
  using assms(1)
proof (induction ws arbitrary: best)
  case (Cons c ws)
  let ?b = "if best = None \<or> p c > p (the best) then Some c else best"
  have IH: "(?b = Some w \<or> w \<in> set ws) \<and> (\<forall>v \<in> set ws. p v \<le> p w) \<and> (\<forall>b. ?b = Some b \<longrightarrow> p b \<le> p w) \<and>
    (?b = Some w \<or> (\<forall>b. ?b = Some b \<longrightarrow> p b < p w) \<and> (\<exists>us vs. ws = us @ w # vs \<and> (\<forall>u \<in> set us. p u < p w)))"
    using Cons.IH[of ?b] Cons.prems by simp
  show ?case
  proof (cases "best = None \<or> p c > p (the best)")
    case True
    then have b: "?b = Some c" by simp
    show ?thesis
    proof (cases "c = w")
      case True
      have "\<forall>b. best = Some b \<longrightarrow> p b < p w" using \<open>best = None \<or> p c > p (the best)\<close> True by auto
      moreover have "\<exists>us vs. c # ws = us @ w # vs \<and> (\<forall>u \<in> set us. p u < p w)" using True by (intro exI[of _ "[]"] exI[of _ ws]) simp
      ultimately show ?thesis using IH b True by (auto simp: less_imp_le)
    next
      case False
      then obtain us vs where u: "p c < p w" "ws = us @ w # vs" "\<forall>u \<in> set us. p u < p w" using IH b by auto
      have "\<exists>us vs. c # ws = us @ w # vs \<and> (\<forall>u \<in> set us. p u < p w)" using u by (intro exI[of _ "c # us"] exI[of _ vs]) simp
      moreover have "\<forall>b. best = Some b \<longrightarrow> p b < p w" using \<open>best = None \<or> p c > p (the best)\<close> u(1) by auto
      ultimately show ?thesis using IH b False by (auto simp: less_imp_le)
    qed
  next
    case False
    then obtain b0 where b0: "best = Some b0" "p c \<le> p b0" by auto
    then have b: "?b = Some b0" using False by simp
    show ?thesis
    proof (cases "b0 = w")
      case True
      then show ?thesis using IH b b0 by auto
    next
      case False
      then obtain us vs where u: "p b0 < p w" "ws = us @ w # vs" "\<forall>u \<in> set us. p u < p w" using IH b by auto
      have "\<exists>us vs. c # ws = us @ w # vs \<and> (\<forall>u \<in> set us. p u < p w)" using u b0 by (intro exI[of _ "c # us"] exI[of _ vs]) simp
      then show ?thesis using IH b b0 False by auto
    qed
  qed
qed simp

lemma best_waiter_None: "best_waiter p None ws = None \<longleftrightarrow> ws = []"
proof -
  have "best_waiter p (Some b) vs \<noteq> None" for b vs by (induction vs arbitrary: b) auto
  then show ?thesis by (cases ws) simp_all
qed

lemma unlock_inv:
  assumes inv: "pi_inv ps"
  shows "pi_inv (pi_mutex_unlock m now ps)"
proof -
  let ?x = "mutexes ps m"
  define s1 where "s1 = (case pm_owner ?x of None \<Rightarrow> psched ps | Some owner \<Rightarrow> drop_inherited now owner (psched ps))"
  have ss1: "same_sched (psched ps) s1" using same_sched_drop by (simp add: s1_def split: option.split)
  show ?thesis
  proof (cases "best_waiter (eprio s1) None (pm_waiters ?x)")
    case None
    then have ws: "pm_waiters ?x = []" using best_waiter_None by blast
    have "pi_inv (ps\<lparr>mutexes := (mutexes ps)(m := ?x\<lparr>pm_owner := None, pm_locked := False\<rparr>), psched := s1\<rparr>)"
      using same_sched_ok[OF ss1] inv ws same_sched_waiting[OF ss1]
      by (intro mutex_update_inv[OF inv]) (auto simp: pi_inv_def mutex_ok_def)
    then show ?thesis using None by (simp add: pi_mutex_unlock_def s1_def Let_def)
  next
    case (Some best)
    let ?ws = "remove1 best (pm_waiters ?x)"
    define s3 where "s3 = fold (\<lambda>t s. snd (raise_inherited_priority best (eprio s t) s)) ?ws (note_mutex_acquired best s1)"
    have ss3: "same_sched (psched ps) s3" unfolding s3_def using same_sched_trans[OF same_sched_trans[OF ss1 same_sched_note] same_sched_raise_all] .
    let ?s4 = "set_state best TASK_READY s3"
    define s5 where "s5 = scheduler_add_task_to_cpu now best (assigned_cpu (tcb ?s4 best)) ?s4"
    have mem: "best \<in> set (pm_waiters ?x)" using best_waiter_spec[OF Some] by simp
    have mok: "mutex_ok (psched ps) ?x" using inv by (simp add: pi_inv_def)
    have rest: "resting s3 best" "best \<notin> set (sleep_queue s3)"
      using mok mem same_sched_waiting[OF ss3] by (auto simp: mutex_ok_def waiting_ok_def)
    have ok3: "sched_ok s3" using same_sched_ok[OF ss3] inv by (simp add: pi_inv_def)
    have i4: "sched_inv ?s4" using inv_upd_loose[of s3 best] ok3 rest by (simp add: set_state_def sched_ok_def resting_def addable_def)
    have a4: "addable ?s4 best" using rest by (simp add: set_state_def resting_def addable_def)
    have ok4: "sched_ok ?s4" using sched_ok_but[OF i4 _ rest(2)] ok3 resting_upd_other[of _ best] by (simp add: sched_ok_def set_state_def)
    have ok5: "sched_ok s5" unfolding s5_def using sched_okI[OF add_task_to_cpu_inv[OF i4 a4] _ quiet_add_to_cpu] ok4 by (simp add: sched_ok_def)
    have keep: "waiting_ok s5 w" if "waiting_ok (psched ps) w" "w \<noteq> best" for w
    proof -
      have "waiting_ok ?s4 w" using that same_sched_waiting[OF ss3] resting_upd_other[of w best] by (simp add: waiting_ok_def set_state_def)
      then show ?thesis unfolding s5_def using quiet_waiting[OF quiet_add_to_cpu] by blast
    qed
    have "mutex_ok s5 (?x\<lparr>pm_waiters := ?ws, pm_owner := Some best\<rparr>)" using mok mem keep by (auto simp: mutex_ok_def)
    then have "pi_inv (ps\<lparr>mutexes := (mutexes ps)(m := ?x\<lparr>pm_waiters := ?ws, pm_owner := Some best\<rparr>), psched := s5\<rparr>)"
    proof (rule mutex_update_inv[OF inv ok5, rotated])
      fix w assume "waiting_ok (psched ps) w" "w \<notin> set (pm_waiters ?x)"
      then show "waiting_ok s5 w" using keep mem by blast
    next
      fix w m' assume a: "m' \<noteq> m" "w \<in> set (pm_waiters (?x\<lparr>pm_waiters := ?ws, pm_owner := Some best\<rparr>))"
      have "set (pm_waiters ?x) \<inter> set (pm_waiters (mutexes ps m')) = {}" using inv a(1) by (auto simp: pi_inv_def)
      then show "w \<notin> set (pm_waiters (mutexes ps m'))" using a(2) set_remove1_subset[of best "pm_waiters ?x"] by auto
    qed
    then show ?thesis using Some by (simp add: pi_mutex_unlock_def s1_def s3_def s5_def Let_def)
  qed
qed

section \<open>The system of tasks\<close>

text \<open>A call on a mutex by the running task of a CPU, or a step of the scheduler that wakes no waiter.\<close>

inductive pi_step :: "pi_state \<Rightarrow> pi_state option \<Rightarrow> bool" where
  lock: "cpu < cpu_count (psched ps) \<Longrightarrow> current_task (psched ps) cpu = Some t \<Longrightarrow> \<not> t_idle (tcb (psched ps) t) \<Longrightarrow>
    pm_owner (mutexes ps m) \<noteq> Some t \<Longrightarrow> pi_step ps (pi_mutex_lock m now cpu ps)"
| trylock: "cpu < cpu_count (psched ps) \<Longrightarrow> current_task (psched ps) cpu = Some t \<Longrightarrow> pi_step ps (map_option snd (pi_mutex_trylock m cpu ps))"
| unlock: "pi_step ps (Some (pi_mutex_unlock m now ps))"
| yield: "cpu < cpu_count (psched ps) \<Longrightarrow> pi_step ps (map_option (\<lambda>s. ps\<lparr>psched := s\<rparr>) (schedule now cpu (psched ps)))"
| tick: "cpu < cpu_count (psched ps) \<Longrightarrow> pi_step ps (map_option (\<lambda>s. ps\<lparr>psched := s\<rparr>) (scheduler_tick cfg now ticks cpu (psched ps)))"
| exit: "cpu < cpu_count (psched ps) \<Longrightarrow> current_task (psched ps) cpu = Some t \<Longrightarrow> \<not> t_idle (tcb (psched ps) t) \<Longrightarrow>
    pi_step ps (map_option (\<lambda>s. ps\<lparr>psched := s\<rparr>) (task_exit now cpu (psched ps)))"

inductive pi_reachable :: "nat \<Rightarrow> pi_state \<Rightarrow> bool" for n where
  start: "sched_reachable n s \<Longrightarrow> pi_reachable n
    \<lparr>mutexes = (\<lambda>_. \<lparr>pm_owner = None, pm_waiters = [], pm_locked = False\<rparr>), total_inversions = 0, last_inversion_flag = False, psched = s\<rparr>"
| step: "pi_reachable n ps \<Longrightarrow> pi_step ps (Some ps') \<Longrightarrow> pi_reachable n ps'"

lemma tick_waiting:
  assumes ok: "sched_ok s" and cpu: "cpu < cpu_count s" and t: "scheduler_tick cfg now ticks cpu s = Some s'" and w: "waiting_ok s w"
  shows "waiting_ok s' w"
proof -
  let ?s1 = "task_wake_sleepers cfg now ticks s"
  let ?s2 = "?s1\<lparr>timer_ticks := u64_add (timer_ticks ?s1) 1\<rparr>"
  let ?s3 = "sched_rebalance_tick now cpu ?s2"
  note ws = wake_sleepers_ok[OF ok, of cfg now ticks]
  have ok2: "sched_ok ?s2" using ws sched_okI[of ?s2 ?s1] by (simp add: sched_ok_def)
  have "waiting_ok ?s2 w" using ws w by (auto simp: waiting_ok_def resting_def addable_def loose_def)
  then have 3: "waiting_ok ?s3 w" using rebalance_ok[OF ok2, of now cpu] quiet_waiting by blast
  have "cpu < cpu_count ?s3" using rebalance_ok[OF ok2, of now cpu] ws cpu by (simp add: quiet_def)
  then show ?thesis using t 3 schedule_quiet[of ?s3 cpu now s'] rebalance_ok[OF ok2, of now cpu] quiet_waiting
    by (auto simp: scheduler_tick_def Let_def sched_ok_def split: if_splits)
qed

lemma exit_waiting:
  assumes ok: "sched_ok s" and cpu: "cpu < cpu_count s" and c: "current_task s cpu = Some t" "\<not> t_idle (tcb s t)"
    and x: "task_exit now cpu s = Some s'" and w: "waiting_ok s w"
  shows "waiting_ok s' w"
proof -
  have "t \<notin> set (sleep_queue s)" using ok current_not_resting[OF cpu c(1)] by (auto simp: sched_ok_def sleep_ok_def)
  then obtain s1 where s1: "scheduler_terminate_task t s = Some s1" "sched_ok s1" "cpu_count s1 = cpu_count s"
    using terminate_ok[OF ok c(2)] cpu c(1) by auto
  have "w \<noteq> t" using current_not_resting[OF cpu c(1)] w by (auto simp: waiting_ok_def)
  then have "waiting_ok s1 w" using terminate_frame[OF _ s1(1)] ok w by (simp add: waiting_ok_def sched_ok_def)
  then show ?thesis using x c s1 cpu schedule_quiet[of s1 cpu now s'] quiet_waiting by (auto simp: task_exit_def sched_ok_def)
qed

lemma pi_step_inv:
  assumes inv: "pi_inv ps" and st: "pi_step ps r"
  shows "\<exists>ps'. r = Some ps' \<and> pi_inv ps'"
  using st
proof cases
  case (lock cpu t m now)
  show ?thesis
  proof (cases "pm_locked (mutexes ps m)")
    case True
    then show ?thesis using lock_contended[OF inv, of cpu t m now] lock by auto
  next
    case False
    have "pi_inv (ps\<lparr>last_inversion_flag := False\<rparr>)" using inv pi_inv_cong[of "ps\<lparr>last_inversion_flag := False\<rparr>" ps] by simp
    from acquire_inv[OF this, of m t] show ?thesis using lock False by (simp add: pi_mutex_lock_def Let_def)
  qed
next
  case (trylock cpu t m)
  then show ?thesis using inv acquire_inv[OF inv, of m t] by (auto simp: pi_mutex_trylock_def Let_def)
next
  case (unlock m now)
  then show ?thesis using unlock_inv[OF inv] by simp
next
  case (yield cpu now)
  have ok: "sched_ok (psched ps)" using inv by (simp add: pi_inv_def)
  obtain s' where s': "schedule now cpu (psched ps) = Some s'" "sched_ok s'" using schedule_ok[OF ok yield(2), of now] by blast
  then show ?thesis using yield pi_inv_sched[OF inv s'(2)] schedule_quiet[OF _ yield(2) s'(1)] ok quiet_waiting by (auto simp: sched_ok_def)
next
  case (tick cpu cfg now ticks)
  have ok: "sched_ok (psched ps)" using inv by (simp add: pi_inv_def)
  obtain s' where s': "scheduler_tick cfg now ticks cpu (psched ps) = Some s'" "sched_ok s'" using tick_ok[OF ok tick(2)] by blast
  then show ?thesis using tick pi_inv_sched[OF inv s'(2)] tick_waiting[OF ok tick(2) s'(1)] by auto
next
  case (exit cpu t now)
  have ok: "sched_ok (psched ps)" using inv by (simp add: pi_inv_def)
  obtain s' where s': "task_exit now cpu (psched ps) = Some s'" "sched_ok s'" using exit_ok[OF ok exit(2-4)] by blast
  then show ?thesis using exit pi_inv_sched[OF inv s'(2)] exit_waiting[OF ok exit(2-4) s'(1)] by auto
qed

lemma pi_reachable_inv:
  assumes "pi_reachable n ps" "0 < n" "n \<le> MAX_CPUS"
  shows "pi_inv ps"
  using assms
proof (induction rule: pi_reachable.induct)
  case (start s)
  then show ?case using reachable_ok by (simp add: pi_inv_def mutex_ok_def)
next
  case (step ps ps')
  then show ?case using pi_step_inv by blast
qed

end
