(* ===== verification/PiMutexProps.thy ===== *)
theory PiMutexProps
  imports PiMutex SchedProps
begin

text \<open>
  Properties of the priority-inheriting mutexes: what a waiter is, whom a release serves, and what the owner inherits.
\<close>

section \<open>Demonstration states\<close>


text \<open>Task 2 waits for mutex 0, which task 9 holds.\<close>

definition demo_waiting :: pi_state where
  "demo_waiting = \<lparr>mutexes = (\<lambda>_. \<lparr>pm_owner = None, pm_waiters = [], pm_locked = False\<rparr>)
     (0 := \<lparr>pm_owner = Some 9, pm_waiters = [2], pm_locked = True\<rparr>), total_inversions = 0, last_inversion_flag = False, psched = demo_resting\<rparr>"

lemma demo_waiting_inv: "pi_inv demo_waiting"
  using demo_resting_facts by (auto simp: demo_waiting_def pi_inv_def mutex_ok_def waiting_ok_def)

section \<open>Waiters\<close>



section \<open>Release\<close>

lemma drop_other: "w \<noteq> t \<Longrightarrow> tcb (drop_inherited now t s) w = tcb s w"
proof -
  assume w: "w \<noteq> t"
  have "tcb (update_deadline_boost now t u) w = tcb u w" for u
    by (rule update_deadline_boost_frame[of now t u]) (use w in simp)
  then show ?thesis using w by (simp add: drop_inherited_def sched_refresh_effective_priority_def Let_def)
qed

lemma raise_all_effect:
  assumes "s' = fold (\<lambda>t s. snd (raise_inherited_priority b (eprio s t) s)) ws s"
  shows "eprio s' u = eprio s u \<and> pi_priority (tcb s b) \<le> pi_priority (tcb s' b) \<and> (\<forall>w \<in> set ws. eprio s w \<le> pi_priority (tcb s' b))"
  using assms
proof (induction ws arbitrary: s u)
  case (Cons w ws)
  let ?s1 = "snd (raise_inherited_priority b (eprio s w) s)"
  have 1: "eprio ?s1 v = eprio s v" for v by (simp add: raise_inherited_priority_def eprio_def)
  have 2: "eprio s w \<le> pi_priority (tcb ?s1 b)" "pi_priority (tcb s b) \<le> pi_priority (tcb ?s1 b)" by (simp_all add: raise_inherited_priority_def)
  show ?case using Cons.IH[of ?s1] Cons.prems 1 2 by fastforce
qed simp

lemma add_to_cpu_tasks:
  "u \<noteq> t \<Longrightarrow> tcb (scheduler_add_task_to_cpu now t cpu s) u = tcb s u"
  "pi_priority (tcb (scheduler_add_task_to_cpu now t cpu s) u) = pi_priority (tcb s u)"
  "t_state (tcb s t) = TASK_READY \<Longrightarrow> cpu < cpu_count s \<Longrightarrow> t \<in> set (runq (scheduler_add_task_to_cpu now t cpu s) cpu)"
proof -
  obtain p where b: "update_deadline_boost now t (upd_task t (\<lambda>x. x\<lparr>assigned_cpu := cpu\<rparr>) s) =
      upd_task t (\<lambda>x. x\<lparr>effective_priority := p\<rparr>) (upd_task t (\<lambda>x. x\<lparr>assigned_cpu := cpu\<rparr>) s)" by (rule update_deadline_boost_frame)
  show "u \<noteq> t \<Longrightarrow> tcb (scheduler_add_task_to_cpu now t cpu s) u = tcb s u"
    "pi_priority (tcb (scheduler_add_task_to_cpu now t cpu s) u) = pi_priority (tcb s u)"
    by (simp_all add: scheduler_add_task_to_cpu_def add_to_cpu_queue_locked_def Let_def b)
  show "t_state (tcb s t) = TASK_READY \<Longrightarrow> cpu < cpu_count s \<Longrightarrow> t \<in> set (runq (scheduler_add_task_to_cpu now t cpu s) cpu)"
    by (simp add: scheduler_add_task_to_cpu_def Let_def)
qed

text \<open>C34: a release with waiters hands the mutex to the waiter of highest effective priority, the longest-waiting
  one among equals; the others keep their order, the new owner is put on the run queue of its CPU, and it inherits a
  priority no lower than that of any task still waiting.\<close>

theorem pi_mutex_unlock_handoff:
  assumes inv: "pi_inv ps" and ws: "pm_waiters (mutexes ps m) \<noteq> []"
    and cpus: "\<forall>w \<in> set (pm_waiters (mutexes ps m)). assigned_cpu (tcb (psched ps) w) < cpu_count (psched ps)" and ps': "ps' = pi_mutex_unlock m now ps"
  shows "\<exists>best us vs. pm_waiters (mutexes ps m) = us @ best # vs \<and>
    mutexes ps' m = (mutexes ps m)\<lparr>pm_waiters := us @ vs, pm_owner := Some best\<rparr> \<and> pm_locked (mutexes ps' m) \<and>
    (\<forall>u \<in> set us. eprio (psched ps) u < eprio (psched ps) best) \<and> (\<forall>v \<in> set vs. eprio (psched ps) v \<le> eprio (psched ps) best) \<and>
    best \<in> set (runq (psched ps') (assigned_cpu (tcb (psched ps) best))) \<and>
    (\<forall>w \<in> set (us @ vs). eprio (psched ps') w \<le> pi_priority (tcb (psched ps') best))"
proof -
  let ?x = "mutexes ps m" and ?s = "psched ps"
  define s1 where "s1 = (case pm_owner ?x of None \<Rightarrow> ?s | Some owner \<Rightarrow> drop_inherited now owner ?s)"
  have mok: "mutex_ok ?s ?x" using inv by (simp add: pi_inv_def)
  have e1: "tcb s1 w = tcb ?s w" if "w \<in> set (pm_waiters ?x)" for w
    using mok that drop_other[of w] by (auto simp: s1_def mutex_ok_def split: option.split)
  obtain best where b: "best_waiter (eprio s1) None (pm_waiters ?x) = Some best"
    using best_waiter_None[of "eprio s1" "pm_waiters ?x"] ws by blast
  obtain us vs where u: "pm_waiters ?x = us @ best # vs" "\<forall>u \<in> set us. eprio s1 u < eprio s1 best"
    and mx: "\<forall>v \<in> set (pm_waiters ?x). eprio s1 v \<le> eprio s1 best" using best_waiter_spec[OF b] by auto
  have dist: "best \<notin> set us" "best \<notin> set vs" using mok u(1) by (auto simp: mutex_ok_def)
  have rm: "remove1 best (pm_waiters ?x) = us @ vs" using u(1) dist by (simp add: remove1_append)
  let ?s2 = "note_mutex_acquired best s1"
  define s3 where "s3 = fold (\<lambda>t s. snd (raise_inherited_priority best (eprio s t) s)) (us @ vs) ?s2"
  note ra = raise_all_effect[OF s3_def]
  let ?s4 = "set_state best TASK_READY s3" and ?c = "assigned_cpu (tcb (psched ps) best)"
  have ss1: "same_sched ?s s1" using same_sched_drop by (simp add: s1_def split: option.split)
  have ss: "same_sched ?s s3" unfolding s3_def by (rule same_sched_trans[OF same_sched_trans[OF ss1 same_sched_note] same_sched_raise_all])
  have c: "assigned_cpu (tcb ?s4 best) = ?c" "?c < cpu_count ?s4" using ss cpus u(1) by (simp_all add: same_sched_def)
  have s5: "psched ps' = scheduler_add_task_to_cpu now best ?c ?s4" "mutexes ps' m = ?x\<lparr>pm_waiters := us @ vs, pm_owner := Some best\<rparr>"
    using b rm c(1) by (simp_all add: ps' pi_mutex_unlock_def s1_def s3_def Let_def)
  have "eprio (psched ps') w \<le> pi_priority (tcb (psched ps') best)" if w: "w \<in> set (us @ vs)" for w
  proof -
    have "w \<noteq> best" using w dist by auto
    then have "eprio (psched ps') w = eprio s3 w" by (simp add: s5(1) eprio_def add_to_cpu_tasks(1))
    moreover have "eprio s3 w \<le> pi_priority (tcb s3 best)" using ra w by simp
    ultimately show ?thesis by (simp add: s5(1) add_to_cpu_tasks(2))
  qed
  moreover have "best \<in> set (runq (psched ps') ?c)" unfolding s5(1) using add_to_cpu_tasks(3)[of ?s4 best ?c now] c(2) by simp
  moreover have "eprio s1 w = eprio ?s w" if "w \<in> set (pm_waiters ?x)" for w using e1[OF that] by (simp add: eprio_def)
  moreover have "pm_locked ?x" using mok ws unfolding mutex_ok_def by blast
  ultimately show ?thesis using u mx s5(2) by (intro exI[of _ best] exI[of _ us] exI[of _ vs]) auto
qed

theorem pi_mutex_unlock_handoff_witness:
  "\<exists>best us vs. [2] = us @ best # vs \<and> pm_owner (mutexes (pi_mutex_unlock 0 0 demo_waiting) 0) = Some best"
proof -
  have "assigned_cpu (tcb demo_resting 2) = 0" using demo_boot_started(2) started_slot[OF demo_boot_started(2)]
    by (simp add: demo_resting_def demo_new_def set_state_def task_create_with_priority_def task_alloc_def Let_def started_def)
  then have a: "\<forall>w \<in> set (pm_waiters (mutexes demo_waiting 0)). assigned_cpu (tcb (psched demo_waiting) w) < cpu_count (psched demo_waiting)"
    and w: "pm_waiters (mutexes demo_waiting 0) = [2]" using demo_resting_facts(7) by (simp_all add: demo_waiting_def)
  have "pm_waiters (mutexes demo_waiting 0) \<noteq> []" by (simp add: w)
  from pi_mutex_unlock_handoff[OF demo_waiting_inv this a refl, of 0] obtain best us vs where
    "[2] = us @ best # vs" "mutexes (pi_mutex_unlock 0 0 demo_waiting) 0 = (mutexes demo_waiting 0)\<lparr>pm_waiters := us @ vs, pm_owner := Some best\<rparr>"
    unfolding w by blast
  then show ?thesis by (intro exI[of _ best] exI[of _ us] exI[of _ vs]) simp
qed

section \<open>Inheritance\<close>






end
