(* ===== verification/Sha256.thy ===== *)
theory Sha256
  imports Prelude
begin

text \<open>
  The SHA-256 hash of \<open>kernel/lib/sha256.c\<close>, which the update and download paths use to check images.

  The context keeps the eight state words, the bytes of the block being filled and the number of bits hashed so far.
  A byte is an \<open>8 word\<close>, the state is made of \<open>32 word\<close>s, and \<open>bit_len\<close> is a \<open>64 word\<close>: all the arithmetic wraps as
  in C.  \<open>None\<close> is a write past the end of the 64-byte block.  A call with a null context returns at once and has no
  counterpart here; a null data pointer is \<open>None\<close> in the argument of \<open>sha256_update\<close>.

  The second half states the hash as the standard (FIPS 180-4) defines it, on the whole message at once, and relates
  the two.
\<close>

section \<open>The code\<close>

type_synonym byte = "8 word"

record sha256_ctx =
  bit_len :: "64 word"
  hash_state :: "32 word list"
  block :: "byte list"
  block_len :: nat

text \<open>The rows of the table are the lines of the source.\<close>

definition sha256_k :: "32 word list" where
  "sha256_k = concat [
     [0x428a2f98, 0x71374491, 0xb5c0fbcf, 0xe9b5dba5], [0x3956c25b, 0x59f111f1, 0x923f82a4, 0xab1c5ed5],
     [0xd807aa98, 0x12835b01, 0x243185be, 0x550c7dc3], [0x72be5d74, 0x80deb1fe, 0x9bdc06a7, 0xc19bf174],
     [0xe49b69c1, 0xefbe4786, 0x0fc19dc6, 0x240ca1cc], [0x2de92c6f, 0x4a7484aa, 0x5cb0a9dc, 0x76f988da],
     [0x983e5152, 0xa831c66d, 0xb00327c8, 0xbf597fc7], [0xc6e00bf3, 0xd5a79147, 0x06ca6351, 0x14292967],
     [0x27b70a85, 0x2e1b2138, 0x4d2c6dfc, 0x53380d13], [0x650a7354, 0x766a0abb, 0x81c2c92e, 0x92722c85],
     [0xa2bfe8a1, 0xa81a664b, 0xc24b8b70, 0xc76c51a3], [0xd192e819, 0xd6990624, 0xf40e3585, 0x106aa070],
     [0x19a4c116, 0x1e376c08, 0x2748774c, 0x34b0bcb5], [0x391c0cb3, 0x4ed8aa4a, 0x5b9cca4f, 0x682e6ff3],
     [0x748f82ee, 0x78a5636f, 0x84c87814, 0x8cc70208], [0x90befffa, 0xa4506ceb, 0xbef9a3f7, 0xc67178f2]]"

definition rotr32 :: "32 word \<Rightarrow> nat \<Rightarrow> 32 word" where
  "rotr32 x n = drop_bit n x OR push_bit (32 - n) x"

definition read_be32 :: "byte list \<Rightarrow> 32 word" where
  "read_be32 p = push_bit 24 (ucast (p ! 0)) OR push_bit 16 (ucast (p ! 1)) OR push_bit 8 (ucast (p ! 2)) OR ucast (p ! 3)"

definition write_be32 :: "32 word \<Rightarrow> byte list" where
  "write_be32 v = [ucast (drop_bit 24 v), ucast (drop_bit 16 v), ucast (drop_bit 8 v), ucast v]"

text \<open>The message schedule: the array \<open>w\<close>, filled from the block and then extended word by word.\<close>

definition extend_w :: "nat \<Rightarrow> 32 word list \<Rightarrow> 32 word list" where
  "extend_w i w =
     (let s0 = rotr32 (w ! (i - 15)) 7 XOR rotr32 (w ! (i - 15)) 18 XOR drop_bit 3 (w ! (i - 15));
          s1 = rotr32 (w ! (i - 2)) 17 XOR rotr32 (w ! (i - 2)) 19 XOR drop_bit 10 (w ! (i - 2))
      in w @ [w ! (i - 16) + s0 + w ! (i - 7) + s1])"

definition schedule_w :: "byte list \<Rightarrow> 32 word list" where
  "schedule_w blk = fold extend_w [16..<64] (map (\<lambda>i. read_be32 (drop (i * 4) blk)) [0..<16])"

type_synonym hash_regs = "32 word \<times> 32 word \<times> 32 word \<times> 32 word \<times> 32 word \<times> 32 word \<times> 32 word \<times> 32 word"

definition sha256_round :: "32 word list \<Rightarrow> nat \<Rightarrow> hash_regs \<Rightarrow> hash_regs" where
  "sha256_round w i = (\<lambda>(a, b, c, d, e, f, g, h).
     let s1 = rotr32 e 6 XOR rotr32 e 11 XOR rotr32 e 25;
         ch = (e AND f) XOR (NOT e AND g);
         temp1 = h + s1 + ch + sha256_k ! i + w ! i;
         s0 = rotr32 a 2 XOR rotr32 a 13 XOR rotr32 a 22;
         maj = (a AND b) XOR (a AND c) XOR (b AND c);
         temp2 = s0 + maj
     in (temp1 + temp2, a, b, c, d + temp1, e, f, g))"

definition sha256_transform :: "32 word list \<Rightarrow> byte list \<Rightarrow> 32 word list" where
  "sha256_transform st blk =
     (case fold (sha256_round (schedule_w blk)) [0..<64] (st ! 0, st ! 1, st ! 2, st ! 3, st ! 4, st ! 5, st ! 6, st ! 7) of
        (a, b, c, d, e, f, g, h) \<Rightarrow>
          [st ! 0 + a, st ! 1 + b, st ! 2 + c, st ! 3 + d, st ! 4 + e, st ! 5 + f, st ! 6 + g, st ! 7 + h])"

definition sha256_init :: "sha256_ctx \<Rightarrow> sha256_ctx" where
  "sha256_init ctx = ctx\<lparr>bit_len := 0, block_len := 0,
     hash_state := [0x6a09e667, 0xbb67ae85, 0x3c6ef372, 0xa54ff53a, 0x510e527f, 0x9b05688c, 0x1f83d9ab, 0x5be0cd19]\<rparr>"

text \<open>The loop of \<open>sha256_update\<close> over the bytes left, and the copy into the block it makes.\<close>

definition put_bytes :: "byte list \<Rightarrow> nat \<Rightarrow> byte list \<Rightarrow> byte list" where
  "put_bytes blk i bs = take i blk @ bs @ drop (i + length bs) blk"

function absorb :: "sha256_ctx \<Rightarrow> byte list \<Rightarrow> sha256_ctx option" where
  "absorb ctx p =
     (if p = [] then Some ctx
      else if block_len ctx > 64 then None
      else let n = min (64 - block_len ctx) (length p);
               ctx1 = ctx\<lparr>block := put_bytes (block ctx) (block_len ctx) (take n p), block_len := block_len ctx + n\<rparr>;
               ctx2 = (if block_len ctx1 = 64
                       then ctx1\<lparr>hash_state := sha256_transform (hash_state ctx1) (block ctx1), bit_len := bit_len ctx1 + 512, block_len := 0\<rparr>
                       else ctx1)
           in absorb ctx2 (drop n p))"
  by pat_completeness auto
termination
  by (relation "measures [\<lambda>(ctx, p). length p, \<lambda>(ctx, p). block_len ctx]") (auto simp: Let_def)

definition sha256_update :: "byte list option \<Rightarrow> nat \<Rightarrow> sha256_ctx \<Rightarrow> sha256_ctx option" where
  "sha256_update data len ctx = (case data of None \<Rightarrow> Some ctx | Some p \<Rightarrow> absorb ctx (take len p))"

function zero_fill :: "nat \<Rightarrow> sha256_ctx \<Rightarrow> sha256_ctx" where
  "zero_fill n ctx =
     (if block_len ctx < n
      then zero_fill n (ctx\<lparr>block := (block ctx)[block_len ctx := 0], block_len := block_len ctx + 1\<rparr>) else ctx)"
  by pat_completeness auto
termination
  by (relation "measure (\<lambda>(n, ctx). n - block_len ctx)") auto

definition put_length :: "64 word \<Rightarrow> byte list \<Rightarrow> byte list" where
  "put_length bits blk = fold (\<lambda>i b. b[63 - i := ucast (drop_bit (i * 8) bits)]) [0..<8] blk"

definition sha256_final :: "sha256_ctx \<Rightarrow> (byte list \<times> sha256_ctx) option" where
  "sha256_final ctx0 =
     (if block_len ctx0 \<ge> 64 then None
      else let total_bits = bit_len ctx0 + of_nat (block_len ctx0) * 8;
               ctx1 = ctx0\<lparr>block := (block ctx0)[block_len ctx0 := 0x80], block_len := block_len ctx0 + 1\<rparr>;
               ctx2 = (if block_len ctx1 > 56
                       then let c = zero_fill 64 ctx1 in c\<lparr>hash_state := sha256_transform (hash_state c) (block c), block_len := 0\<rparr>
                       else ctx1);
               ctx3 = zero_fill 56 ctx2;
               ctx4 = ctx3\<lparr>block := put_length total_bits (block ctx3)\<rparr>;
               ctx5 = ctx4\<lparr>hash_state := sha256_transform (hash_state ctx4) (block ctx4)\<rparr>
           in Some (concat (map (\<lambda>i. write_be32 (hash_state ctx5 ! i)) [0..<8]), ctx5))"

definition sha256_bytes_to_hex :: "byte list \<Rightarrow> string" where
  "sha256_bytes_to_hex digest =
     concat (map (\<lambda>i. [''0123456789abcdef'' ! unat (drop_bit 4 (digest ! i)), ''0123456789abcdef'' ! unat (digest ! i AND 0x0F)]) [0..<32])"

declare absorb.simps [simp del] zero_fill.simps [simp del]

section \<open>The standard\<close>

text \<open>FIPS 180-4: the logical functions (section 4.1.2), the constants (4.2.2 and 5.3.3: the first 32 bits of the
  fractional parts of the cube roots of the first 64 primes, and of the square roots of the first 8), the padded message
  (5.1.1), the message schedule and the compression (6.2.2).\<close>

definition primes64 :: "nat list" where
  "primes64 =
    [2, 3, 5, 7, 11, 13, 17, 19, 23, 29, 31, 37, 41, 43, 47, 53, 59, 61, 67, 71, 73, 79, 83, 89, 97, 101, 103, 107, 109, 113, 127, 131,
     137, 139, 149, 151, 157, 163, 167, 173, 179, 181, 191, 193, 197, 199, 211, 223, 227, 229, 233, 239, 241, 251, 257, 263, 269, 271, 277, 281, 283, 293, 307, 311]"

definition frac_bits :: "nat \<Rightarrow> nat \<Rightarrow> nat" where
  "frac_bits k p = (GREATEST r. r ^ k \<le> p * (2 ^ 32) ^ k) mod 2 ^ 32"

definition fips_K :: "nat \<Rightarrow> 32 word" where
  "fips_K t = of_nat (frac_bits 3 (primes64 ! t))"

definition Ch :: "32 word \<Rightarrow> 32 word \<Rightarrow> 32 word \<Rightarrow> 32 word" where
  "Ch x y z = (x AND y) XOR (NOT x AND z)"

definition Maj :: "32 word \<Rightarrow> 32 word \<Rightarrow> 32 word \<Rightarrow> 32 word" where
  "Maj x y z = (x AND y) XOR (x AND z) XOR (y AND z)"

definition Sigma0 :: "32 word \<Rightarrow> 32 word" where
  "Sigma0 x = word_rotr 2 x XOR word_rotr 13 x XOR word_rotr 22 x"

definition Sigma1 :: "32 word \<Rightarrow> 32 word" where
  "Sigma1 x = word_rotr 6 x XOR word_rotr 11 x XOR word_rotr 25 x"

definition sigma0 :: "32 word \<Rightarrow> 32 word" where
  "sigma0 x = word_rotr 7 x XOR word_rotr 18 x XOR drop_bit 3 x"

definition sigma1 :: "32 word \<Rightarrow> 32 word" where
  "sigma1 x = word_rotr 17 x XOR word_rotr 19 x XOR drop_bit 10 x"

definition be32 :: "byte list \<Rightarrow> 32 word" where
  "be32 p = of_nat (foldl (\<lambda>n b. 256 * n + unat b) 0 (take 4 p))"

fun fips_W :: "byte list \<Rightarrow> nat \<Rightarrow> 32 word" where
  "fips_W M t =
     (if t < 16 then be32 (drop (4 * t) M)
      else sigma1 (fips_W M (t - 2)) + fips_W M (t - 7) + sigma0 (fips_W M (t - 15)) + fips_W M (t - 16))"

declare fips_W.simps [simp del]

primrec fips_rounds :: "byte list \<Rightarrow> hash_regs \<Rightarrow> nat \<Rightarrow> hash_regs" where
  "fips_rounds M regs 0 = regs"
| "fips_rounds M regs (Suc t) =
     (case fips_rounds M regs t of (a, b, c, d, e, f, g, h) \<Rightarrow>
        let T1 = h + Sigma1 e + Ch e f g + fips_K t + fips_W M t; T2 = Sigma0 a + Maj a b c
        in (T1 + T2, a, b, c, d + T1, e, f, g))"

definition fips_compress :: "32 word list \<Rightarrow> byte list \<Rightarrow> 32 word list" where
  "fips_compress H M =
     (case fips_rounds M (H ! 0, H ! 1, H ! 2, H ! 3, H ! 4, H ! 5, H ! 6, H ! 7) 64 of (a, b, c, d, e, f, g, h) \<Rightarrow>
        [a + H ! 0, b + H ! 1, c + H ! 2, d + H ! 3, e + H ! 4, f + H ! 5, g + H ! 6, h + H ! 7])"

definition H0 :: "32 word list" where
  "H0 = map (\<lambda>p. of_nat (frac_bits 2 p)) (take 8 primes64)"

definition be64 :: "nat \<Rightarrow> byte list" where
  "be64 n = map (\<lambda>i. of_nat (n div 256 ^ (7 - i))) [0..<8]"

definition fips_pad :: "byte list \<Rightarrow> byte list" where
  "fips_pad m = m @ [0x80] @ replicate ((119 - length m mod 64) mod 64) 0 @ be64 (8 * length m)"

function fips_blocks :: "32 word list \<Rightarrow> byte list \<Rightarrow> 32 word list" where
  "fips_blocks H m = (if length m < 64 then H else fips_blocks (fips_compress H (take 64 m)) (drop 64 m))"
  by pat_completeness auto
termination
  by (relation "measure (\<lambda>(H, m). length m)") auto

declare fips_blocks.simps [simp del]

definition sha256_spec :: "byte list \<Rightarrow> byte list" where
  "sha256_spec m = concat (map (\<lambda>h. map (\<lambda>i. of_nat (unat h div 256 ^ (3 - i))) [0..<4]) (fips_blocks H0 (fips_pad m)))"

end
