(* ===== verification/Sha256Props.thy ===== *)
theory Sha256Props
  imports Sha256
begin

text \<open>
  The incremental hash computes the hash of the standard: first the word-level operations, then the compression, then
  the block buffer, and last the padding.
\<close>

section \<open>Words and bytes\<close>

lemma add_below_block: "a mod k + b < k \<Longrightarrow> (a + b) div k = a div k \<and> (a + b) mod k = a mod k + b" for a b k :: nat
proof -
  assume l: "a mod k + b < k"
  have eq: "a + b = (a mod k + b) + k * (a div k)" by simp
  have "(a + b) div k = a div k" by (subst eq, use l in \<open>subst div_mult_self2\<close>) (use l in auto)
  moreover have "(a + b) mod k = a mod k + b" by (subst eq, subst mod_mult_self2) (use l in simp)
  ultimately show ?thesis by simp
qed

lemma rotr32_word_rotr: 
  assumes n: "0 < n" "n < 32"
  shows "rotr32 x n = word_rotr n x"
proof (rule bit_eqI)
  fix k assume k: "possible_bit TYPE(32 word) k"
  then have k: "k < 32" by simp
  have l: "bit (rotr32 x n) k \<longleftrightarrow> bit x (n + k) \<or> (32 - n \<le> k \<and> bit x (k - (32 - n)))" using k by (simp add: rotr32_def bit_simps)
  have r: "bit (word_rotr n x) k \<longleftrightarrow> bit x ((k + n) mod 32)" using k by (simp add: bit_simps)
  show "bit (rotr32 x n) k = bit (word_rotr n x) k"
  proof (cases "k + n < 32")
    case True
    then have "\<not> 32 - n \<le> k" by simp
    then show ?thesis using l r True by (simp add: add.commute)
  next
    case False
    then have m: "(k + n) mod 32 = k - (32 - n)" "32 - n \<le> k" "\<not> bit x (n + k)" using k n by (simp_all add: mod_if) (auto dest: bit_imp_le_length)
    then show ?thesis using l r by simp
  qed
qed

lemma drop_four: "4 \<le> length p \<Longrightarrow> \<exists>a b c d r. p = a # b # c # d # r"
  by (cases p; cases "tl p"; cases "tl (tl p)"; cases "tl (tl (tl p))") auto

lemma or_disjoint: "(\<And>n. bit (a :: 32 word) n \<Longrightarrow> \<not> bit b n) \<Longrightarrow> a OR b = a + b"
  by (subst disjunctive_add) auto

lemma read_be32_be32: 
  assumes "4 \<le> length p"
  shows "read_be32 p = be32 p"
proof -
  obtain a b c d r where p: "p = a # b # c # d # r" using drop_four[OF assms] by blast
  have "read_be32 p = push_bit 24 (ucast a) + push_bit 16 (ucast b) + push_bit 8 (ucast c) + ucast d"
  proof -
    let ?cd = "push_bit 8 (ucast c) OR ucast d :: 32 word"
    have 1: "?cd = push_bit 8 (ucast c) + ucast d" by (rule or_disjoint) (auto simp: bit_simps dest: bit_imp_le_length)
    have 2: "push_bit 16 (ucast b) OR ?cd = push_bit 16 (ucast b) + ?cd" by (rule or_disjoint) (auto simp: bit_simps dest: bit_imp_le_length)
    have 3: "push_bit 24 (ucast a) OR (push_bit 16 (ucast b) OR ?cd) = push_bit 24 (ucast a) + (push_bit 16 (ucast b) OR ?cd)"
      by (rule or_disjoint) (auto simp: bit_simps dest: bit_imp_le_length)
    have "read_be32 p = push_bit 24 (ucast a) OR (push_bit 16 (ucast b) OR ?cd)" by (simp add: read_be32_def p or.assoc)
    then show ?thesis unfolding 3 unfolding 2 unfolding 1 by (simp only: add.assoc)
  qed
  also have "\<dots> = be32 p" by (simp add: be32_def p push_bit_eq_mult)
  finally show ?thesis .
qed

lemma ucast_shift: "ucast (drop_bit n (v :: 32 word)) = (of_nat (unat v div 2 ^ n) :: byte)"
  by (simp flip: drop_bit_eq_div unat_drop_bit_eq)

lemma write_be32_bytes: "write_be32 v = map (\<lambda>i. of_nat (unat v div 256 ^ (3 - i))) [0..<4]"
  using ucast_shift[of 0 v] ucast_shift[of 8 v] ucast_shift[of 16 v] ucast_shift[of 24 v]
  by (simp add: write_be32_def upt_rec)

lemma length_byte: 
  assumes i: "i < 8"
  shows "ucast (drop_bit (i * 8) (of_nat n :: 64 word)) = (of_nat (n div 256 ^ i) :: byte)"
proof (rule bit_eqI)
  fix k assume k: "possible_bit TYPE(8 word) k"
  have "(256 :: nat) ^ i = 2 ^ (i * 8)" by (simp add: power_mult mult.commute[of i])
  then have "n div 256 ^ i = drop_bit (i * 8) n" by (simp add: drop_bit_eq_div)
  then show "bit (ucast (drop_bit (i * 8) (of_nat n :: 64 word)) :: byte) k = bit (of_nat (n div 256 ^ i) :: byte) k"
    using i k by (simp add: bit_simps bit_of_nat_iff_bit add.commute)
qed

section \<open>The constants\<close>

lemma greatest_root:
  assumes "0 < k" "r ^ k \<le> (n :: nat)" "n < (r + 1) ^ k"
  shows "(GREATEST r. r ^ k \<le> n) = r"
proof (rule Greatest_equality)
  fix y assume "y ^ k \<le> n"
  then have "y ^ k < (r + 1) ^ k" using assms(3) by simp
  then show "y \<le> r" using power_less_imp_less_base by fastforce
qed (rule assms(2))

text \<open>The fractional bits of a root, checked with the integer part \<open>a\<close> of the root.\<close>

definition root_with :: "nat \<Rightarrow> int \<Rightarrow> int \<Rightarrow> int \<Rightarrow> bool" where
  "root_with k p w a \<longleftrightarrow> 0 \<le> a \<and> a ^ k \<le> p \<and> p < (a + 1) ^ k \<and>
     (a * 4294967296 + w) ^ k \<le> p * 4294967296 ^ k \<and> p * 4294967296 ^ k < (a * 4294967296 + w + 1) ^ k"

lemma frac_bits_root:
  assumes k: "0 < k" and r: "root_with k (int p) (uint w) a"
  shows "frac_bits k p = unat (w :: 32 word)"
proof -
  obtain b where a: "a = int b" using r by (metis root_with_def nonneg_int_cases)
  have "int ((b * 4294967296 + unat w) ^ k) \<le> int (p * 4294967296 ^ k)" "int (p * 4294967296 ^ k) < int ((b * 4294967296 + unat w + 1) ^ k)"
    using r by (simp_all add: root_with_def a ac_simps)
  then have "(GREATEST r. r ^ k \<le> p * 4294967296 ^ k) = b * 4294967296 + unat w"
    by (intro greatest_root[OF k]) (simp_all only: of_nat_le_iff of_nat_less_iff)
  then show ?thesis using unsigned_less[where w = w and ?'a = nat] by (simp add: frac_bits_def)
qed

lemma frac_bits_table:
  assumes "0 < k" "list_all2 (\<lambda>p w. \<exists>a \<in> set [1, 2, 3, 4, 5, 6]. root_with k (int p) (uint w) a) ps (ws :: 32 word list)"
  shows "map (\<lambda>p. of_nat (frac_bits k p)) ps = ws"
  using assms(2)
proof (induction rule: list_all2_induct)
  case (Cons p ps w ws)
  then obtain a where "root_with k (int p) (uint w) a" by blast
  then show ?case using Cons frac_bits_root[OF assms(1)] by simp
qed simp

lemma sha256_k_fips: "map (\<lambda>p. of_nat (frac_bits 3 p)) primes64 = sha256_k"
  by (rule frac_bits_table) (simp, code_simp)

lemma H0_init: "H0 = [0x6a09e667, 0xbb67ae85, 0x3c6ef372, 0xa54ff53a] @ [0x510e527f, 0x9b05688c, 0x1f83d9ab, 0x5be0cd19]"
  unfolding H0_def by (rule frac_bits_table) (simp, code_simp)

lemma sha256_k_nth: "t < 64 \<Longrightarrow> sha256_k ! t = fips_K t"
proof -
  have "length primes64 = 64" by (simp add: primes64_def)
  then show "t < 64 \<Longrightarrow> ?thesis" by (simp add: fips_K_def flip: sha256_k_fips)
qed

section \<open>The compression\<close>

lemma schedule_w_prefix:
  assumes "length blk = 64" "t \<le> 48"
  shows "fold extend_w [16..<16 + t] (map (\<lambda>i. read_be32 (drop (i * 4) blk)) [0..<16]) = map (fips_W blk) [0..<16 + t]"
  using assms(2)
proof (induction t)
  case 0
  have "read_be32 (drop (i * 4) blk) = fips_W blk i" if "i < 16" for i
    using that assms(1) read_be32_be32[of "drop (i * 4) blk"] by (simp add: fips_W.simps[of blk i] mult.commute)
  then show ?case by simp
next
  case (Suc t)
  have w: "fips_W blk (16 + t) = fips_W blk t + sigma0 (fips_W blk (t + 1)) + fips_W blk (t + 9) + sigma1 (fips_W blk (t + 14))"
    by (subst fips_W.simps) (simp add: ac_simps)
  have "extend_w (16 + t) (map (fips_W blk) [0..<16 + t]) = map (fips_W blk) [0..<16 + t] @ [fips_W blk (16 + t)]"
    unfolding w by (simp add: extend_w_def Let_def rotr32_word_rotr sigma0_def sigma1_def nth_append add.commute[of t] del: upt_Suc)
  moreover have "[16..<16 + Suc t] = [16..<16 + t] @ [16 + t]" "[0..<16 + Suc t] = [0..<16 + t] @ [16 + t]"
    unfolding add_Suc_right by (rule upt_Suc_append, simp)+
  ultimately show ?case using Suc by (simp only: fold_append map_append) simp
qed

lemma schedule_w_fips: "length blk = 64 \<Longrightarrow> schedule_w blk = map (fips_W blk) [0..<64]"
  using schedule_w_prefix[of blk 48] by (simp add: schedule_w_def)

lemma rounds_fips:
  assumes "length blk = 64" "t \<le> 64"
  shows "fold (sha256_round (schedule_w blk)) [0..<t] regs = fips_rounds blk regs t"
  using assms(2)
proof (induction t)
  case (Suc t)
  then have "schedule_w blk ! t = fips_W blk t" using assms(1) by (simp add: schedule_w_fips del: upt_Suc)
  then show ?case using Suc
    by (simp add: sha256_round_def rotr32_word_rotr Sigma0_def Sigma1_def Ch_def Maj_def Let_def sha256_k_nth split: prod.split)
qed simp

lemma transform_fips: "length blk = 64 \<Longrightarrow> sha256_transform H blk = fips_compress H blk"
  by (simp add: sha256_transform_def fips_compress_def rounds_fips add.commute split: prod.split)

lemma length_transform [simp]: "length (sha256_transform H blk) = 8"
  by (simp add: sha256_transform_def split: prod.split)

section \<open>The block buffer\<close>

text \<open>A context has taken in the message \<open>m\<close>: the whole blocks are hashed, the rest is in the buffer.\<close>

definition holds_msg :: "sha256_ctx \<Rightarrow> byte list \<Rightarrow> bool" where
  "holds_msg ctx m \<longleftrightarrow> hash_state ctx = fips_blocks H0 m \<and> length (block ctx) = 64 \<and> block_len ctx = length m mod 64 \<and>
     take (block_len ctx) (block ctx) = drop (64 * (length m div 64)) m \<and> bit_len ctx = of_nat (512 * (length m div 64))"

lemma fips_blocks_short [simp]: "length m < 64 \<Longrightarrow> fips_blocks H m = H"
  by (subst fips_blocks.simps) simp

lemma fips_blocks_append:
  "length m = 64 * n \<Longrightarrow> fips_blocks H (m @ r) = fips_blocks (fips_blocks H m) r"
proof (induction n arbitrary: H m)
  case (Suc n)
  have "fips_blocks H (m @ r) = fips_blocks (fips_compress H (take 64 m)) (drop 64 m @ r)"
    using Suc.prems by (subst fips_blocks.simps) simp
  also have "\<dots> = fips_blocks (fips_blocks (fips_compress H (take 64 m)) (drop 64 m)) r" using Suc by simp
  also have "fips_blocks (fips_compress H (take 64 m)) (drop 64 m) = fips_blocks H m"
    using Suc.prems by (subst (2) fips_blocks.simps) simp
  finally show ?case .
qed simp

lemma fips_blocks_one: "length b = 64 \<Longrightarrow> fips_blocks H b = fips_compress H b"
  by (subst fips_blocks.simps) simp

lemma fips_blocks_floor: "fips_blocks H m = fips_blocks H (take (64 * (length m div 64)) m)"
proof -
  let ?n = "64 * (length m div 64)"
  have "fips_blocks H (take ?n m @ drop ?n m) = fips_blocks (fips_blocks H (take ?n m)) (drop ?n m)"
    by (rule fips_blocks_append[of _ "length m div 64"]) simp
  moreover have "length (drop ?n m) < 64" using mod_less_divisor[of 64 "length m"] by (simp add: minus_mult_div_eq_mod)
  ultimately show ?thesis by simp
qed

lemma holds_empty: "length (block ctx) = 64 \<Longrightarrow> holds_msg (sha256_init ctx) []"
  by (simp add: holds_msg_def sha256_init_def H0_init)

lemma put_bytes_facts:
  assumes "i + length bs \<le> length blk"
  shows "length (put_bytes blk i bs) = length blk" "take (i + length bs) (put_bytes blk i bs) = take i blk @ bs"
  using assms by (simp_all add: put_bytes_def)

text \<open>One turn of the loop, with \<open>bs\<close> the bytes it copies.\<close>

lemma holds_partial:
  assumes h: "holds_msg ctx m" and l: "block_len ctx + length bs < 64"
  shows "holds_msg (ctx\<lparr>block := put_bytes (block ctx) (block_len ctx) bs, block_len := block_len ctx + length bs\<rparr>) (m @ bs)"
proof -
  let ?q = "length m div 64"
  have d: "(length m + length bs) div 64 = ?q" "(length m + length bs) mod 64 = length m mod 64 + length bs"
    using add_below_block[of "length m" 64 "length bs"] l h by (simp_all add: holds_msg_def)
  have "64 * ?q - length m = 0" by simp
  then have "fips_blocks H0 (m @ bs) = fips_blocks H0 m"
    using fips_blocks_floor[of H0 m] fips_blocks_floor[of H0 "m @ bs"] d by simp
  moreover have "take (length m mod 64) (block ctx) = drop (64 * ?q) m" using h by (metis holds_msg_def)
  ultimately show ?thesis using h l by (simp add: holds_msg_def d put_bytes_facts)
qed

lemma holds_full:
  assumes h: "holds_msg ctx m" and l: "block_len ctx + length bs = 64"
  shows "holds_msg (ctx\<lparr>block := put_bytes (block ctx) (block_len ctx) bs,
    hash_state := sha256_transform (hash_state ctx) (put_bytes (block ctx) (block_len ctx) bs), bit_len := bit_len ctx + 512, block_len := 0\<rparr>) (m @ bs)"
proof -
  let ?q = "length m div 64" and ?b = "put_bytes (block ctx) (block_len ctx) bs"
  have "length m mod 64 + length bs = 64" using h l by (simp add: holds_msg_def)
  moreover have "length m + length bs = 64 * ?q + (length m mod 64 + length bs)" by simp
  ultimately have d: "length m + length bs = 64 * (?q + 1)" by simp
  have b: "?b = drop (64 * ?q) m @ bs" "length ?b = 64" 
    using put_bytes_facts[of "block_len ctx" bs "block ctx"] l h by (auto simp: holds_msg_def)
  have "m @ bs = take (64 * ?q) m @ ?b" by (simp add: b(1))
  then have "fips_blocks H0 (m @ bs) = fips_blocks (fips_blocks H0 (take (64 * ?q) m)) ?b" by (simp add: fips_blocks_append[of _ ?q])
  also have "\<dots> = sha256_transform (hash_state ctx) ?b"
    using h b(2) by (simp add: fips_blocks_one transform_fips holds_msg_def flip: fips_blocks_floor)
  finally show ?thesis using h b(2) d by (simp add: holds_msg_def)
qed

lemma absorb_step:
  assumes h: "holds_msg ctx m" and p: "p \<noteq> []"
  obtains ctx' bs r where "p = bs @ r" "bs \<noteq> []" "absorb ctx p = absorb ctx' r" "holds_msg ctx' (m @ bs)"
proof -
  let ?n = "min (64 - block_len ctx) (length p)"
  let ?b = "put_bytes (block ctx) (block_len ctx) (take ?n p)"
  define ctx' where "ctx' = (if block_len ctx + ?n = 64
     then ctx\<lparr>block := ?b, hash_state := sha256_transform (hash_state ctx) ?b, bit_len := bit_len ctx + 512, block_len := 0\<rparr>
     else ctx\<lparr>block := ?b, block_len := block_len ctx + ?n\<rparr>)"
  have lt: "block_len ctx < 64" using h by (simp add: holds_msg_def)
  have n: "length (take ?n p) = ?n" by simp
  have "holds_msg ctx' (m @ take ?n p)"
  proof (cases "block_len ctx + ?n = 64")
    case True
    then show ?thesis using holds_full[OF h, of "take ?n p"] unfolding n ctx'_def by simp
  next
    case False
    then have "block_len ctx + ?n < 64" using lt by linarith
    then show ?thesis using holds_partial[OF h, of "take ?n p"] False unfolding n ctx'_def by simp
  qed
  moreover have "absorb ctx p = absorb ctx' (drop ?n p)"
    using p lt unfolding ctx'_def by (subst absorb.simps) (simp add: Let_def)
  moreover have "take ?n p \<noteq> []" using p lt by simp
  ultimately show thesis using that[of "take ?n p" "drop ?n p" ctx'] by simp
qed

lemma absorb_holds: "holds_msg ctx m \<Longrightarrow> \<exists>ctx'. absorb ctx p = Some ctx' \<and> holds_msg ctx' (m @ p)"
proof (induction "length p" arbitrary: ctx p m rule: less_induct)
  case less
  show ?case
  proof (cases "p = []")
    case False
    then obtain ctx' bs r where "p = bs @ r" "bs \<noteq> []" "absorb ctx p = absorb ctx' r" "holds_msg ctx' (m @ bs)"
      by (rule absorb_step[OF less.prems])
    then show ?thesis using less.hyps[of r ctx' "m @ bs"] by simp
  qed (use less.prems in \<open>simp add: absorb.simps\<close>)
qed

section \<open>Padding\<close>

lemma zero_fill_block:
  assumes "block_len ctx \<le> n" "n \<le> length (block ctx)"
  shows "zero_fill n ctx = ctx\<lparr>block := take (block_len ctx) (block ctx) @ replicate (n - block_len ctx) 0 @ drop n (block ctx), block_len := n\<rparr>"
  using assms
proof (induction n ctx rule: zero_fill.induct)
  case (1 n ctx)
  let ?l = "block_len ctx" and ?b = "block ctx"
  show ?case
  proof (cases "?l < n")
    case True
    have r: "replicate (n - ?l) (0 :: byte) = 0 # replicate (n - Suc ?l) 0" using True by (simp flip: replicate_Suc add: Suc_diff_Suc)
    have t: "take (Suc ?l) (?b[?l := 0]) = take ?l ?b @ [0]" using True "1.prems" by (simp add: take_Suc_conv_app_nth)
    have "zero_fill n ctx = zero_fill n (ctx\<lparr>block := ?b[?l := 0], block_len := ?l + 1\<rparr>)" using True by (subst zero_fill.simps) simp
    then show ?thesis using "1.IH"[OF True] True "1.prems" r t by simp
  qed (use "1.prems" in \<open>subst zero_fill.simps, simp\<close>)
qed

lemma put_length_block:
  assumes "length blk = 64"
  shows "put_length (of_nat n) blk = take 56 blk @ be64 n"
proof -
  let ?v = "\<lambda>i. of_nat (n div 256 ^ i) :: byte"
  have "put_length (of_nat n) blk = fold (\<lambda>i b. b[63 - i := ?v i]) [0..<8] blk"
    unfolding put_length_def by (rule fold_cong) (simp_all add: length_byte)
  also have "\<dots> = take 56 blk @ be64 n"
    using assms by (intro nth_equalityI) (auto simp: be64_def upt_rec nth_append nth_list_update)
  finally show ?thesis .
qed

lemma last_block:
  assumes "block_len c \<le> 56" "length (block c) = 64"
  shows "hash_state (zero_fill 56 c) = hash_state c"
    "put_length (of_nat n) (block (zero_fill 56 c)) = take (block_len c) (block c) @ replicate (56 - block_len c) 0 @ be64 n"
  using assms by (simp_all add: zero_fill_block put_length_block)

lemma digest_words: "length st = 8 \<Longrightarrow> map (\<lambda>i. write_be32 (st ! i)) [0..<8] = map write_be32 st"
  by (metis (no_types, lifting) map_nth map_map comp_def map_cong)

lemma final_digest:
  assumes "\<not> block_len ctx \<ge> 64"
    and c1: "c1 = ctx\<lparr>block := (block ctx)[block_len ctx := 0x80], block_len := block_len ctx + 1\<rparr>"
    and c2: "c2 = (if block_len c1 > 56 then let c = zero_fill 64 c1 in c\<lparr>hash_state := sha256_transform (hash_state c) (block c), block_len := 0\<rparr> else c1)"
    and n: "bit_len ctx + of_nat (block_len ctx) * 8 = of_nat n" and b: "length (block c2) = 64" "block_len c2 \<le> 56"
  shows "\<exists>ctx'. sha256_final ctx = Some (concat (map write_be32
    (sha256_transform (hash_state c2) (take (block_len c2) (block c2) @ replicate (56 - block_len c2) 0 @ be64 n))), ctx')"
proof -
  let ?c3 = "zero_fill 56 c2"
  let ?c4 = "?c3\<lparr>block := put_length (of_nat n) (block ?c3)\<rparr>"
  let ?st = "sha256_transform (hash_state ?c4) (block ?c4)"
  have "sha256_final ctx = Some (concat (map (\<lambda>i. write_be32 (?st ! i)) [0..<8]), ?c4\<lparr>hash_state := ?st\<rparr>)"
    unfolding sha256_final_def Let_def n c2 c1 using assms(1) by simp
  then show ?thesis using last_block(1)[OF b(2,1)] last_block(2)[OF b(2,1), of n] by (simp add: digest_words)
qed

text \<open>The last block or two are those of the padded message.\<close>

lemma final_blocks:
  assumes h: "holds_msg ctx m"
  shows "\<exists>ctx'. sha256_final ctx = Some (concat (map write_be32 (fips_blocks H0 (fips_pad m))), ctx')"
proof -
  let ?q = "length m div 64" and ?l = "block_len ctx"
  define tl where "tl = drop (64 * ?q) m"
  have l: "?l < 64" "?l = length m mod 64" "length tl = ?l" "take ?l (block ctx) = tl" "length (block ctx) = 64"
    using h by (auto simp: holds_msg_def tl_def minus_mult_div_eq_mod)
  have bits: "bit_len ctx + of_nat ?l * 8 = of_nat (8 * length m)"
  proof -
    have "8 * length m = 512 * ?q + ?l * 8" using div_mult_mod_eq[of "length m" 64] unfolding l(2) by linarith
    then show ?thesis using h by (simp only: holds_msg_def of_nat_add of_nat_mult) simp
  qed
  have st: "fips_blocks H0 (fips_pad m) = fips_blocks (hash_state ctx) (tl @ [0x80] @ replicate ((119 - ?l) mod 64) 0 @ be64 (8 * length m))"
  proof -
    have "fips_pad m = take (64 * ?q) m @ tl @ [0x80] @ replicate ((119 - ?l) mod 64) 0 @ be64 (8 * length m)"
      by (simp add: fips_pad_def tl_def l(2))
    then show ?thesis using h by (simp add: fips_blocks_append[of _ ?q] holds_msg_def flip: fips_blocks_floor)
  qed
  have blk: "take (Suc ?l) ((block ctx)[?l := 0x80]) = tl @ [0x80]" using l by (simp add: take_Suc_conv_app_nth)
  have be: "length (be64 n) = 8" for n by (simp add: be64_def)
  show ?thesis
  proof (cases "?l < 56")
    case True
    let ?b = "tl @ [0x80] @ replicate (55 - ?l) 0 @ be64 (8 * length m)"
    have "(119 - ?l) mod 64 = 55 - ?l" using True by (simp add: mod_if)
    then have "fips_blocks H0 (fips_pad m) = sha256_transform (hash_state ctx) ?b"
      using st True l by (simp add: transform_fips fips_blocks_one be)
    moreover have "length ((block ctx)[?l := 0x80]) = 64" by (simp add: l(5))
    ultimately show ?thesis using True l blk final_digest[OF _ refl refl bits] by simp
  next
    case False
    let ?b1 = "tl @ [0x80] @ replicate (63 - ?l) 0" and ?b2 = "replicate 56 0 @ be64 (8 * length m)"
    have "(119 - ?l) mod 64 = (63 - ?l) + 56" using False l(1) by (simp add: mod_if)
    then have "tl @ [0x80] @ replicate ((119 - ?l) mod 64) 0 @ be64 (8 * length m) = ?b1 @ ?b2" by (simp only: replicate_add append_assoc)
    then have "fips_blocks H0 (fips_pad m) = fips_blocks (hash_state ctx) (?b1 @ ?b2)" unfolding st by (rule arg_cong)
    also have "\<dots> = fips_blocks (fips_blocks (hash_state ctx) ?b1) ?b2" by (rule fips_blocks_append[of _ 1]) (use l in simp)
    also have "\<dots> = sha256_transform (sha256_transform (hash_state ctx) ?b1) ?b2" 
      using l by (simp add: transform_fips fips_blocks_one be)
    finally have "fips_blocks H0 (fips_pad m) = sha256_transform (sha256_transform (hash_state ctx) ?b1) ?b2" .
    moreover have "length ((block ctx)[?l := 0x80]) = 64" by (simp add: l(5))
    ultimately show ?thesis using False l blk final_digest[OF _ refl refl bits] by (simp add: zero_fill_block Let_def)
  qed
qed

section \<open>The incremental hash\<close>

text \<open>A caller's sequence of updates.\<close>

primrec update_all :: "(byte list option \<times> nat) list \<Rightarrow> sha256_ctx \<Rightarrow> sha256_ctx option" where
  "update_all [] ctx = Some ctx"
| "update_all (c # cs) ctx = do { ctx' \<leftarrow> sha256_update (fst c) (snd c) ctx; update_all cs ctx' }"

definition chunk_bytes :: "byte list option \<times> nat \<Rightarrow> byte list" where
  "chunk_bytes c = (case fst c of None \<Rightarrow> [] | Some p \<Rightarrow> take (snd c) p)"

lemma update_all_holds: "holds_msg ctx m \<Longrightarrow> \<exists>ctx'. update_all cs ctx = Some ctx' \<and> holds_msg ctx' (m @ concat (map chunk_bytes cs))"
proof (induction cs arbitrary: ctx m)
  case (Cons c cs)
  obtain ctx' where u: "sha256_update (fst c) (snd c) ctx = Some ctx'" "holds_msg ctx' (m @ chunk_bytes c)"
    using absorb_holds[OF Cons.prems, of "take (snd c) (the (fst c))"] Cons.prems
    by (cases "fst c") (auto simp: sha256_update_def chunk_bytes_def)
  then show ?case using Cons.IH[OF u(2)] by simp
qed simp

text \<open>C36: whatever the context held before, and however a message is cut into pieces, initialising, feeding the pieces in
  turn and finishing never writes outside the block buffer and yields the SHA-256 digest FIPS 180-4 defines for the
  whole message.\<close>

theorem sha256_matches_standard:
  assumes "length (block ctx) = 64"
  shows "\<exists>ctx' ctx''. update_all cs (sha256_init ctx) = Some ctx' \<and>
    sha256_final ctx' = Some (sha256_spec (concat (map chunk_bytes cs)), ctx'')"
proof -
  obtain ctx' where u: "update_all cs (sha256_init ctx) = Some ctx'" "holds_msg ctx' (concat (map chunk_bytes cs))"
    using update_all_holds[OF holds_empty[OF assms], of cs] by auto
  moreover have "write_be32 = (\<lambda>h. map (\<lambda>i. of_nat (unat h div 256 ^ (3 - i))) [0..<4])" by (rule ext) (rule write_be32_bytes)
  ultimately show ?thesis using final_blocks[OF u(2)] by (simp only: sha256_spec_def) blast
qed

theorem sha256_matches_standard_witness:
  "\<exists>ctx' ctx''. update_all [(Some [0x61, 0x62], 2), (None, 0), (Some [0x63, 0], 1)]
      (sha256_init \<lparr>bit_len = 7, hash_state = [], block = replicate 64 1, block_len = 99\<rparr>) = Some ctx' \<and>
    sha256_final ctx' = Some (sha256_spec [0x61, 0x62, 0x63], ctx'')"
  using sha256_matches_standard[of "\<lparr>bit_len = 7, hash_state = [], block = replicate 64 1, block_len = 99\<rparr>"
      "[(Some [0x61, 0x62], 2), (None, 0), (Some [0x63, 0], 1)]"] by (simp add: chunk_bytes_def)

end
