(* ===== verification/Kprintf.thy ===== *)
theory Kprintf
  imports Prelude
begin

text \<open>
  Formatted output, \<open>kernel/src/kprintf.c\<close>: the format parser \<open>fmt_vprintf\<close>, its helpers, and the two back ends that
  receive the characters, the serial port and a bounded memory buffer.

  Memory is a list of characters and a buffer is an offset into it, so a write past the end of the caller's buffer would
  show in the bytes behind it.  Strings and format strings are character lists without the closing NUL.  The variable
  arguments are a list of machine words, strings and floating-point values; taking an argument that is missing or of another sort is
  undefined in C and \<open>None\<close> here, and so is a field width beyond \<open>INT_MAX\<close>.  The characters of a
  floating-point conversion come from \<open>kprintf_float.c\<close> and are the parameter \<open>fl\<close>.  The lock of the serial port is
  not modelled.
\<close>

section \<open>Output\<close>

datatype putc_fn = UART_OUT | BUF_OUT

record fmt_output =
  putc_kind :: putc_fn
  o_mem :: "char list"
  o_buf :: nat
  o_pos :: nat
  o_size :: nat
  o_count :: "32 word"
  o_crlf :: bool
  o_uart :: "char list"

definition uart_out_putc :: "char \<Rightarrow> fmt_output \<Rightarrow> fmt_output" where
  "uart_out_putc c out = out\<lparr>o_uart := o_uart out @ [c], o_count := o_count out + 1\<rparr>"

definition buf_out_putc :: "char \<Rightarrow> fmt_output \<Rightarrow> fmt_output" where
  "buf_out_putc c out0 =
     (let out = out0\<lparr>o_count := o_count out0 + 1\<rparr>
      in if o_pos out > 1
         then out\<lparr>o_mem := (o_mem out)[o_buf out := c], o_buf := o_buf out + 1, o_pos := o_pos out - 1\<rparr> else out)"

definition out_putc :: "char \<Rightarrow> fmt_output \<Rightarrow> fmt_output" where
  "out_putc c out = (case putc_kind out of UART_OUT \<Rightarrow> uart_out_putc c out | BUF_OUT \<Rightarrow> buf_out_putc c out)"

definition fmt_output_uart :: "char list \<Rightarrow> fmt_output" where
  "fmt_output_uart uart = \<lparr>putc_kind = UART_OUT, o_mem = [], o_buf = 0, o_pos = 0, o_size = 0, o_count = 0, o_crlf = True, o_uart = uart\<rparr>"

definition fmt_output_buf :: "char list \<Rightarrow> nat \<Rightarrow> nat \<Rightarrow> fmt_output" where
  "fmt_output_buf mem buf sz =
     \<lparr>putc_kind = BUF_OUT, o_mem = mem, o_buf = buf, o_pos = sz, o_size = sz, o_count = 0, o_crlf = False, o_uart = []\<rparr>"

abbreviation CR :: char where "CR \<equiv> CHR 0x0D"
abbreviation NL :: char where "NL \<equiv> CHR 0x0A"
abbreviation NUL :: char where "NUL \<equiv> CHR 0x00"

primrec uart_puts_unlocked :: "string \<Rightarrow> char list \<Rightarrow> char list" where
  "uart_puts_unlocked [] uart = uart"
| "uart_puts_unlocked (c # s) uart = uart_puts_unlocked s ((if c = NL then uart @ [CR] else uart) @ [c])"

definition uart_puts :: "string \<Rightarrow> char list \<Rightarrow> char list" where
  "uart_puts s uart = uart_puts_unlocked s uart"

section \<open>Conversions\<close>

primrec fmt_padding :: "char \<Rightarrow> nat \<Rightarrow> fmt_output \<Rightarrow> fmt_output" where
  "fmt_padding c 0 out = out"
| "fmt_padding c (Suc n) out = fmt_padding c n (out_putc c out)"

definition fmt_char_width :: "char \<Rightarrow> nat \<Rightarrow> bool \<Rightarrow> fmt_output \<Rightarrow> fmt_output" where
  "fmt_char_width c width left out =
     (let pad = (if width > 1 then width - 1 else 0);
          out1 = (if \<not> left \<and> pad > 0 then fmt_padding CHR '' '' pad out else out);
          out2 = out_putc c out1
      in if left \<and> pad > 0 then fmt_padding CHR '' '' pad out2 else out2)"

primrec fmt_text :: "string \<Rightarrow> fmt_output \<Rightarrow> fmt_output" where
  "fmt_text [] out = out"
| "fmt_text (c # s) out = fmt_text s (out_putc c (if o_crlf out \<and> c = NL then out_putc CR out else out))"

text \<open>The precision is \<open>None\<close> where the C code has -1.\<close>

definition fmt_string_width :: "string \<Rightarrow> nat \<Rightarrow> nat option \<Rightarrow> bool \<Rightarrow> fmt_output \<Rightarrow> fmt_output" where
  "fmt_string_width s width precision left out =
     (let len = (case precision of Some p \<Rightarrow> min p (length s) | None \<Rightarrow> length s);
          pad = (if width > len then width - len else 0);
          out1 = (if \<not> left \<and> pad > 0 then fmt_padding CHR '' '' pad out else out);
          out2 = fmt_text (take len s) out1
      in if left \<and> pad > 0 then fmt_padding CHR '' '' pad out2 else out2)"

definition digit_char :: "bool \<Rightarrow> nat \<Rightarrow> char" where
  "digit_char uppercase d = (if uppercase then ''0123456789ABCDEF'' else ''0123456789abcdef'') ! d"

text \<open>The digits are written backwards from the end of a 24-byte buffer and then moved to its start; the callers pass base 10 or 16.\<close>

fun fmt_digits :: "nat \<Rightarrow> nat \<Rightarrow> bool \<Rightarrow> string \<Rightarrow> string" where
  "fmt_digits value base uppercase acc =
     (if value = 0 \<or> base < 2 then acc else fmt_digits (value div base) base uppercase (digit_char uppercase (value mod base) # acc))"

declare fmt_digits.simps [simp del]

definition fmt_format_unsigned :: "nat \<Rightarrow> nat \<Rightarrow> bool \<Rightarrow> string" where
  "fmt_format_unsigned value base uppercase = (if value = 0 then ''0'' else fmt_digits value base uppercase [])"

primrec fmt_puts_raw :: "string \<Rightarrow> fmt_output \<Rightarrow> fmt_output" where
  "fmt_puts_raw [] out = out"
| "fmt_puts_raw (c # s) out = fmt_puts_raw s (out_putc c out)"

definition fmt_unsigned_width :: "nat \<Rightarrow> nat \<Rightarrow> bool \<Rightarrow> nat \<Rightarrow> bool \<Rightarrow> bool \<Rightarrow> fmt_output \<Rightarrow> fmt_output" where
  "fmt_unsigned_width value base uppercase width left zero_pad out =
     (let buf = fmt_format_unsigned value base uppercase;
          pad = (if width > length buf then width - length buf else 0);
          out1 = (if \<not> left \<and> pad > 0 then fmt_padding (if zero_pad then CHR ''0'' else CHR '' '') pad out else out);
          out2 = fmt_puts_raw buf out1
      in if left \<and> pad > 0 then fmt_padding CHR '' '' pad out2 else out2)"

text \<open>A 32-bit argument arrives sign-extended to the 64-bit value.\<close>

definition fmt_signed_width :: "64 word \<Rightarrow> nat \<Rightarrow> nat \<Rightarrow> bool \<Rightarrow> bool \<Rightarrow> fmt_output \<Rightarrow> fmt_output" where
  "fmt_signed_width value base width left zero_pad out =
     (let negative = sint value < 0;
          abs_val = (if negative then unat (- value) else unat value);
          buf = fmt_format_unsigned abs_val base False;
          total_len = length buf + (if negative then 1 else 0);
          pad = (if width > total_len then width - total_len else 0);
          minus = (\<lambda>o1. if negative then out_putc CHR ''-'' o1 else o1);
          out1 = (if \<not> left
                  then (if zero_pad then fmt_padding CHR ''0'' pad (minus out) else minus (fmt_padding CHR '' '' pad out))
                  else minus out);
          out2 = fmt_puts_raw buf out1
      in if left \<and> pad > 0 then fmt_padding CHR '' '' pad out2 else out2)"

section \<open>The format parser\<close>

text \<open>The text of a floating-point conversion: precision, specifier, width, left-justification, zero-padding, value.\<close>

type_synonym float_fmt = "nat option \<Rightarrow> char \<Rightarrow> nat \<Rightarrow> bool \<Rightarrow> bool \<Rightarrow> 64 word \<Rightarrow> string"

datatype vararg = VWord "64 word" | VStr "string option" | VFloat "64 word"

fun va_word :: "vararg list \<Rightarrow> (64 word \<times> vararg list) option" where
  "va_word (VWord w # args) = Some (w, args)"
| "va_word _ = None"

fun va_str :: "vararg list \<Rightarrow> (string option \<times> vararg list) option" where
  "va_str (VStr s # args) = Some (s, args)"
| "va_str _ = None"

fun va_float :: "vararg list \<Rightarrow> (64 word \<times> vararg list) option" where
  "va_float (VFloat d # args) = Some (d, args)"
| "va_float _ = None"

fun parse_flags :: "bool \<Rightarrow> bool \<Rightarrow> string \<Rightarrow> bool \<times> bool \<times> string" where
  "parse_flags left zero (c # fmt) =
     (if c = CHR ''-'' then parse_flags True zero fmt
      else if c = CHR ''0'' then parse_flags left True fmt
      else (left, zero, c # fmt))"
| "parse_flags left zero [] = (left, zero, [])"

definition is_digit :: "char \<Rightarrow> bool" where
  "is_digit c \<longleftrightarrow> (48 :: nat) \<le> of_char c \<and> of_char c \<le> (57 :: nat)"

abbreviation INT_MAX :: nat where "INT_MAX \<equiv> 2147483647"

fun parse_num :: "nat \<Rightarrow> string \<Rightarrow> (nat \<times> string) option" where
  "parse_num n (c # fmt) =
     (if is_digit c
      then (let n' = n * 10 + (of_char c - 48) in if n' > INT_MAX then None else parse_num n' fmt)
      else Some (n, c # fmt))"
| "parse_num n [] = Some (n, [])"

definition parse_precision :: "string \<Rightarrow> vararg list \<Rightarrow> (nat option \<times> string \<times> vararg list) option" where
  "parse_precision fmt args =
     (case fmt of
        c # f1 \<Rightarrow>
          if c = CHR ''.''
          then (case f1 of
                  d # f2 \<Rightarrow>
                    if d = CHR ''*''
                    then do {
                      (w, args') \<leftarrow> va_word args;
                      let p = sint (ucast w :: 32 word);
                      Some (if p < 0 then None else Some (nat p), f2, args')
                    }
                    else do { (n, f3) \<leftarrow> parse_num 0 f1; Some (Some n, f3, args) }
                | [] \<Rightarrow> Some (Some 0, [], args))
          else Some (None, fmt, args)
      | [] \<Rightarrow> Some (None, [], args))"

definition parse_length :: "string \<Rightarrow> bool \<times> string" where
  "parse_length fmt =
     (case fmt of
        c # f1 \<Rightarrow>
          if c = CHR ''l'' then (True, case f1 of d # f2 \<Rightarrow> if d = CHR ''l'' then f2 else f1 | [] \<Rightarrow> [])
          else if c = CHR ''z'' then (True, f1)
          else (False, fmt)
      | [] \<Rightarrow> (False, []))"

text \<open>The conversion a specifier stands for: the characters go to the output and the argument is used up.\<close>

definition unsigned_arg :: "bool \<Rightarrow> 64 word \<Rightarrow> nat" where
  "unsigned_arg is64 w = (if is64 then unat w else unat (ucast w :: 32 word))"

definition fmt_spec :: "float_fmt \<Rightarrow> char \<Rightarrow> bool \<Rightarrow> bool \<Rightarrow> nat \<Rightarrow> nat option \<Rightarrow> bool \<Rightarrow>
    vararg list \<Rightarrow> fmt_output \<Rightarrow> (fmt_output \<times> vararg list) option" where
  "fmt_spec fl c left zero_pad width precision is64 args out =
     (if c = CHR ''c'' then do {
        (w, args') \<leftarrow> va_word args;
        Some (fmt_char_width (char_of (unat w mod 256)) width left out, args')
      }
      else if c = CHR ''s'' then do {
        (s, args') \<leftarrow> va_str args;
        Some (fmt_string_width (case s of None \<Rightarrow> ''(null)'' | Some t \<Rightarrow> t) width precision left out, args')
      }
      else if c = CHR ''d'' \<or> c = CHR ''i'' then do {
        (w, args') \<leftarrow> va_word args;
        Some (fmt_signed_width (if is64 then w else scast (ucast w :: 32 word)) 10 width left zero_pad out, args')
      }
      else if c = CHR ''u'' then do {
        (w, args') \<leftarrow> va_word args;
        Some (fmt_unsigned_width (unsigned_arg is64 w) 10 False width left zero_pad out, args')
      }
      else if c = CHR ''x'' then do {
        (w, args') \<leftarrow> va_word args;
        Some (fmt_unsigned_width (unsigned_arg is64 w) 16 False width left zero_pad out, args')
      }
      else if c = CHR ''X'' then do {
        (w, args') \<leftarrow> va_word args;
        Some (fmt_unsigned_width (unsigned_arg is64 w) 16 True width left zero_pad out, args')
      }
      else if c = CHR ''p'' then do {
        (w, args') \<leftarrow> va_word args;
        Some (fmt_unsigned_width (unat w) 16 False (if width > 2 then width - 2 else 0) left zero_pad
                (out_putc CHR ''x'' (out_putc CHR ''0'' out)), args')
      }
      else if c \<in> set ''fFeEgG'' then do {
        (d, args') \<leftarrow> va_float args;
        Some (fmt_puts_raw (fl precision c width left zero_pad d) out, args')
      }
      else if c = CHR ''%'' then Some (out_putc CHR ''%'' out, args)
      else Some (out_putc c (out_putc CHR ''%'' out), args))"

text \<open>What stands between the percent sign and the specifier.\<close>

definition parse_spec :: "string \<Rightarrow> vararg list \<Rightarrow> ((bool \<times> bool \<times> nat \<times> nat option \<times> bool) \<times> string \<times> vararg list) option" where
  "parse_spec fmt args =
     (case parse_flags False False fmt of (left, zero, f1) \<Rightarrow> do {
        (width, f2) \<leftarrow> parse_num 0 f1;
        (precision, f3, args') \<leftarrow> parse_precision f2 args;
        let (is64, f4) = parse_length f3;
        Some ((left, zero \<and> \<not> left, width, precision, is64), f4, args')
      })"

lemma parse_flags_length: "parse_flags l z fmt = (l', z', f) \<Longrightarrow> length f \<le> length fmt"
  by (induction l z fmt rule: parse_flags.induct) (auto split: if_splits)

lemma parse_num_length: "parse_num n fmt = Some (n', f) \<Longrightarrow> length f \<le> length fmt"
  by (induction n fmt rule: parse_num.induct) (auto simp: Let_def split: if_splits)

lemma parse_precision_length: "parse_precision fmt args = Some (p, f, args') \<Longrightarrow> length f \<le> length fmt"
  by (auto simp: parse_precision_def Let_def bind_eq_Some_conv split: list.splits if_splits dest!: parse_num_length)

lemma parse_length_length: "parse_length fmt = (b, f) \<Longrightarrow> length f \<le> length fmt"
  by (auto simp: parse_length_def split: list.splits if_splits)

lemma parse_spec_length: "parse_spec fmt args = Some (opts, f, args') \<Longrightarrow> length f \<le> length fmt"
proof -
  assume s: "parse_spec fmt args = Some (opts, f, args')"
  obtain left zero f1 where 1: "parse_flags False False fmt = (left, zero, f1)" by (cases "parse_flags False False fmt")
  obtain w f2 where 2: "parse_num 0 f1 = Some (w, f2)" using s by (auto simp: parse_spec_def 1 bind_eq_Some_conv)
  obtain p f3 a3 where 3: "parse_precision f2 args = Some (p, f3, a3)" using s by (auto simp: parse_spec_def 1 2 bind_eq_Some_conv)
  obtain b f4 where 4: "parse_length f3 = (b, f4)" by (cases "parse_length f3")
  show ?thesis using s parse_flags_length[OF 1] parse_num_length[OF 2] parse_precision_length[OF 3] parse_length_length[OF 4]
    by (simp add: parse_spec_def 1 2 3 4)
qed

function fmt_vprintf :: "float_fmt \<Rightarrow> string \<Rightarrow> vararg list \<Rightarrow>
    fmt_output \<Rightarrow> fmt_output option" where
  "fmt_vprintf fl [] args out = Some out"
| "fmt_vprintf fl (c # fmt) args out =
     (if c \<noteq> CHR ''%''
      then fmt_vprintf fl fmt args (out_putc c (if o_crlf out \<and> c = NL then out_putc CR out else out))
      else (case parse_spec fmt args of
              None \<Rightarrow> None
            | Some (_, [], _) \<Rightarrow> Some out
            | Some ((left, zero_pad, width, precision, is64), spec # fmt', args') \<Rightarrow>
                (case fmt_spec fl spec left zero_pad width precision is64 args' out of
                   None \<Rightarrow> None
                 | Some (out', args'') \<Rightarrow> fmt_vprintf fl fmt' args'' out')))"
  by pat_completeness auto
termination
  by (relation "measure (\<lambda>(fl, fmt, args, out). length fmt)") (auto dest!: parse_spec_length)

section \<open>Public functions\<close>

definition uart_vprintf :: "float_fmt \<Rightarrow> string \<Rightarrow> vararg list \<Rightarrow>
    char list \<Rightarrow> (int \<times> char list) option" where
  "uart_vprintf fl fmt args uart = do {
     out \<leftarrow> fmt_vprintf fl fmt args (fmt_output_uart uart);
     Some (sint (o_count out), o_uart out)
   }"

definition uart_vsnprintf :: "float_fmt \<Rightarrow> nat option \<Rightarrow> nat \<Rightarrow> string \<Rightarrow> vararg list \<Rightarrow>
    char list \<Rightarrow> (int \<times> char list) option" where
  "uart_vsnprintf fl buf sz fmt args mem =
     (if buf = None \<or> sz = 0 then Some (-1, mem)
      else do {
        out \<leftarrow> fmt_vprintf fl fmt args (fmt_output_buf mem (the buf) sz);
        let mem' = (if o_pos out > 0 then (o_mem out)[o_buf out := NUL] else (o_mem out)[the buf + sz - 1 := NUL]);
        Some (if sint (o_count out) < 0 then int INT_MAX else sint (o_count out), mem')
      })"

definition uart_snprintf :: "float_fmt \<Rightarrow> nat option \<Rightarrow> nat \<Rightarrow> string \<Rightarrow> vararg list \<Rightarrow>
    char list \<Rightarrow> (int \<times> char list) option" where
  "uart_snprintf fl buf sz fmt args mem = uart_vsnprintf fl buf sz fmt args mem"

definition uart_printf_unlocked :: "float_fmt \<Rightarrow> string \<Rightarrow> vararg list \<Rightarrow>
    char list \<Rightarrow> (int \<times> char list) option" where
  "uart_printf_unlocked fl fmt args uart = uart_vprintf fl fmt args uart"

definition uart_printf :: "float_fmt \<Rightarrow> string \<Rightarrow> vararg list \<Rightarrow>
    char list \<Rightarrow> (int \<times> char list) option" where
  "uart_printf fl fmt args uart = uart_vprintf fl fmt args uart"

end
