(* ===== verification/KprintfProps.thy ===== *)
theory KprintfProps
  imports Kprintf
begin

text \<open>
  Formatting as text: what a format string and its arguments mean, as a list of characters, and the proof that the
  parser and its helpers send exactly these characters to their back end.  On top of it, the contract of the bounded
  buffer functions and of the decimal and hexadecimal digits.
\<close>

section \<open>The text of a format\<close>

definition crlf_text :: "bool \<Rightarrow> string \<Rightarrow> string" where
  "crlf_text crlf s = concat (map (\<lambda>c. if crlf \<and> c = NL then [CR, c] else [c]) s)"

definition justify :: "bool \<Rightarrow> char \<Rightarrow> nat \<Rightarrow> string \<Rightarrow> string" where
  "justify left pad n s = (if left then s @ replicate n CHR '' '' else replicate n pad @ s)"

definition string_text :: "bool \<Rightarrow> nat \<Rightarrow> nat option \<Rightarrow> bool \<Rightarrow> string \<Rightarrow> string" where
  "string_text crlf width precision left s =
     (let t = (case precision of None \<Rightarrow> s | Some p \<Rightarrow> take p s) in justify left CHR '' '' (width - length t) (crlf_text crlf t))"

definition unsigned_text :: "nat \<Rightarrow> bool \<Rightarrow> nat \<Rightarrow> bool \<Rightarrow> bool \<Rightarrow> nat \<Rightarrow> string" where
  "unsigned_text base upper width left zero v =
     (let d = fmt_format_unsigned v base upper in justify left (if zero then CHR ''0'' else CHR '' '') (width - length d) d)"

definition signed_text :: "nat \<Rightarrow> bool \<Rightarrow> bool \<Rightarrow> int \<Rightarrow> string" where
  "signed_text width left zero v =
     (let sign = (if v < 0 then ''-'' else ''''); d = fmt_format_unsigned (nat \<bar>v\<bar>) 10 False; n = width - length (sign @ d)
      in if \<not> left \<and> zero then sign @ replicate n CHR ''0'' @ d else justify left CHR '' '' n (sign @ d))"

definition spec_text :: "bool \<Rightarrow> float_fmt \<Rightarrow> char \<Rightarrow> bool \<Rightarrow> bool \<Rightarrow> nat \<Rightarrow> nat option \<Rightarrow> bool \<Rightarrow> vararg list \<Rightarrow> (string \<times> vararg list) option" where
  "spec_text crlf fl c left zero width precision is64 args =
     (if c = CHR ''c'' then map_option (apfst (\<lambda>w. justify left CHR '' '' (width - 1) [char_of (unat w mod 256)])) (va_word args)
      else if c = CHR ''s'' then map_option (apfst (\<lambda>s. string_text crlf width precision left (case s of None \<Rightarrow> ''(null)'' | Some t \<Rightarrow> t))) (va_str args)
      else if c = CHR ''d'' \<or> c = CHR ''i'' then
        map_option (apfst (\<lambda>w. signed_text width left zero (if is64 then sint w else sint (ucast w :: 32 word)))) (va_word args)
      else if c = CHR ''u'' then map_option (apfst (\<lambda>w. unsigned_text 10 False width left zero (unsigned_arg is64 w))) (va_word args)
      else if c = CHR ''x'' then map_option (apfst (\<lambda>w. unsigned_text 16 False width left zero (unsigned_arg is64 w))) (va_word args)
      else if c = CHR ''X'' then map_option (apfst (\<lambda>w. unsigned_text 16 True width left zero (unsigned_arg is64 w))) (va_word args)
      else if c = CHR ''p'' then map_option (apfst (\<lambda>w. ''0x'' @ unsigned_text 16 False (width - 2) left zero (unat w))) (va_word args)
      else if c \<in> set ''fFeEgG'' then map_option (apfst (fl precision c width left zero)) (va_float args)
      else if c = CHR ''%'' then Some (''%'', args)
      else Some (''%'' @ [c], args))"

function render :: "bool \<Rightarrow> float_fmt \<Rightarrow> string \<Rightarrow> vararg list \<Rightarrow> string option" where
  "render crlf fl [] args = Some []"
| "render crlf fl (c # fmt) args =
     (if c \<noteq> CHR ''%'' then map_option (\<lambda>s. crlf_text crlf [c] @ s) (render crlf fl fmt args)
      else (case parse_spec fmt args of
              None \<Rightarrow> None
            | Some (_, [], _) \<Rightarrow> Some []
            | Some ((left, zero, width, precision, is64), spec # fmt', args') \<Rightarrow>
                (case spec_text crlf fl spec left zero width precision is64 args' of
                   None \<Rightarrow> None
                 | Some (t, args'') \<Rightarrow> map_option (\<lambda>s. t @ s) (render crlf fl fmt' args''))))"
  by pat_completeness auto
termination
  by (relation "measure (\<lambda>(crlf, fl, fmt, args). length fmt)") (auto dest!: parse_spec_length)

section \<open>The helpers send their text\<close>

abbreviation send :: "string \<Rightarrow> fmt_output \<Rightarrow> fmt_output" where
  "send s out \<equiv> fold out_putc s out"

named_theorems sends \<open>what the formatting helpers send\<close>

lemma crlf_putc [simp]: "o_crlf (out_putc c out) = o_crlf out"
  by (simp add: out_putc_def uart_out_putc_def buf_out_putc_def Let_def split: putc_fn.split)

lemma crlf_send [simp]: "o_crlf (send s out) = o_crlf out"
  by (induction s arbitrary: out) auto

lemma crlf_pad [simp]: "o_crlf ((out_putc c ^^ n) out) = o_crlf out"
  by (induction n) auto

lemma padding_sends [sends]: "fmt_padding c n out = send (replicate n c) out"
  by (induction n arbitrary: out) auto

lemma raw_sends [sends]: "fmt_puts_raw s out = send s out"
  by (induction s arbitrary: out) auto

lemma text_sends [sends]: "fmt_text s out = send (crlf_text (o_crlf out) s) out"
  by (induction s arbitrary: out) (auto simp: crlf_text_def)

lemma char_sends [sends]: "fmt_char_width c width left out = send (justify left CHR '' '' (width - 1) [c]) out"
  by (simp add: fmt_char_width_def justify_def sends Let_def)

lemma string_sends [sends]: "fmt_string_width s width precision left out = send (string_text (o_crlf out) width precision left s) out"
proof -
  have "take (min p (length s)) s = take p s" for p by (simp add: min_def)
  note t = this
  show ?thesis
  proof (cases precision)
    case (Some p)
    moreover have "\<not> min p (length s) < width \<Longrightarrow> width - min p (length s) = 0" by linarith
    ultimately show ?thesis using t
      by (cases "min p (length s) < width") (simp_all add: fmt_string_width_def string_text_def justify_def sends Let_def min.commute)
  qed (simp_all add: fmt_string_width_def string_text_def justify_def sends Let_def)
qed

lemma unsigned_sends [sends]:
  "fmt_unsigned_width v base upper width left zero out = send (unsigned_text base upper width left zero v) out"
  by (simp add: fmt_unsigned_width_def unsigned_text_def justify_def sends Let_def)

lemma abs_word: "(if sint v < 0 then unat (- v) else unat v) = nat \<bar>sint v\<bar>" for v :: "64 word"
proof -
  have u: "unat (word_of_int i :: 64 word) = nat (i mod 2 ^ 64)" for i by (simp add: uint_word_of_int unat_eq_nat_uint)
  have r: "- (2 ^ 63) \<le> sint v" "sint v < 2 ^ 63" using sint_ge[of v] sint_lt[of v] by simp_all
  have v: "unat v = nat (sint v mod 2 ^ 64)" "unat (- v) = nat (- sint v mod 2 ^ 64)"
    using u[of "sint v"] u[of "- sint v"] by simp_all
  show ?thesis
  proof (cases "sint v < 0")
    case True
    then have "- sint v mod 2 ^ 64 = - sint v" using r by (intro mod_pos_pos_trivial) simp_all
    then show ?thesis using True v(2) by simp
  next
    case False
    then have "sint v mod 2 ^ 64 = sint v" using r by (intro mod_pos_pos_trivial) simp_all
    then show ?thesis using False v(1) by simp
  qed
qed

lemma signed_sends [sends]: "fmt_signed_width v 10 width left zero out = send (signed_text width left zero (sint v)) out"
  unfolding fmt_signed_width_def signed_text_def Let_def abs_word by (cases "sint v < 0") (simp_all add: justify_def sends)

lemma sint_extend [simp]: "sint (scast (w :: 32 word) :: 64 word) = sint w"
  by (rule sint_up_scast) (simp add: is_up)

lemma spec_sends:
  "fmt_spec fl c left zero width precision is64 args out =
     map_option (\<lambda>(t, args'). (send t out, args')) (spec_text (o_crlf out) fl c left zero width precision is64 args)"
proof -
  have w: "do { (w, args') \<leftarrow> va_word args; Some (f w, args') } = map_option (apfst f) (va_word args)" for f :: "64 word \<Rightarrow> 'b"
    by (cases "va_word args") auto
  have s: "do { (w, args') \<leftarrow> va_str args; Some (f w, args') } = map_option (apfst f) (va_str args)" for f :: "string option \<Rightarrow> 'b"
    by (cases "va_str args") auto
  have d: "do { (w, args') \<leftarrow> va_float args; Some (f w, args') } = map_option (apfst f) (va_float args)" for f :: "64 word \<Rightarrow> 'b"
    by (cases "va_float args") auto
  have m: "map_option (\<lambda>(t, args'). (send t out, args')) (map_option (apfst f) x) = map_option (apfst (\<lambda>v. send (f v) out)) x" for f :: "'c \<Rightarrow> string" and x
    by (cases x) auto
  have i: "sint (if is64 then v else scast (ucast v :: 32 word)) = (if is64 then sint v else sint (ucast v :: 32 word))" for v :: "64 word" by simp
  have p: "(if width > 2 then width - 2 else 0) = width - 2" by simp
  show ?thesis unfolding fmt_spec_def spec_text_def w s d sends if_distrib[of "map_option _"] m i p
    by (intro if_cong refl) simp_all
qed

lemma vprintf_sends: "fmt_vprintf fl fmt args out = map_option (\<lambda>s. send s out) (render (o_crlf out) fl fmt args)"
proof (induction fl fmt args out rule: fmt_vprintf.induct)
  case (2 fl c fmt args out)
  show ?case
  proof (cases "c = CHR ''%''")
    case False
    then show ?thesis using 2(1) by (simp add: crlf_text_def option.map_comp comp_def)
  next
    case True
    show ?thesis
    proof (cases "parse_spec fmt args")
      case (Some r)
      then obtain left zero width precision is64 f args' where r: "parse_spec fmt args = Some ((left, zero, width, precision, is64), f, args')"
        by (metis prod.exhaust)
      show ?thesis
      proof (cases f)
        case (Cons spec fmt')
        let ?t = "spec_text (o_crlf out) fl spec left zero width precision is64 args'"
        show ?thesis
        proof (cases ?t)
          case (Some q)
          then show ?thesis using r Cons True 2(2) by (cases q) (simp add: spec_sends option.map_comp comp_def)
        qed (use r Cons True in \<open>simp add: spec_sends\<close>)
      qed (use r True in simp)
    qed (use True in simp)
  qed
qed simp

section \<open>Digits\<close>

definition digit_value :: "char \<Rightarrow> nat" where
  "digit_value c = (if of_char c < (58 :: nat) then of_char c - 48 else if of_char c < (71 :: nat) then of_char c - 55 else of_char c - 87)"

definition number_of_text :: "nat \<Rightarrow> string \<Rightarrow> nat" where
  "number_of_text base s = foldl (\<lambda>n c. n * base + digit_value c) 0 s"

lemma digit_value_char: "d < 16 \<Longrightarrow> digit_value (digit_char u d) = d"
proof -
  assume "d < 16"
  then have "d \<in> set [0..<16]" by simp
  moreover have "\<forall>d \<in> set [0..<16]. digit_value (digit_char u d) = d" by (cases u) (simp_all add: upt_rec digit_value_def digit_char_def)
  ultimately show ?thesis by blast
qed

lemma fmt_digits_step:
  "2 \<le> base \<Longrightarrow> 0 < v \<Longrightarrow> fmt_digits v base u acc = fmt_digits (v div base) base u (digit_char u (v mod base) # acc)"
  by (subst fmt_digits.simps) simp

lemma fmt_digits_append: "2 \<le> base \<Longrightarrow> fmt_digits v base u acc = fmt_digits v base u [] @ acc"
proof (induction v arbitrary: acc rule: less_induct)
  case (less v)
  show ?case
  proof (cases "v = 0")
    case False
    then have "v div base < v" using less.prems by simp
    then show ?thesis using less.IH[of "v div base" "digit_char u (v mod base) # acc"] less.IH[of "v div base" "[digit_char u (v mod base)]"] False less.prems
      by (simp add: fmt_digits_step)
  qed (simp add: fmt_digits.simps)
qed

lemma fmt_digits_last: "2 \<le> base \<Longrightarrow> 0 < v \<Longrightarrow> fmt_digits v base u [] = fmt_digits (v div base) base u [] @ [digit_char u (v mod base)]"
  by (simp add: fmt_digits_step fmt_digits_append[of base "v div base" u "[_]"])

lemma fmt_digits_value: "2 \<le> base \<Longrightarrow> base \<le> 16 \<Longrightarrow> number_of_text base (fmt_digits v base u []) = v"
proof (induction v rule: less_induct)
  case (less v)
  show ?case
  proof (cases "v = 0")
    case False
    then have "v div base < v" "v mod base < 16" using less.prems by (simp_all add: less_le_trans[OF mod_less_divisor])
    then show ?thesis using less False by (simp add: fmt_digits_last number_of_text_def digit_value_char)
  qed (simp add: fmt_digits.simps number_of_text_def)
qed

lemma fmt_digits_length: "2 \<le> base \<Longrightarrow> v < base ^ n \<Longrightarrow> length (fmt_digits v base u []) \<le> n"
proof (induction n arbitrary: v)
  case (Suc n)
  then have "v div base < base ^ n" by (simp add: less_mult_imp_div_less mult.commute)
  then show ?case using Suc by (cases "v = 0") (simp_all add: fmt_digits_last fmt_digits.simps[of 0])
qed (simp add: fmt_digits.simps)

text \<open>The digits of a 64-bit value fit the 24-byte buffer they are built in, with its closing NUL.\<close>

lemma format_unsigned:
  assumes "base = 10 \<or> base = 16"
  shows "number_of_text base (fmt_format_unsigned v base u) = v" "v < 2 ^ 64 \<Longrightarrow> length (fmt_format_unsigned v base u) \<le> 20"
proof -
  show "number_of_text base (fmt_format_unsigned v base u) = v"
    using assms fmt_digits_value[of base v u] by (auto simp: fmt_format_unsigned_def number_of_text_def digit_value_def)
  assume "v < 2 ^ 64"
  then have "v < 10 ^ 20 \<and> v < 16 ^ 20" by simp
  then show "length (fmt_format_unsigned v base u) \<le> 20"
    using assms fmt_digits_length[of base v 20 u] by (auto simp: fmt_format_unsigned_def)
qed

section \<open>The bounded buffer\<close>

text \<open>What a buffer output holds after a text was sent to it.\<close>

lemma send_buf:
  assumes "putc_kind out = BUF_OUT" "1 \<le> o_pos out" "o_buf out + o_pos out \<le> length (o_mem out)"
  shows "send s out = out\<lparr>o_mem := take (o_buf out) (o_mem out) @ take (o_pos out - 1) s @ drop (o_buf out + min (length s) (o_pos out - 1)) (o_mem out),
    o_buf := o_buf out + min (length s) (o_pos out - 1), o_pos := o_pos out - min (length s) (o_pos out - 1),
    o_count := o_count out + of_nat (length s)\<rparr>"
  using assms
proof (induction s arbitrary: out)
  case (Cons c s)
  show ?case
  proof (cases "o_pos out > 1")
    case True
    let ?o = "out\<lparr>o_count := o_count out + 1, o_mem := (o_mem out)[o_buf out := c], o_buf := o_buf out + 1, o_pos := o_pos out - 1\<rparr>"
    have p: "out_putc c out = ?o" using True Cons.prems by (simp add: out_putc_def buf_out_putc_def Let_def)
    have t: "take (Suc (o_buf out)) ((o_mem out)[o_buf out := c]) = take (o_buf out) (o_mem out) @ [c]"
      using Cons.prems True by (simp add: take_Suc_conv_app_nth)
    obtain n where n: "o_pos out = Suc (Suc n)" using True by (metis One_nat_def less_imp_Suc_add add_Suc)
    show ?thesis using Cons.IH[of ?o] Cons.prems n t by (simp add: p ac_simps)
  next
    case False
    then have "o_pos out = 1" using Cons.prems by simp
    then show ?thesis using Cons.IH[of "out\<lparr>o_count := o_count out + 1\<rparr>"] Cons.prems
      by (simp add: out_putc_def buf_out_putc_def Let_def ac_simps)
  qed
qed simp


section \<open>The serial port\<close>

lemma send_uart:
  "putc_kind out = UART_OUT \<Longrightarrow> send s out = out\<lparr>o_uart := o_uart out @ s, o_count := o_count out + of_nat (length s)\<rparr>"
proof (induction s arbitrary: out)
  case (Cons c s)
  then show ?case using Cons.IH[of "out_putc c out"] by (simp add: out_putc_def uart_out_putc_def ac_simps)
qed simp

lemma printf_uart:
  "render True fl fmt args = Some s \<Longrightarrow> uart_printf fl fmt args uart = Some (sint (of_nat (length s) :: 32 word), uart @ s)"
  by (simp add: uart_printf_def uart_vprintf_def vprintf_sends fmt_output_uart_def send_uart)

lemma puts_uart: "uart_puts s uart = uart @ crlf_text True s"
  unfolding uart_puts_def by (induction s arbitrary: uart) (auto simp: crlf_text_def)

section \<open>The contract of the buffer functions\<close>

text \<open>C37: formatting into a buffer of \<open>sz\<close> bytes writes the text of the format, cut to \<open>sz - 1\<close> characters, and a closing
  NUL, changes no other byte of memory, and returns the length the whole text would have had.\<close>

theorem snprintf_bounded:
  assumes "render False fl fmt args = Some s" "0 < sz" "buf + sz \<le> length mem" "length s \<le> INT_MAX"
  shows "uart_snprintf fl (Some buf) sz fmt args mem =
    Some (int (length s), take buf mem @ take (sz - 1) s @ [NUL] @ drop (buf + min (length s) (sz - 1) + 1) mem)"
proof -
  let ?out = "fmt_output_buf mem buf sz" and ?n = "min (length s) (sz - 1)"
  let ?m = "take buf mem @ take (sz - 1) s @ drop (buf + ?n) mem"
  have f: "fmt_vprintf fl fmt args ?out = Some (send s ?out)" using assms(1) by (simp add: vprintf_sends fmt_output_buf_def)
  have o: "o_mem (send s ?out) = ?m" "o_buf (send s ?out) = buf + ?n" "o_pos (send s ?out) = sz - ?n" "o_count (send s ?out) = of_nat (length s)"
    using send_buf[of ?out s] assms(2,3) by (simp_all add: fmt_output_buf_def)
  have c: "sint (of_nat (length s) :: 32 word) = int (length s)"
    using assms(4) by (simp add: sint_uint signed_take_bit_int_eq_self uint_nat unat_of_nat)
  have m: "?m[buf + ?n := NUL] = take buf mem @ take (sz - 1) s @ [NUL] @ drop (buf + ?n + 1) mem"
    using assms(2,3) by (intro nth_equalityI) (auto simp: nth_append nth_list_update)
  have "?n < sz" using assms(2) by linarith
  then show ?thesis using f o c m by (simp add: uart_snprintf_def uart_vsnprintf_def Let_def)
qed

theorem snprintf_bounded_witness:
  "uart_snprintf (\<lambda>_ _ _ _ _ _. []) (Some 1) 4 ''%u!'' [VWord 1234] ''abcdefg'' = Some (5, ''a123'' @ [NUL] @ ''fg'')"
proof -
  have "fmt_format_unsigned 1234 10 False = ''1234''" by (simp add: fmt_format_unsigned_def fmt_digits.simps digit_char_def)
  then have "render False (\<lambda>_ _ _ _ _ _. []) ''%u!'' [VWord 1234] = Some ''1234!''"
    by (simp add: parse_spec_def parse_precision_def parse_length_def is_digit_def spec_text_def unsigned_text_def unsigned_arg_def justify_def crlf_text_def)
  from snprintf_bounded[OF this, of 4 1 "''abcdefg''"] show ?thesis by simp
qed

end
