(* ===== verification/Vfs.thy ===== *)
theory Vfs
  imports KprintfProps SchedState
begin

text \<open>
  The virtual filesystem, \<open>kernel/src/vfs.c\<close>: a tree of nodes in a pool of 64, the virtual files below \<open>/sys\<close> and
  \<open>/proc\<close>, path lookup, mount points and the path-based operations.

  A node is its index in the pool.  A name is the text in the 32-byte name field: one of 32 characters fills the field
  and has no closing NUL.  Reading past such a name is \<open>None\<close>; a null pointer is \<open>None\<close> one level further in.
  Buffers are offsets into memory, as in \<^typ>\<open>fmt_output\<close>.  The operations of a mounted filesystem and the contents the
  rest of the kernel gives to the virtual files are arguments.
\<close>

section \<open>The virtual files\<close>

text \<open>What the kernel functions the callbacks call return at the moment of the read.\<close>

record pool_stats =
  total_blocks :: nat
  free_blocks :: nat
  allocated_blocks :: nat

record sys_view =
  sv_total_pages :: nat
  sv_free_pages :: nat
  sv_timer_count :: nat
  sv_timer_freq :: nat
  sv_cpu_count :: nat
  sv_cpus_online :: nat
  sv_version :: string
  sv_build_stamp :: string
  sv_build_sha :: string
  sv_queues :: nat
  sv_buffers :: nat
  sv_sent :: nat
  sv_recv :: nat
  sv_weight_pool :: pool_stats
  sv_workspace_pool :: pool_stats
  sv_sched :: sched_state
  sv_names :: "nat \<Rightarrow> string"
  sv_current :: "nat option"
  sv_float :: float_fmt

text \<open>A read callback looks at the state of the kernel and takes the buffer, its size, its context and memory.\<close>

type_synonym vfs_read_fn = "sys_view \<Rightarrow> nat \<Rightarrow> nat \<Rightarrow> nat \<Rightarrow> char list \<Rightarrow> (int \<times> char list) option"

abbreviation lu :: "nat \<Rightarrow> vararg" where
  "lu n \<equiv> VWord (of_nat n)"

text \<open>A run of \<open>uart_snprintf\<close> calls, each at the position the earlier ones reached.\<close>

definition print_at :: "sys_view \<Rightarrow> nat \<Rightarrow> nat \<Rightarrow> string \<times> vararg list \<Rightarrow> nat \<times> nat \<times> char list \<Rightarrow> (nat \<times> nat \<times> char list) option" where
  "print_at sv bf sz line = (\<lambda>(pos, remain, mem). do {
     (wrote, mem') \<leftarrow> uart_snprintf (sv_float sv) (Some (bf + pos)) remain (fst line) (snd line) mem;
     Some (if wrote > 0 then (pos + nat wrote, if pos + nat wrote < sz then sz - (pos + nat wrote) else 0, mem') else (pos, remain, mem'))
   })"

primrec print_lines :: "sys_view \<Rightarrow> nat \<Rightarrow> nat \<Rightarrow> (string \<times> vararg list) list \<Rightarrow> nat \<times> nat \<times> char list \<Rightarrow> (int \<times> char list) option" where
  "print_lines sv bf sz [] = (\<lambda>(pos, remain, mem). Some (int pos, mem))"
| "print_lines sv bf sz (l # ls) = (\<lambda>st. do { st' \<leftarrow> print_at sv bf sz l st; print_lines sv bf sz ls st' })"

definition read_sys_memory :: "vfs_read_fn" where
  "read_sys_memory sv bf sz ctx mem =
     (let total_pages = sv_total_pages sv; free_pages = sv_free_pages sv; used_pages = u64_sub total_pages free_pages;
          kb = (\<lambda>pages. u64_mul pages 4096 div 1024)
      in print_lines sv bf sz
           [(''total_kb: %lu'' @ [NL], [lu (kb total_pages)]), (''used_kb: %lu'' @ [NL], [lu (kb used_pages)]),
            (''free_kb: %lu'' @ [NL], [lu (kb free_pages)]), (''total_pages: %lu'' @ [NL], [lu total_pages]),
            (''free_pages: %lu'' @ [NL], [lu free_pages])]
           (0, sz, mem))"

definition read_sys_uptime :: "vfs_read_fn" where
  "read_sys_uptime sv bf sz ctx mem =
     (let count = sv_timer_count sv; freq = (if sv_timer_freq sv = 0 then 1 else sv_timer_freq sv);
          total_seconds = count div freq; ms = u64_mul count 1000 div freq mod 1000
      in uart_snprintf (sv_float sv) (Some bf) sz (''uptime_seconds: %lu'' @ [NL] @ ''uptime_ms: %lu'' @ [NL]) [lu total_seconds, lu ms] mem)"

definition read_sys_cpus :: "vfs_read_fn" where
  "read_sys_cpus sv bf sz ctx mem =
     print_lines sv bf sz [(''count: %lu'' @ [NL], [lu (sv_cpu_count sv)]), (''online: %lu'' @ [NL], [lu (sv_cpus_online sv)])] (0, sz, mem)"

text \<open>The version text is one format string, put together from macros the build generates.\<close>

definition read_sys_version :: "vfs_read_fn" where
  "read_sys_version sv bf sz ctx mem =
     uart_snprintf (sv_float sv) (Some bf) sz
       (''name:    SLM-OS'' @ [NL] @ ''version: '' @ sv_version sv @ [NL] @ ''build:   '' @ sv_build_stamp sv @ [NL] @
        ''commit:  '' @ sv_build_sha sv @ [NL]) [] mem"

definition read_sys_ipc :: "vfs_read_fn" where
  "read_sys_ipc sv bf sz ctx mem =
     print_lines sv bf sz
       [(''queues: %lu'' @ [NL], [lu (sv_queues sv)]), (''buffers: %lu'' @ [NL], [lu (sv_buffers sv)]),
        (''msgs_sent: %lu'' @ [NL], [lu (sv_sent sv)]), (''msgs_recv: %lu'' @ [NL], [lu (sv_recv sv)])]
       (0, sz, mem)"

definition read_sys_model :: "vfs_read_fn" where
  "read_sys_model sv bf sz ctx mem =
     (let lines = (\<lambda>p. [(''total: %lu'' @ [NL], [lu (total_blocks p)]), (''free: %lu'' @ [NL], [lu (free_blocks p)]),
                        (''allocated: %lu'' @ [NL], [lu (allocated_blocks p)])])
      in print_lines sv bf sz
           ([(''[weight_pool]'' @ [NL], [])] @ lines (sv_weight_pool sv) @ [(''[workspace_pool]'' @ [NL], [])] @ lines (sv_workspace_pool sv))
           (0, sz, mem))"

fun proc_state_name :: "task_state \<Rightarrow> string" where
  "proc_state_name TASK_READY = ''ready''"
| "proc_state_name TASK_RUNNING = ''running''"
| "proc_state_name TASK_BLOCKED = ''blocked''"
| "proc_state_name TASK_TERMINATED = ''terminated''"
| "proc_state_name TASK_DESTROYED = ''unknown''"

definition task_line :: "sys_view \<Rightarrow> nat \<Rightarrow> string \<times> vararg list" where
  "task_line sv i =
     (let t = tcb (sv_sched sv) i
      in (''%lu %s %s %u %lu'' @ [NL],
          [lu (t_id t), VStr (Some (sv_names sv i)), VStr (Some (proc_state_name (t_state t))), lu (effective_priority t), lu (assigned_cpu t)]))"

primrec print_tasks :: "sys_view \<Rightarrow> nat \<Rightarrow> nat \<Rightarrow> nat list \<Rightarrow> nat \<times> nat \<times> char list \<Rightarrow> (int \<times> char list) option" where
  "print_tasks sv bf sz [] = (\<lambda>(pos, remain, mem). Some (int pos, mem))"
| "print_tasks sv bf sz (i # is) = (\<lambda>st.
     let t = tcb (sv_sched sv) i
     in if t_id t \<noteq> 0 \<and> t_state t \<noteq> TASK_TERMINATED
        then do {
          (pos, remain, mem) \<leftarrow> print_at sv bf sz (task_line sv i) st;
          if remain = 0 then Some (int pos, mem) else print_tasks sv bf sz is (pos, remain, mem)
        }
        else print_tasks sv bf sz is st)"

definition read_proc_tasks :: "vfs_read_fn" where
  "read_proc_tasks sv bf sz ctx mem = print_tasks sv bf sz [0..<64] (0, sz, mem)"

definition read_proc_self :: "vfs_read_fn" where
  "read_proc_self sv bf sz ctx mem =
     (case sv_current sv of
        None \<Rightarrow> uart_snprintf (sv_float sv) (Some bf) sz (''error: no current task'' @ [NL]) [] mem
      | Some i \<Rightarrow>
          let t = tcb (sv_sched sv) i
          in print_lines sv bf sz
               [(''id: %lu'' @ [NL], [lu (t_id t)]), (''name: %s'' @ [NL], [VStr (Some (sv_names sv i))]),
                (''state: %s'' @ [NL], [VStr (Some (proc_state_name (t_state t)))]), (''priority: %u'' @ [NL], [lu (t_priority t)]),
                (''effective_priority: %u'' @ [NL], [lu (effective_priority t)]), (''cpu: %lu'' @ [NL], [lu (assigned_cpu t)]),
                (''switches: %lu'' @ [NL], [lu (t_switches t)])]
               (0, sz, mem))"

section \<open>Nodes\<close>

abbreviation (input) VFS_MAX_NODES :: nat where "VFS_MAX_NODES \<equiv> 64"
abbreviation (input) VFS_MAX_PATH :: nat where "VFS_MAX_PATH \<equiv> 128"
abbreviation (input) VFS_MAX_NAME :: nat where "VFS_MAX_NAME \<equiv> 32"
abbreviation (input) VFS_MAX_CHILDREN :: nat where "VFS_MAX_CHILDREN \<equiv> 16"
abbreviation (input) SLASH :: char where "SLASH \<equiv> CHR 0x2F"

datatype vfs_node_type = VFS_NODE_FILE | VFS_NODE_DIR | VFS_NODE_MOUNT

record vfs_entry_info =
  e_name :: string
  e_type :: nat
  e_size :: nat

record vfs_fs_ops =
  fs_read :: "(nat \<Rightarrow> string \<Rightarrow> nat \<Rightarrow> nat \<Rightarrow> nat \<Rightarrow> char list \<Rightarrow> (int \<times> char list) option) option"
  fs_readdir :: "(nat \<Rightarrow> string \<Rightarrow> int \<times> vfs_entry_info list) option"
  fs_stat :: "(nat \<Rightarrow> string \<Rightarrow> int \<times> vfs_entry_info) option"

record vfs_node =
  v_name :: string
  v_type :: vfs_node_type
  v_read :: "vfs_read_fn option"
  v_read_ctx :: nat
  v_children :: "nat list"
  v_fs_ops :: "vfs_fs_ops option"
  v_fs_ctx :: nat
  v_parent :: "nat option"

record vfs =
  node_pool :: "nat \<Rightarrow> vfs_node"
  next_node :: nat
  root_node :: "nat option"
  sys_node :: "nat option"
  proc_node :: "nat option"
  components_node :: "nat option"

abbreviation nd :: "vfs \<Rightarrow> nat \<Rightarrow> vfs_node" where
  "nd v n \<equiv> node_pool v n"

definition upd_node :: "nat \<Rightarrow> (vfs_node \<Rightarrow> vfs_node) \<Rightarrow> vfs \<Rightarrow> vfs" where
  "upd_node n f v = v\<lparr>node_pool := (node_pool v)(n := f (nd v n))\<rparr>"

definition alloc_node :: "vfs \<Rightarrow> nat option \<times> vfs" where
  "alloc_node v =
     (if next_node v \<ge> VFS_MAX_NODES then (None, v)
      else (Some (next_node v),
            upd_node (next_node v)
              (\<lambda>_. \<lparr>v_name = [], v_type = VFS_NODE_DIR, v_read = None, v_read_ctx = 0, v_children = [],
                    v_fs_ops = None, v_fs_ctx = 0, v_parent = None\<rparr>)
              (v\<lparr>next_node := next_node v + 1\<rparr>)))"

definition add_child :: "nat \<Rightarrow> nat \<Rightarrow> vfs \<Rightarrow> int \<times> vfs" where
  "add_child parent child v =
     (if v_type (nd v parent) \<noteq> VFS_NODE_DIR then (-1, v)
      else if length (v_children (nd v parent)) \<ge> VFS_MAX_CHILDREN then (-1, v)
      else (0, upd_node child (\<lambda>x. x\<lparr>v_parent := Some parent\<rparr>)
                 (upd_node parent (\<lambda>x. x\<lparr>v_children := v_children x @ [child]\<rparr>) v)))"

text \<open>\<open>strncpy\<close> into a name field, and whether \<open>strcmp\<close> finds two such fields equal.\<close>

definition copy_name :: "string \<Rightarrow> string" where
  "copy_name s = take VFS_MAX_NAME s"

definition same_name :: "string \<Rightarrow> string \<Rightarrow> bool option" where
  "same_name a b = (if a \<noteq> b then Some False else if length a < VFS_MAX_NAME then Some True else None)"

primrec find_name :: "vfs \<Rightarrow> string \<Rightarrow> nat list \<Rightarrow> nat option option" where
  "find_name v name [] = Some None"
| "find_name v name (c # cs) =
     (case same_name (v_name (nd v c)) name of
        None \<Rightarrow> None
      | Some True \<Rightarrow> Some (Some c)
      | Some False \<Rightarrow> find_name v name cs)"

definition find_child :: "vfs \<Rightarrow> nat \<Rightarrow> string \<Rightarrow> nat option option" where
  "find_child v parent name =
     (if v_type (nd v parent) \<noteq> VFS_NODE_DIR then Some None else find_name v name (v_children (nd v parent)))"

definition vfs_create_file :: "nat option \<Rightarrow> string \<Rightarrow> vfs_read_fn option \<Rightarrow> nat \<Rightarrow> vfs \<Rightarrow> nat option \<times> vfs" where
  "vfs_create_file parent name read ctx v =
     (case parent of
        None \<Rightarrow> (None, v)
      | Some p \<Rightarrow>
          if v_type (nd v p) \<noteq> VFS_NODE_DIR then (None, v)
          else (case alloc_node v of
                  (None, v1) \<Rightarrow> (None, v1)
                | (Some node, v1) \<Rightarrow>
                    let v2 = upd_node node (\<lambda>x. x\<lparr>v_name := copy_name name, v_type := VFS_NODE_FILE, v_read := read, v_read_ctx := ctx\<rparr>) v1
                    in case add_child p node v2 of (r, v3) \<Rightarrow> (if r < 0 then None else Some node, v3)))"

definition vfs_create_dir :: "nat option \<Rightarrow> string \<Rightarrow> vfs \<Rightarrow> nat option \<times> vfs" where
  "vfs_create_dir parent name v =
     (case parent of
        None \<Rightarrow> (None, v)
      | Some p \<Rightarrow>
          if v_type (nd v p) \<noteq> VFS_NODE_DIR then (None, v)
          else (case alloc_node v of
                  (None, v1) \<Rightarrow> (None, v1)
                | (Some node, v1) \<Rightarrow>
                    let v2 = upd_node node (\<lambda>x. x\<lparr>v_name := copy_name name, v_type := VFS_NODE_DIR\<rparr>) v1
                    in case add_child p node v2 of (r, v3) \<Rightarrow> (if r < 0 then None else Some node, v3)))"

section \<open>Lookup and listing\<close>

definition vfs_init :: "vfs \<Rightarrow> vfs option" where
  "vfs_init v0 =
     (case alloc_node v0 of
        (None, _) \<Rightarrow> None
      | (Some root, v1) \<Rightarrow>
          let v2 = upd_node root (\<lambda>x. x\<lparr>v_name := copy_name [SLASH], v_type := VFS_NODE_DIR\<rparr>) (v1\<lparr>root_node := Some root\<rparr>);
              (sys, v3) = vfs_create_dir (Some root) ''sys'' v2;
              file = (\<lambda>parent name read v. snd (vfs_create_file parent name (Some read) 0 v));
              v4 = file sys ''model'' read_sys_model (file sys ''ipc'' read_sys_ipc (file sys ''version'' read_sys_version
                     (file sys ''cpus'' read_sys_cpus (file sys ''uptime'' read_sys_uptime (file sys ''memory'' read_sys_memory
                       (v3\<lparr>sys_node := sys\<rparr>))))));
              (proc, v5) = vfs_create_dir (Some root) ''proc'' v4;
              v6 = file proc ''self'' read_proc_self (file proc ''tasks'' read_proc_tasks (v5\<lparr>proc_node := proc\<rparr>));
              (components, v7) = vfs_create_dir (Some root) ''components'' v6
          in Some (v7\<lparr>components_node := components\<rparr>))"

text \<open>The first component of a path, at most 31 characters of it, and what follows.\<close>

definition next_component :: "string \<Rightarrow> string" where
  "next_component p = take (VFS_MAX_NAME - 1) (takeWhile (\<lambda>c. c \<noteq> SLASH) p)"

definition skip_slashes :: "string \<Rightarrow> string" where
  "skip_slashes p = dropWhile (\<lambda>c. c = SLASH) p"

lemma next_component_nonempty: "skip_slashes p = c # q \<Longrightarrow> next_component (c # q) \<noteq> []"
  by (auto simp: skip_slashes_def next_component_def dropWhile_eq_Cons_conv)

lemma skip_slashes_length: "length (skip_slashes p) \<le> length p"
  by (simp add: skip_slashes_def length_dropWhile_le)

lemma component_shrinks: "skip_slashes p = c # q \<Longrightarrow> length (drop (length (next_component (c # q))) (c # q)) < length p"
  using next_component_nonempty[of p c q] skip_slashes_length[of p] by (cases "next_component (c # q)") auto

function lookup_from :: "vfs \<Rightarrow> nat \<Rightarrow> string \<Rightarrow> nat option option" where
  "lookup_from v node p =
     (case skip_slashes p of
        [] \<Rightarrow> Some (Some node)
      | c # q \<Rightarrow>
          (case find_child v node (next_component (c # q)) of
             None \<Rightarrow> None
           | Some None \<Rightarrow> Some None
           | Some (Some child) \<Rightarrow> lookup_from v child (drop (length (next_component (c # q))) (c # q))))"
  by pat_completeness auto
termination
  by (relation "measure (\<lambda>(v, node, p). length p)") (auto dest: component_shrinks)

declare lookup_from.simps [simp del]

definition vfs_lookup :: "string option \<Rightarrow> vfs \<Rightarrow> nat option option" where
  "vfs_lookup path v =
     (case path of
        None \<Rightarrow> Some None
      | Some p \<Rightarrow>
          if p = [] \<or> hd p \<noteq> SLASH then Some None
          else if p = [SLASH] \<or> p = [SLASH, SLASH] then Some (root_node v)
          else (case root_node v of
                  None \<Rightarrow> if skip_slashes p = [] then Some None else None
                | Some root \<Rightarrow> lookup_from v root (tl p)))"

definition vfs_root :: "vfs \<Rightarrow> nat option" where
  "vfs_root v = root_node v"

definition vfs_get_sys :: "vfs \<Rightarrow> nat option" where
  "vfs_get_sys v = sys_node v"

definition vfs_get_proc :: "vfs \<Rightarrow> nat option" where
  "vfs_get_proc v = proc_node v"

definition vfs_get_components :: "vfs \<Rightarrow> nat option" where
  "vfs_get_components v = components_node v"

definition vfs_read :: "sys_view \<Rightarrow> nat option \<Rightarrow> nat \<Rightarrow> nat \<Rightarrow> vfs \<Rightarrow> char list \<Rightarrow> (int \<times> char list) option" where
  "vfs_read sv node bf sz v mem =
     (case node of
        None \<Rightarrow> Some (-1, mem)
      | Some n \<Rightarrow>
          if v_type (nd v n) \<noteq> VFS_NODE_FILE then Some (-1, mem)
          else (case v_read (nd v n) of None \<Rightarrow> Some (0, mem) | Some read \<Rightarrow> read sv bf sz (v_read_ctx (nd v n)) mem))"

text \<open>The callback of a listing acts on a state of its own.\<close>

definition vfs_list :: "nat option \<Rightarrow> (nat \<Rightarrow> 's \<Rightarrow> 's) option \<Rightarrow> vfs \<Rightarrow> 's \<Rightarrow> 's" where
  "vfs_list node callback v st =
     (case node of
        None \<Rightarrow> st
      | Some n \<Rightarrow>
          if v_type (nd v n) \<noteq> VFS_NODE_DIR then st
          else (case callback of None \<Rightarrow> st | Some cb \<Rightarrow> fold cb (v_children (nd v n)) st))"

text \<open>The path is built from its end in a buffer of 128 bytes: \<open>pos\<close> is where it starts, \<open>acc\<close> is what is there.\<close>

function path_up :: "vfs \<Rightarrow> nat \<Rightarrow> nat \<Rightarrow> string \<Rightarrow> string option option" where
  "path_up v n pos acc =
     (case v_parent (nd v n) of
        None \<Rightarrow> Some (Some acc)
      | Some p \<Rightarrow>
          if length (v_name (nd v n)) \<ge> VFS_MAX_NAME then None
          else if pos < length (v_name (nd v n)) + 1 then Some None
          else path_up v p (pos - length (v_name (nd v n)) - 1) (SLASH # v_name (nd v n) @ acc))"
  by pat_completeness auto
termination
  by (relation "measure (\<lambda>(v, n, pos, acc). pos)") auto

declare path_up.simps [simp del]

definition vfs_get_path :: "nat option \<Rightarrow> nat option \<Rightarrow> nat \<Rightarrow> vfs \<Rightarrow> string option option" where
  "vfs_get_path node bf sz v =
     (case node of
        None \<Rightarrow> Some None
      | Some n \<Rightarrow>
          if bf = None \<or> sz = 0 then Some None
          else (case path_up v n (VFS_MAX_PATH - 1) [] of
                  None \<Rightarrow> None
                | Some None \<Rightarrow> Some None
                | Some (Some path) \<Rightarrow>
                    if root_node v = Some n then (if sz < 2 then Some None else Some (Some [SLASH]))
                    else if length path \<ge> sz then Some None
                    else Some (Some path)))"

section \<open>Mount points\<close>

text \<open>The position of the last slash; 0 when only the first character is one.\<close>

primrec last_slash :: "nat \<Rightarrow> nat \<Rightarrow> string \<Rightarrow> nat" where
  "last_slash i best [] = best"
| "last_slash i best (c # p) = last_slash (i + 1) (if c = SLASH then i else best) p"

text \<open>The directory a mount goes into when its parent path does not exist: the first component of that path, made
  below the root if need be.\<close>

definition mount_parent :: "string \<Rightarrow> vfs \<Rightarrow> (nat option \<times> vfs) option" where
  "mount_parent parent_path v =
     (if length parent_path \<ge> 2 \<and> hd parent_path = SLASH
      then let first_component = next_component (tl parent_path)
           in (case root_node v of
                 None \<Rightarrow> None
               | Some root \<Rightarrow>
                   (case find_child v root first_component of
                      None \<Rightarrow> None
                    | Some (Some p) \<Rightarrow> Some (Some p, v)
                    | Some None \<Rightarrow> Some (vfs_create_dir (Some root) first_component v)))
      else Some (None, v))"

text \<open>The last part of \<open>vfs_mount\<close>, once the parent directory is known.\<close>

definition mount_in :: "nat \<Rightarrow> string \<Rightarrow> vfs_fs_ops \<Rightarrow> nat \<Rightarrow> vfs \<Rightarrow> (nat option \<times> vfs) option" where
  "mount_in parent mount_name ops ctx v =
     (if v_type (nd v parent) \<noteq> VFS_NODE_DIR then Some (None, v)
      else (case find_child v parent mount_name of
              None \<Rightarrow> None
            | Some (Some ex) \<Rightarrow>
                if v_type (nd v ex) = VFS_NODE_DIR \<and> v_children (nd v ex) = []
                then Some (Some ex, upd_node ex (\<lambda>x. x\<lparr>v_type := VFS_NODE_MOUNT, v_fs_ops := Some ops, v_fs_ctx := ctx\<rparr>) v)
                else Some (None, v)
            | Some None \<Rightarrow>
                (case alloc_node v of
                   (None, v1) \<Rightarrow> Some (None, v1)
                 | (Some node, v1) \<Rightarrow>
                     let v2 = upd_node node (\<lambda>x. x\<lparr>v_name := copy_name mount_name, v_type := VFS_NODE_MOUNT,
                                                   v_fs_ops := Some ops, v_fs_ctx := ctx\<rparr>) v1
                     in case add_child parent node v2 of (r, v3) \<Rightarrow> Some (if r < 0 then None else Some node, v3))))"

definition vfs_mount :: "string option \<Rightarrow> vfs_fs_ops option \<Rightarrow> nat \<Rightarrow> vfs \<Rightarrow> (nat option \<times> vfs) option" where
  "vfs_mount path ops ctx v =
     (case (path, ops) of
        (Some p, Some fs) \<Rightarrow>
          if p = [] \<or> hd p \<noteq> SLASH then Some (None, v)
          else let k = last_slash 0 0 p;
                   parent_path = (if k = 0 then [SLASH] else take k p);
                   mount_name = copy_name (drop (k + 1) p)
               in if k \<ge> VFS_MAX_PATH then Some (None, v)
                  else do {
                    found \<leftarrow> vfs_lookup (Some parent_path) v;
                    (parent, v1) \<leftarrow> (case found of None \<Rightarrow> mount_parent parent_path v | Some n \<Rightarrow> Some (Some n, v));
                    (case parent of None \<Rightarrow> Some (None, v1) | Some n \<Rightarrow> mount_in n mount_name fs ctx v1)
                  }
      | _ \<Rightarrow> Some (None, v))"

definition vfs_unmount :: "nat option \<Rightarrow> vfs \<Rightarrow> int \<times> vfs" where
  "vfs_unmount mnt v =
     (case mnt of
        None \<Rightarrow> (-1, v)
      | Some n \<Rightarrow>
          if v_type (nd v n) \<noteq> VFS_NODE_MOUNT then (-1, v)
          else (0, upd_node n (\<lambda>x. x\<lparr>v_type := VFS_NODE_DIR, v_fs_ops := None, v_fs_ctx := 0\<rparr>) v))"

text \<open>The result is the node and the path that remains below it; \<open>prev\<close> is the character in front of \<open>p\<close>.\<close>

function lookup_mount_from :: "vfs \<Rightarrow> nat \<Rightarrow> char \<Rightarrow> string \<Rightarrow> (nat option \<times> string option) option" where
  "lookup_mount_from v node prev p =
     (case skip_slashes p of
        [] \<Rightarrow> Some (Some node, if v_type (nd v node) = VFS_NODE_MOUNT then Some [SLASH] else None)
      | c # q \<Rightarrow>
          let comp = next_component (c # q);
              rest = drop (length comp) (c # q);
              comp_start = (if skip_slashes p = p then prev else SLASH) # c # q
          in (case find_child v node comp of
                None \<Rightarrow> None
              | Some None \<Rightarrow>
                  if v_type (nd v node) = VFS_NODE_MOUNT then Some (Some node, Some comp_start) else Some (None, None)
              | Some (Some child) \<Rightarrow>
                  if v_type (nd v child) = VFS_NODE_MOUNT \<and> rest \<noteq> [] then Some (Some child, Some rest)
                  else lookup_mount_from v child (last comp) rest))"
  by pat_completeness auto
termination
  by (relation "measure (\<lambda>(v, node, prev, p). length p)") (auto dest: component_shrinks)

declare lookup_mount_from.simps [simp del]

definition vfs_lookup_mount :: "string option \<Rightarrow> vfs \<Rightarrow> (nat option \<times> string option) option" where
  "vfs_lookup_mount path v =
     (case path of
        None \<Rightarrow> Some (None, None)
      | Some p \<Rightarrow>
          if p = [] \<or> hd p \<noteq> SLASH then Some (None, None)
          else if p = [SLASH] \<or> p = [SLASH, SLASH] then Some (root_node v, None)
          else (case root_node v of
                  None \<Rightarrow> None
                | Some root \<Rightarrow> lookup_mount_from v root SLASH (tl p)))"

definition vfs_read_path :: "sys_view \<Rightarrow> string option \<Rightarrow> nat \<Rightarrow> nat \<Rightarrow> nat \<Rightarrow> vfs \<Rightarrow> char list \<Rightarrow> (int \<times> char list) option" where
  "vfs_read_path sv path bf sz offset v mem = do {
     (node, subpath) \<leftarrow> vfs_lookup_mount path v;
     (case node of
        None \<Rightarrow> Some (-1, mem)
      | Some n \<Rightarrow>
          (case (v_type (nd v n), v_fs_ops (nd v n)) of
             (VFS_NODE_MOUNT, Some ops) \<Rightarrow>
               (case fs_read ops of
                  Some rd \<Rightarrow> rd (v_fs_ctx (nd v n)) (case subpath of None \<Rightarrow> [SLASH] | Some q \<Rightarrow> q) bf sz offset mem
                | None \<Rightarrow> Some (-1, mem))
           | (VFS_NODE_FILE, _) \<Rightarrow> if offset = 0 then vfs_read sv (Some n) bf sz v mem else Some (-1, mem)
           | _ \<Rightarrow> Some (-1, mem)))
   }"

definition list_path_wrapper :: "vfs \<Rightarrow> (vfs_entry_info \<Rightarrow> 's \<Rightarrow> 's) \<Rightarrow> nat \<Rightarrow> 's \<Rightarrow> 's" where
  "list_path_wrapper v user_callback child st =
     user_callback \<lparr>e_name = copy_name (v_name (nd v child)),
       e_type = (if v_type (nd v child) = VFS_NODE_DIR \<or> v_type (nd v child) = VFS_NODE_MOUNT then 1 else 0), e_size = 0\<rparr> st"

definition vfs_list_path :: "string option \<Rightarrow> (vfs_entry_info \<Rightarrow> 's \<Rightarrow> 's) option \<Rightarrow> vfs \<Rightarrow> 's \<Rightarrow> (int \<times> 's) option" where
  "vfs_list_path path callback v st =
     (case callback of
        None \<Rightarrow> Some (-1, st)
      | Some cb \<Rightarrow> do {
          (node, subpath) \<leftarrow> vfs_lookup_mount path v;
          (case node of
             None \<Rightarrow> Some (-1, st)
           | Some n \<Rightarrow>
               (case (v_type (nd v n), v_fs_ops (nd v n)) of
                  (VFS_NODE_MOUNT, Some ops) \<Rightarrow>
                    (case fs_readdir ops of
                       Some rd \<Rightarrow> (case rd (v_fs_ctx (nd v n)) (case subpath of None \<Rightarrow> [SLASH] | Some q \<Rightarrow> q) of (r, es) \<Rightarrow> Some (r, fold cb es st))
                     | None \<Rightarrow> Some (-1, st))
                | (VFS_NODE_DIR, _) \<Rightarrow> Some (0, vfs_list (Some n) (Some (list_path_wrapper v cb)) v st)
                | _ \<Rightarrow> Some (-1, st)))
        })"

definition vfs_stat_path :: "string option \<Rightarrow> bool \<Rightarrow> vfs \<Rightarrow> (int \<times> vfs_entry_info option) option" where
  "vfs_stat_path path info v =
     (if \<not> info then Some (-1, None)
      else do {
        (node, subpath) \<leftarrow> vfs_lookup_mount path v;
        (case node of
           None \<Rightarrow> Some (-1, None)
         | Some n \<Rightarrow>
             let e = (\<lambda>t. \<lparr>e_name = copy_name (v_name (nd v n)), e_type = t, e_size = 0\<rparr>)
             in (if v_type (nd v n) = VFS_NODE_MOUNT
                 then (case (subpath, Option.bind (v_fs_ops (nd v n)) fs_stat) of
                         (Some q, Some st) \<Rightarrow> (case st (v_fs_ctx (nd v n)) q of (r, i) \<Rightarrow> Some (r, Some i))
                       | _ \<Rightarrow> Some (0, Some (e 1)))
                 else Some (0, Some (e (if v_type (nd v n) = VFS_NODE_DIR then 1 else 0)))))
      })"

definition vfs_get_mount_ctx :: "string option \<Rightarrow> vfs \<Rightarrow> (nat \<times> string option) option" where
  "vfs_get_mount_ctx path v = do {
     (node, subpath) \<leftarrow> vfs_lookup_mount path v;
     (case node of
        None \<Rightarrow> Some (0, None)
      | Some n \<Rightarrow>
          if v_type (nd v n) \<noteq> VFS_NODE_MOUNT then Some (0, None)
          else Some (v_fs_ctx (nd v n), Some (case subpath of None \<Rightarrow> [SLASH] | Some q \<Rightarrow> q)))
   }"

end
