(* ===== verification/VfsTree.thy ===== *)
theory VfsTree
  imports Vfs
begin

text \<open>
  The shape of the node tree and its preservation: parents come before their children in the pool, parent and child
  links agree, only directories have children, and a node has filesystem operations exactly when it is a mount point.
\<close>

section \<open>Well-formed trees\<close>

definition node_ok :: "vfs \<Rightarrow> nat \<Rightarrow> bool" where
  "node_ok v n \<longleftrightarrow> length (v_name (nd v n)) \<le> VFS_MAX_NAME \<and> length (v_children (nd v n)) \<le> VFS_MAX_CHILDREN \<and> distinct (v_children (nd v n)) \<and>
     (\<forall>c. c \<in> set (v_children (nd v n)) \<longleftrightarrow> c < next_node v \<and> v_parent (nd v c) = Some n) \<and>
     (case v_parent (nd v n) of None \<Rightarrow> True | Some p \<Rightarrow> p < n) \<and>
     (v_type (nd v n) \<noteq> VFS_NODE_DIR \<longrightarrow> v_children (nd v n) = []) \<and>
     (v_type (nd v n) = VFS_NODE_MOUNT \<longleftrightarrow> v_fs_ops (nd v n) \<noteq> None)"

definition vfs_ok :: "vfs \<Rightarrow> bool" where
  "vfs_ok v \<longleftrightarrow> next_node v \<le> VFS_MAX_NODES \<and> root_node v = Some 0 \<and> 0 < next_node v \<and> v_parent (nd v 0) = None \<and>
     v_type (nd v 0) = VFS_NODE_DIR \<and> (\<forall>n < next_node v. node_ok v n)"

lemma vfs_ok_node: "vfs_ok v \<Longrightarrow> n < next_node v \<Longrightarrow> node_ok v n"
  by (simp add: vfs_ok_def)

lemma vfs_ok_child: "vfs_ok v \<Longrightarrow> n < next_node v \<Longrightarrow> c \<in> set (v_children (nd v n)) \<Longrightarrow> c < next_node v \<and> v_parent (nd v c) = Some n"
  using vfs_ok_node[of v n] by (simp add: node_ok_def)

lemma vfs_ok_parent: "vfs_ok v \<Longrightarrow> n < next_node v \<Longrightarrow> v_parent (nd v n) = Some p \<Longrightarrow> p < n \<and> n \<in> set (v_children (nd v p)) \<and> v_type (nd v p) = VFS_NODE_DIR"
proof -
  assume ok: "vfs_ok v" and n: "n < next_node v" and p: "v_parent (nd v n) = Some p"
  have pn: "p < n" using vfs_ok_node[OF ok n] p by (simp add: node_ok_def)
  then have k: "node_ok v p" using vfs_ok_node[OF ok] n by simp
  then have c: "n \<in> set (v_children (nd v p))" using n p unfolding node_ok_def by blast
  then have "v_children (nd v p) \<noteq> []" by auto
  then show ?thesis using k pn c unfolding node_ok_def by blast
qed

lemma upd_node_simps [simp]:
  "nd (upd_node n f v) m = (if m = n then f (nd v n) else nd v m)" "next_node (upd_node n f v) = next_node v"
  "root_node (upd_node n f v) = root_node v"
  by (simp_all add: upd_node_def)

section \<open>Operations keep trees well-formed\<close>

text \<open>A new node, given its fields by \<open>f\<close> and linked below \<open>p\<close>.\<close>

lemma new_node_ok:
  assumes ok: "vfs_ok v" and p: "p < next_node v" and a: "alloc_node v = (Some node, v1)"
    and f: "length (v_name (f (nd v1 node))) \<le> VFS_MAX_NAME" "v_children (f (nd v1 node)) = []" "v_parent (f (nd v1 node)) = None"
      "v_type (f (nd v1 node)) = VFS_NODE_MOUNT \<longleftrightarrow> v_fs_ops (f (nd v1 node)) \<noteq> None"
    and r: "add_child p node (upd_node node f v1) = (r, v3)"
  shows "vfs_ok v3 \<and> node < next_node v3"
proof -
  have n: "node = next_node v" "next_node v < VFS_MAX_NODES" "next_node v1 = Suc node" "root_node v1 = root_node v"
    "m \<noteq> node \<Longrightarrow> nd v1 m = nd v m" for m
    using a by (auto simp: alloc_node_def split: if_splits)
  let ?v2 = "upd_node node f v1"
  have pn: "p \<noteq> node" using p n(1) by simp
  have q: "v_type (nd ?v2 p) = v_type (nd v p)" "v_children (nd ?v2 p) = v_children (nd v p)" using pn n(5)[OF pn] by simp_all
  have ok2: "vfs_ok ?v2"
  proof -
    have "node_ok ?v2 m" if m: "m < Suc node" for m
    proof (cases "m = node")
      case True
      have "v_parent (nd v c) \<noteq> Some node" if "c < node" for c using ok vfs_ok_parent[OF ok, of c node] that n(1) by auto
      then show ?thesis using True f n by (auto simp: node_ok_def less_Suc_eq)
    next
      case False
      then have "node_ok v m" using ok m n(1) by (simp add: vfs_ok_def)
      then show ?thesis using False f(3) n by (auto simp: node_ok_def less_Suc_eq)
    qed
    then show ?thesis using ok n f by (auto simp: vfs_ok_def)
  qed
  show ?thesis
  proof (cases "v_type (nd v p) = VFS_NODE_DIR \<and> length (v_children (nd v p)) < VFS_MAX_CHILDREN")
    case False
    then have "add_child p node ?v2 = (-1, ?v2)" using q unfolding add_child_def q by auto
    then have "v3 = ?v2" using r by simp
    then show ?thesis using ok2 n(3) by simp
  next
    case True
    have v3: "v3 = upd_node node (\<lambda>x. x\<lparr>v_parent := Some p\<rparr>) (upd_node p (\<lambda>x. x\<lparr>v_children := v_children x @ [node]\<rparr>) ?v2)"
      using r True unfolding add_child_def q by simp
    have nn: "node \<notin> set (v_children (nd v p))" using vfs_ok_child[OF ok p, of node] n(1) by auto
    have nx: "next_node v3 = Suc node" "root_node v3 = Some 0" using n ok by (simp_all add: v3 vfs_ok_def)
    have fl: "v_parent (nd v3 m) = (if m = node then Some p else v_parent (nd v m))"
      "v_children (nd v3 m) = (if m = node then [] else if m = p then v_children (nd v p) @ [node] else v_children (nd v m))"
      "v_type (nd v3 m) = (if m = node then v_type (f (nd v1 node)) else v_type (nd v m))"
      "v_fs_ops (nd v3 m) = (if m = node then v_fs_ops (f (nd v1 node)) else v_fs_ops (nd v m))"
      "v_name (nd v3 m) = (if m = node then v_name (f (nd v1 node)) else v_name (nd v m))" for m
      using pn n(5)[of p] n(5)[of m] f by (simp_all add: v3)
    have old: "v_parent (nd v c) = Some m \<Longrightarrow> c < node \<Longrightarrow> m < node" for c m using vfs_ok_parent[OF ok, of c m] n(1) by simp
    have "node_ok v3 m" if m: "m < Suc node" for m
    proof (cases "m = node")
      case True
      then show ?thesis using f pn p old[of _ node] unfolding node_ok_def fl nx by (auto simp: less_Suc_eq n(1))
    next
      case False
      then have "node_ok v m" using ok m n(1) by (simp add: vfs_ok_node)
      note k = this[unfolded node_ok_def]
      have "c \<in> set (v_children (nd v3 m)) \<longleftrightarrow> c < next_node v3 \<and> v_parent (nd v3 c) = Some m" for c
        using k False unfolding fl nx by (auto simp: less_Suc_eq n(1))
      moreover have "distinct (v_children (nd v3 m)) \<and> length (v_children (nd v3 m)) \<le> VFS_MAX_CHILDREN"
        using k False True nn unfolding fl by auto
      moreover have "v_type (nd v3 m) \<noteq> VFS_NODE_DIR \<longrightarrow> v_children (nd v3 m) = []" using k False True unfolding fl by auto
      ultimately show ?thesis using k False unfolding node_ok_def fl(1,3,4,5) by simp
    qed
    moreover have "v_type (nd v3 0) = VFS_NODE_DIR" "v_parent (nd v3 0) = None" using ok n(1) unfolding fl by (simp_all add: vfs_ok_def)
    ultimately show ?thesis using n(2) nx by (simp add: vfs_ok_def n(1))
  qed
qed

lemma alloc_fresh:
  "alloc_node v = (Some node, v1) \<Longrightarrow> node = next_node v \<and>
     nd v1 node = \<lparr>v_name = [], v_type = VFS_NODE_DIR, v_read = None, v_read_ctx = 0, v_children = [], v_fs_ops = None, v_fs_ctx = 0, v_parent = None\<rparr>"
  by (auto simp: alloc_node_def split: if_splits)

lemma alloc_none: "alloc_node v = (None, v1) \<Longrightarrow> v1 = v"
  by (auto simp: alloc_node_def split: if_splits)

lemma copy_name_length [simp]: "length (copy_name s) \<le> VFS_MAX_NAME"
  by (simp add: copy_name_def)

definition valid_ptr :: "vfs \<Rightarrow> nat option \<Rightarrow> bool" where
  "valid_ptr v n \<longleftrightarrow> (case n of None \<Rightarrow> True | Some m \<Rightarrow> m < next_node v)"

lemma link_ok:
  assumes "vfs_ok v" "p < next_node v" and a: "alloc_node v = (Some node, v1)"
    and f: "length (v_name (f (nd v1 node))) \<le> VFS_MAX_NAME" "v_children (f (nd v1 node)) = []" "v_parent (f (nd v1 node)) = None"
      "v_type (f (nd v1 node)) = VFS_NODE_MOUNT \<longleftrightarrow> v_fs_ops (f (nd v1 node)) \<noteq> None"
    and res: "res = (case add_child p node (upd_node node f v1) of (r, v3) \<Rightarrow> (if r < 0 then None else Some node, v3))"
  shows "vfs_ok (snd res) \<and> valid_ptr (snd res) (fst res)"
proof -
  obtain r v3 where r: "add_child p node (upd_node node f v1) = (r, v3)" by (cases "add_child p node (upd_node node f v1)")
  show ?thesis using new_node_ok[OF assms(1,2) a f r] by (simp add: res r valid_ptr_def)
qed

lemma new_cases:
  obtains (null) "parent = None" | (no_dir) p where "parent = Some p" "v_type (nd v p) \<noteq> VFS_NODE_DIR"
  | (full) p where "parent = Some p" "v_type (nd v p) = VFS_NODE_DIR" "alloc_node v = (None, v)"
  | (new) p node v1 where "parent = Some p" "v_type (nd v p) = VFS_NODE_DIR" "alloc_node v = (Some node, v1)"
proof -
  obtain r v1 where a: "alloc_node v = (r, v1)" by (cases "alloc_node v")
  show thesis
  proof (cases parent)
    case (Some p)
    show thesis
    proof (cases r)
      case None
      then have "alloc_node v = (None, v)" using a alloc_none by simp
      then show thesis using Some that(2,3) by blast
    next
      case (Some node)
      then show thesis using \<open>parent = Some p\<close> a that(2,4) by blast
    qed
  qed (rule that(1))
qed

lemma create_file_ok:
  assumes ok: "vfs_ok v" and p: "valid_ptr v parent" and res: "res = vfs_create_file parent name read ctx v"
  shows "vfs_ok (snd res) \<and> valid_ptr (snd res) (fst res)"
proof (cases rule: new_cases[where parent = parent and v = v])
  case (new p' node v1)
  note fr = conjunct2[OF alloc_fresh[OF new(3)]]
  show ?thesis by (rule link_ok[OF ok _ new(3)]) (use new p fr in \<open>simp_all add: res vfs_create_file_def valid_ptr_def Let_def\<close>)
qed (use ok in \<open>simp_all add: res vfs_create_file_def valid_ptr_def\<close>)

lemma create_dir_ok:
  assumes ok: "vfs_ok v" and p: "valid_ptr v parent" and res: "res = vfs_create_dir parent name v"
  shows "vfs_ok (snd res) \<and> valid_ptr (snd res) (fst res)"
proof (cases rule: new_cases[where parent = parent and v = v])
  case (new p' node v1)
  note fr = conjunct2[OF alloc_fresh[OF new(3)]]
  show ?thesis by (rule link_ok[OF ok _ new(3)]) (use new p fr in \<open>simp_all add: res vfs_create_dir_def valid_ptr_def Let_def\<close>)
qed (use ok in \<open>simp_all add: res vfs_create_dir_def valid_ptr_def\<close>)

text \<open>Lookups stay inside the pool.\<close>

lemma find_name_member: "find_name v name cs = Some (Some c) \<Longrightarrow> c \<in> set cs \<and> v_name (nd v c) = name"
  by (induction cs) (auto simp: same_name_def split: option.splits bool.splits if_splits)

lemma find_child_valid: "vfs_ok v \<Longrightarrow> n < next_node v \<Longrightarrow> find_child v n name = Some (Some c) \<Longrightarrow> c < next_node v \<and> v_parent (nd v c) = Some n \<and> v_name (nd v c) = name"
  using find_name_member[of v name "v_children (nd v n)" c] vfs_ok_child[of v n c] by (auto simp: find_child_def split: if_splits)

lemma lookup_from_valid: "vfs_ok v \<Longrightarrow> n < next_node v \<Longrightarrow> lookup_from v n p = Some (Some c) \<Longrightarrow> c < next_node v"
proof (induction v n p rule: lookup_from.induct)
  case (1 v n p)
  show ?case
  proof (cases "skip_slashes p")
    case Nil
    then show ?thesis using "1.prems" by (simp add: lookup_from.simps)
  next
    case (Cons a q)
    then obtain child where c: "find_child v n (next_component (a # q)) = Some (Some child)"
      "lookup_from v child (drop (length (next_component (a # q))) (a # q)) = Some (Some c)"
      using "1.prems"(3) by (subst (asm) lookup_from.simps) (auto split: option.splits)
    then show ?thesis using "1.IH"[OF Cons c(1) refl "1.prems"(1)] find_child_valid[OF "1.prems"(1,2) c(1)] by simp
  qed
qed

lemma vfs_ok_root: "vfs_ok v \<Longrightarrow> root_node v = Some 0 \<and> 0 < next_node v \<and> v_parent (nd v 0) = None \<and> v_type (nd v 0) = VFS_NODE_DIR"
  by (simp add: vfs_ok_def)

lemma lookup_valid: "vfs_ok v \<Longrightarrow> vfs_lookup path v = Some n \<Longrightarrow> valid_ptr v n"
  using lookup_from_valid[of v 0] vfs_ok_root[of v]
  by (auto simp: vfs_lookup_def valid_ptr_def split: option.splits if_splits)

lemma retype_ok:
  assumes ok: "vfs_ok v" and n: "n < next_node v" "n \<noteq> 0" "v_children (nd v n) = []" and t: "t = VFS_NODE_MOUNT \<longleftrightarrow> ops \<noteq> None"
  shows "vfs_ok (upd_node n (\<lambda>x. x\<lparr>v_type := t, v_fs_ops := ops, v_fs_ctx := ctx\<rparr>) v)"
proof -
  let ?v = "upd_node n (\<lambda>x. x\<lparr>v_type := t, v_fs_ops := ops, v_fs_ctx := ctx\<rparr>) v"
  have par: "v_parent (nd ?v m) = v_parent (nd v m)" "v_children (nd ?v m) = v_children (nd v m)" "v_name (nd ?v m) = v_name (nd v m)" for m by simp_all
  have "node_ok ?v m" if "m < next_node v" for m
    using vfs_ok_node[OF ok that] n(3) t unfolding node_ok_def par by simp
  then show ?thesis using ok n by (simp add: vfs_ok_def)
qed

lemma mount_parent_ok:
  assumes ok: "vfs_ok v" and m: "mount_parent path v = Some (r, v')"
  shows "vfs_ok v' \<and> valid_ptr v' r"
proof -
  note root = vfs_ok_root[OF ok]
  let ?c = "next_component (tl path)"
  have cd: "vfs_ok (snd (vfs_create_dir (Some 0) ?c v)) \<and> valid_ptr (snd (vfs_create_dir (Some 0) ?c v)) (fst (vfs_create_dir (Some 0) ?c v))"
    by (rule create_dir_ok[OF ok _ refl]) (simp add: valid_ptr_def root)
  show ?thesis using m cd ok find_child_valid[OF ok, of 0 ?c] root
    by (auto simp: mount_parent_def Let_def valid_ptr_def split: if_splits option.splits)
qed

lemma mount_in_ok:
  assumes ok: "vfs_ok v" and p: "p < next_node v" and m: "mount_in p name ops ctx v = Some (r, v')"
  shows "vfs_ok v' \<and> valid_ptr v' r"
proof (cases "v_type (nd v p) = VFS_NODE_DIR")
  case True
  obtain fc where fc: "find_child v p name = Some fc" using m True by (auto simp: mount_in_def split: option.splits)
  show ?thesis
  proof (cases fc)
    case (Some ex)
    have e: "ex < next_node v" "ex \<noteq> 0" using find_child_valid[OF ok p, of name ex] fc Some vfs_ok_root[OF ok] by (cases "ex = 0", simp_all)+
    have "v_children (nd v ex) = [] \<Longrightarrow> vfs_ok (upd_node ex (\<lambda>x. x\<lparr>v_type := VFS_NODE_MOUNT, v_fs_ops := Some ops, v_fs_ctx := ctx\<rparr>) v)"
      by (rule retype_ok[OF ok e]) simp_all
    then show ?thesis using m True fc Some ok e by (auto simp: mount_in_def valid_ptr_def split: if_splits)
  next
    case None
    show ?thesis
    proof (cases rule: new_cases[where parent = "Some p" and v = v])
      case (new p' node v1)
      note fr = conjunct2[OF alloc_fresh[OF new(3)]]
      have "vfs_ok (snd (r, v')) \<and> valid_ptr (snd (r, v')) (fst (r, v'))"
        by (rule link_ok[OF ok p new(3), where f = "\<lambda>x. x\<lparr>v_name := copy_name name, v_type := VFS_NODE_MOUNT, v_fs_ops := Some ops, v_fs_ctx := ctx\<rparr>"])
          (use new m fc None True fr in \<open>auto simp: mount_in_def Let_def split: prod.splits\<close>)
      then show ?thesis by simp
    qed (use m ok fc None True in \<open>auto simp: mount_in_def valid_ptr_def\<close>)
  qed
qed (use m ok in \<open>simp add: mount_in_def valid_ptr_def\<close>)

lemma mount_ok:
  assumes ok: "vfs_ok v" and m: "vfs_mount path ops ctx v = Some (r, v')"
  shows "vfs_ok v' \<and> valid_ptr v' r"
proof (cases "r = None \<and> v' = v")
  case False
  then obtain p fs where p: "path = Some p" "ops = Some fs" "\<not> (p = [] \<or> hd p \<noteq> SLASH)" "last_slash 0 0 p < VFS_MAX_PATH"
    using m by (auto simp: vfs_mount_def Let_def split: option.splits if_splits)
  define pp where "pp = (if last_slash 0 0 p = 0 then [SLASH] else take (last_slash 0 0 p) p)"
  define nm where "nm = copy_name (drop (last_slash 0 0 p + 1) p)"
  have "vfs_mount path ops ctx v = do {
      found \<leftarrow> vfs_lookup (Some pp) v;
      (parent, v1) \<leftarrow> (case found of None \<Rightarrow> mount_parent pp v | Some n \<Rightarrow> Some (Some n, v));
      (case parent of None \<Rightarrow> Some (None, v1) | Some n \<Rightarrow> mount_in n nm fs ctx v1) }"
    unfolding vfs_mount_def pp_def nm_def Let_def using p by simp
  from m[unfolded this] obtain found parent v1 where f: "vfs_lookup (Some pp) v = Some found"
    "(case found of None \<Rightarrow> mount_parent pp v | Some n \<Rightarrow> Some (Some n, v)) = Some (parent, v1)"
    "(case parent of None \<Rightarrow> Some (None, v1) | Some n \<Rightarrow> mount_in n nm fs ctx v1) = Some (r, v')"
    by (auto simp: bind_eq_Some_conv)
  have "vfs_ok v1 \<and> valid_ptr v1 parent"
    using f(2) ok lookup_valid[OF ok f(1)] mount_parent_ok[OF ok] by (cases found) auto
  then show ?thesis using f(3) mount_in_ok by (cases parent) (auto simp: valid_ptr_def)
qed (use ok in \<open>simp add: valid_ptr_def\<close>)

lemma unmount_ok: "vfs_ok v \<Longrightarrow> valid_ptr v mnt \<Longrightarrow> vfs_ok (snd (vfs_unmount mnt v))"
proof -
  assume ok: "vfs_ok v" and p: "valid_ptr v mnt"
  have "vfs_ok (upd_node n (\<lambda>x. x\<lparr>v_type := VFS_NODE_DIR, v_fs_ops := None, v_fs_ctx := 0\<rparr>) v)"
    if n: "n < next_node v" "v_type (nd v n) = VFS_NODE_MOUNT" for n
  proof (rule retype_ok[OF ok n(1)])
    show "n \<noteq> 0" using n(2) vfs_ok_root[OF ok] by (cases "n = 0") simp_all
    show "v_children (nd v n) = []" using n(2) vfs_ok_node[OF ok n(1)] by (simp add: node_ok_def)
  qed simp
  then show ?thesis using ok p by (cases mnt) (simp_all add: vfs_unmount_def valid_ptr_def)
qed

section \<open>Reachable trees\<close>

lemma vfs_create_mono:
  "next_node v \<le> next_node (snd (vfs_create_dir parent name v))" "next_node v \<le> next_node (snd (vfs_create_file parent name read ctx v))"
  by (auto simp: vfs_create_dir_def vfs_create_file_def alloc_node_def add_child_def Let_def split: option.split prod.split)

lemma vfs_ok_mounts [simp]:
  "vfs_ok (v\<lparr>sys_node := x\<rparr>) = vfs_ok v" "vfs_ok (v\<lparr>proc_node := x\<rparr>) = vfs_ok v" "vfs_ok (v\<lparr>components_node := x\<rparr>) = vfs_ok v"
  "valid_ptr (v\<lparr>sys_node := x\<rparr>) n = valid_ptr v n" "valid_ptr (v\<lparr>proc_node := x\<rparr>) n = valid_ptr v n"
  by (simp_all add: vfs_ok_def node_ok_def valid_ptr_def split: option.split)

inductive vfs_step :: "vfs \<Rightarrow> vfs \<Rightarrow> bool" where
  new_file: "valid_ptr v parent \<Longrightarrow> vfs_step v (snd (vfs_create_file parent name read ctx v))"
| new_dir: "valid_ptr v parent \<Longrightarrow> vfs_step v (snd (vfs_create_dir parent name v))"
| mount: "vfs_mount path ops ctx v = Some (r, v') \<Longrightarrow> vfs_step v v'"
| unmount: "valid_ptr v mnt \<Longrightarrow> vfs_step v (snd (vfs_unmount mnt v))"

inductive vfs_reachable :: "vfs \<Rightarrow> bool" where
  init: "next_node v0 = 0 \<Longrightarrow> vfs_init v0 = Some v \<Longrightarrow> vfs_reachable v"
| step: "vfs_reachable v \<Longrightarrow> vfs_step v v' \<Longrightarrow> vfs_reachable v'"

lemma vfs_step_ok: "vfs_step v v' \<Longrightarrow> vfs_ok v \<Longrightarrow> vfs_ok v'"
proof (induction rule: vfs_step.induct)
  case (new_file v parent name read ctx)
  then show ?case using create_file_ok[OF _ _ refl] by blast
next
  case (new_dir v parent name)
  then show ?case using create_dir_ok[OF _ _ refl] by blast
next
  case (mount path ops ctx v r v')
  then show ?case using mount_ok[OF mount.prems mount.hyps] by simp
next
  case (unmount v mnt)
  then show ?case by (simp add: unmount_ok)
qed

text \<open>What is left below a node that was valid once is still valid after further files are created.\<close>

lemma files_ok:
  assumes "vfs_ok v" "valid_ptr v parent"
  shows "vfs_ok (snd (vfs_create_file parent name read ctx v)) \<and> valid_ptr (snd (vfs_create_file parent name read ctx v)) parent"
  using create_file_ok[OF assms refl] vfs_create_mono(2)[of v parent name read ctx] assms(2)
  by (auto simp: valid_ptr_def split: option.splits)

lemma root_dir_ok:
  assumes "vfs_ok v" "vfs_create_dir (Some 0) name v = (r, v')"
  shows "vfs_ok v'" "valid_ptr v' r"
  using create_dir_ok[OF assms(1) _ assms(2)[symmetric]] vfs_ok_root[OF assms(1)] by (simp_all add: valid_ptr_def)

lemma vfs_init_ok:
  assumes n: "next_node v0 = 0" and i: "vfs_init v0 = Some v"
  shows "vfs_ok v"
proof -
  let ?v2 = "upd_node 0 (\<lambda>x. x\<lparr>v_name := copy_name [SLASH], v_type := VFS_NODE_DIR\<rparr>) ((snd (alloc_node v0))\<lparr>root_node := Some 0\<rparr>)"
  let ?file = "\<lambda>parent name read v. snd (vfs_create_file parent name (Some read) 0 v)"
  have a: "alloc_node v0 = (Some 0, snd (alloc_node v0))" using n by (simp add: alloc_node_def)
  have ok2: "vfs_ok ?v2" using n by (simp add: vfs_ok_def node_ok_def alloc_node_def upd_node_def copy_name_def)
  obtain sys v3 where s: "vfs_create_dir (Some 0) ''sys'' ?v2 = (sys, v3)" by (cases "vfs_create_dir (Some 0) ''sys'' ?v2")
  define v4 where "v4 = ?file sys ''model'' read_sys_model (?file sys ''ipc'' read_sys_ipc (?file sys ''version'' read_sys_version
    (?file sys ''cpus'' read_sys_cpus (?file sys ''uptime'' read_sys_uptime (?file sys ''memory'' read_sys_memory (v3\<lparr>sys_node := sys\<rparr>))))))"
  have keep: "vfs_ok u \<and> valid_ptr u q \<Longrightarrow> vfs_ok (?file q name read u) \<and> valid_ptr (?file q name read u) q" for u q name read
    by (simp add: files_ok)
  have v4: "vfs_ok v4 \<and> valid_ptr v4 sys"
    unfolding v4_def by (intro keep) (simp add: root_dir_ok[OF ok2 s])
  obtain proc v5 where p: "vfs_create_dir (Some 0) ''proc'' v4 = (proc, v5)" by (cases "vfs_create_dir (Some 0) ''proc'' v4")
  define v6 where "v6 = ?file proc ''self'' read_proc_self (?file proc ''tasks'' read_proc_tasks (v5\<lparr>proc_node := proc\<rparr>))"
  have "vfs_ok v6 \<and> valid_ptr v6 proc"
    unfolding v6_def by (intro keep) (simp add: root_dir_ok[OF conjunct1[OF v4] p])
  moreover obtain comps v7 where c: "vfs_create_dir (Some 0) ''components'' v6 = (comps, v7)" by (cases "vfs_create_dir (Some 0) ''components'' v6")
  moreover have "vfs_init v0 = Some (v7\<lparr>components_node := comps\<rparr>)"
    unfolding vfs_init_def by (subst a) (simp only: prod.case option.case Let_def s v4_def[symmetric] p v6_def[symmetric] c)
  ultimately show ?thesis using i root_dir_ok[OF _ c] by auto
qed

lemma vfs_reachable_ok: "vfs_reachable v \<Longrightarrow> vfs_ok v"
  by (induction rule: vfs_reachable.induct) (auto intro: vfs_init_ok vfs_step_ok)

end
