(* ===== verification/VfsProps.thy ===== *)
theory VfsProps
  imports VfsTree
begin

text \<open>
  Properties of the virtual filesystem: the shape of the tree, the round trip between nodes and paths, what a read of
  a virtual file writes and returns, and where a mount ends up.
\<close>

section \<open>Paths\<close>

function full_path :: "vfs \<Rightarrow> nat \<Rightarrow> string" where
  "full_path v n = (case v_parent (nd v n) of None \<Rightarrow> [] | Some p \<Rightarrow> if p < n then full_path v p @ SLASH # v_name (nd v n) else [])"
  by pat_completeness auto
termination
  by (relation "measure snd") auto

function in_tree :: "vfs \<Rightarrow> nat \<Rightarrow> bool" where
  "in_tree v n = (case v_parent (nd v n) of None \<Rightarrow> root_node v = Some n | Some p \<Rightarrow> if p < n then in_tree v p else False)"
  by pat_completeness auto
termination
  by (relation "measure snd") auto

declare full_path.simps [simp del] in_tree.simps [simp del]

text \<open>Names that a path can spell, and that tell siblings apart.\<close>

definition name_ok :: "string \<Rightarrow> bool" where
  "name_ok s \<longleftrightarrow> s \<noteq> [] \<and> SLASH \<notin> set s \<and> length s < VFS_MAX_NAME"

definition well_named :: "vfs \<Rightarrow> bool" where
  "well_named v \<longleftrightarrow> (\<forall>n < next_node v. (v_parent (nd v n) \<noteq> None \<longrightarrow> name_ok (v_name (nd v n))) \<and> distinct (map (\<lambda>c. v_name (nd v c)) (v_children (nd v n))))"

lemma well_named_dest:
  "well_named v \<Longrightarrow> n < next_node v \<Longrightarrow> v_parent (nd v n) = Some p \<Longrightarrow> name_ok (v_name (nd v n))"
  "well_named v \<Longrightarrow> n < next_node v \<Longrightarrow> distinct (map (\<lambda>c. v_name (nd v c)) (v_children (nd v n)))"
  by (auto simp: well_named_def)

lemma find_name_self:
  "c \<in> set cs \<Longrightarrow> distinct (map (\<lambda>c. v_name (nd v c)) cs) \<Longrightarrow> length (v_name (nd v c)) < VFS_MAX_NAME \<Longrightarrow>
     find_name v (v_name (nd v c)) cs = Some (Some c)"
proof (induction cs)
  case (Cons a cs)
  then show ?case by (cases "a = c") (auto simp: same_name_def split: bool.split)
qed simp

lemma next_component_name: "name_ok s \<Longrightarrow> q = [] \<or> hd q = SLASH \<Longrightarrow> next_component (s @ q) = s \<and> skip_slashes (SLASH # s @ q) = s @ q"
proof -
  assume s: "name_ok s" and q: "q = [] \<or> hd q = SLASH"
  have "takeWhile (\<lambda>c. c \<noteq> SLASH) (s @ q) = s" using s q by (cases q) (auto simp: name_ok_def takeWhile_append)
  moreover have "skip_slashes (s @ q) = s @ q" using s by (cases s) (auto simp: name_ok_def skip_slashes_def)
  ultimately show ?thesis using s by (simp add: next_component_def name_ok_def skip_slashes_def)
qed

lemma lookup_child:
  assumes ok: "vfs_ok v" and w: "well_named v" and n: "n < next_node v" and p: "v_parent (nd v n) = Some p" and q: "q = [] \<or> hd q = SLASH"
  shows "lookup_from v p (SLASH # v_name (nd v n) @ q) = lookup_from v n q"
proof -
  let ?s = "v_name (nd v n)"
  note par = vfs_ok_parent[OF ok n p] and nk = well_named_dest(1)[OF w n p]
  have pn: "p < next_node v" using par n by simp
  have f: "find_child v p ?s = Some (Some n)"
    using find_name_self[of n "v_children (nd v p)" v] par nk well_named_dest(2)[OF w pn] by (simp add: find_child_def name_ok_def)
  note c = next_component_name[OF nk q]
  obtain a r where ar: "?s @ q = a # r" using nk by (cases ?s) (auto simp: name_ok_def)
  have "lookup_from v p (SLASH # ?s @ q) = lookup_from v n (drop (length ?s) (?s @ q))"
    by (subst lookup_from.simps) (use c f ar in simp)
  then show ?thesis by simp
qed

lemma lookup_full_path:
  "vfs_ok v \<Longrightarrow> well_named v \<Longrightarrow> n < next_node v \<Longrightarrow> in_tree v n \<Longrightarrow> q = [] \<or> hd q = SLASH \<Longrightarrow>
     lookup_from v 0 (full_path v n @ q) = lookup_from v n q"
proof (induction n arbitrary: q rule: less_induct)
  case (less n)
  show ?case
  proof (cases "v_parent (nd v n)")
    case None
    then have "n = 0" using less.prems(4) vfs_ok_root[OF less.prems(1)] by (simp add: in_tree.simps[of v n])
    then show ?thesis using None by (simp add: full_path.simps[of v 0])
  next
    case (Some p)
    have p: "p < n" "in_tree v p" using less.prems(4) Some by (simp_all add: in_tree.simps[of v n] split: if_splits)
    have "lookup_from v 0 (full_path v n @ q) = lookup_from v 0 (full_path v p @ SLASH # v_name (nd v n) @ q)"
      using Some p by (simp add: full_path.simps[of v n])
    also have "\<dots> = lookup_from v p (SLASH # v_name (nd v n) @ q)" using less.IH[OF p(1)] less.prems p by simp
    also have "\<dots> = lookup_from v n q" by (rule lookup_child) (use less.prems Some in simp_all)
    finally show ?thesis .
  qed
qed

lemma path_up_full:
  "vfs_ok v \<Longrightarrow> well_named v \<Longrightarrow> n < next_node v \<Longrightarrow> length (full_path v n) \<le> pos \<Longrightarrow>
     path_up v n pos acc = Some (Some (full_path v n @ acc))"
proof (induction n arbitrary: pos acc rule: less_induct)
  case (less n)
  show ?case
  proof (cases "v_parent (nd v n)")
    case None
    then show ?thesis by (simp add: full_path.simps[of v n] path_up.simps[of v n])
  next
    case (Some p)
    have p: "p < n" using vfs_ok_parent[OF less.prems(1,3) Some] by simp
    have nk: "name_ok (v_name (nd v n))" by (rule well_named_dest(1)[OF less.prems(2,3) Some])
    have f: "full_path v n = full_path v p @ SLASH # v_name (nd v n)" using Some p by (simp add: full_path.simps[of v n])
    then show ?thesis using less.IH[OF p less.prems(1,2)] less.prems(3,4) p nk Some
      by (subst path_up.simps) (simp add: name_ok_def)
  qed
qed

lemma lookup_from_slash: "lookup_from v n (SLASH # p) = lookup_from v n p"
  by (subst (1 2) lookup_from.simps) (simp add: skip_slashes_def)

lemma full_path_head: "in_tree v n \<Longrightarrow> v_parent (nd v n) \<noteq> None \<Longrightarrow> \<exists>r. full_path v n = SLASH # r"
proof (induction n rule: less_induct)
  case (less n)
  then obtain p where p: "v_parent (nd v n) = Some p" "p < n" "in_tree v p" by (auto simp: in_tree.simps[of v n] split: if_splits)
  show ?case
  proof (cases "v_parent (nd v p)")
    case None
    then show ?thesis using p by (simp add: full_path.simps[of v n] full_path.simps[of v p])
  next
    case (Some r)
    then obtain q where "full_path v p = SLASH # q" using less.IH[OF p(2,3)] by blast
    then show ?thesis using p by (simp add: full_path.simps[of v n])
  qed
qed

lemma lookup_path:
  assumes "vfs_ok v" "well_named v" "n < next_node v" "in_tree v n" "v_parent (nd v n) = Some p"
  shows "vfs_lookup (Some (full_path v n)) v = Some (Some n)"
proof -
  obtain r where r: "full_path v n = SLASH # r" using full_path_head assms(4,5) by blast
  have nk: "name_ok (v_name (nd v n))" by (rule well_named_dest(1)[OF assms(2,3,5)])
  have "p < n" using vfs_ok_parent[OF assms(1,3,5)] by simp
  then have "last (full_path v n) = last (v_name (nd v n))" using assms(5) nk by (simp add: full_path.simps[of v n] name_ok_def)
  moreover have "last (v_name (nd v n)) \<noteq> SLASH" using nk last_in_set unfolding name_ok_def by metis
  ultimately have ne: "full_path v n \<noteq> [SLASH]" "full_path v n \<noteq> [SLASH, SLASH]" by auto
  have "lookup_from v 0 r = lookup_from v 0 (full_path v n @ [])" by (simp add: r lookup_from_slash)
  also have "\<dots> = Some (Some n)" using lookup_full_path[OF assms(1-4), of "[]"] by (simp add: lookup_from.simps[of v n] skip_slashes_def)
  finally show ?thesis using r ne vfs_ok_root[OF assms(1)] by (simp add: vfs_lookup_def)
qed

text \<open>What creation does when the pool and the directory have room.\<close>

lemma create_file_room:
  assumes "v_type (node_pool v p) = VFS_NODE_DIR" "next_node v < VFS_MAX_NODES" "length (v_children (node_pool v p)) < VFS_MAX_CHILDREN" "p \<noteq> next_node v"
  shows "vfs_create_file (Some p) name read ctx v = (Some (next_node v), v\<lparr>node_pool := (node_pool v)(p := (node_pool v p)\<lparr>v_children := v_children (node_pool v p) @ [next_node v]\<rparr>,
     next_node v := \<lparr>v_name = copy_name name, v_type = VFS_NODE_FILE, v_read = read, v_read_ctx = ctx, v_children = [], v_fs_ops = None, v_fs_ctx = 0, v_parent = Some p\<rparr>),
     next_node := next_node v + 1\<rparr>)"
  using assms by (simp add: vfs_create_file_def alloc_node_def add_child_def upd_node_def Let_def fun_upd_twist)

lemma create_dir_room:
  assumes "v_type (node_pool v p) = VFS_NODE_DIR" "next_node v < VFS_MAX_NODES" "length (v_children (node_pool v p)) < VFS_MAX_CHILDREN" "p \<noteq> next_node v"
  shows "vfs_create_dir (Some p) name v = (Some (next_node v), v\<lparr>node_pool := (node_pool v)(p := (node_pool v p)\<lparr>v_children := v_children (node_pool v p) @ [next_node v]\<rparr>,
     next_node v := \<lparr>v_name = copy_name name, v_type = VFS_NODE_DIR, v_read = None, v_read_ctx = 0, v_children = [], v_fs_ops = None, v_fs_ctx = 0, v_parent = Some p\<rparr>),
     next_node := next_node v + 1\<rparr>)"
  using assms by (simp add: vfs_create_dir_def alloc_node_def add_child_def upd_node_def Let_def fun_upd_twist)

text \<open>The tree the kernel starts with.\<close>

definition empty_vfs :: vfs where
  "empty_vfs = \<lparr>node_pool = (\<lambda>_. \<lparr>v_name = [], v_type = VFS_NODE_FILE, v_read = None, v_read_ctx = 0, v_children = [], v_fs_ops = None, v_fs_ctx = 0, v_parent = None\<rparr>),
     next_node = 0, root_node = None, sys_node = None, proc_node = None, components_node = None\<rparr>"

definition boot_vfs :: vfs where
  "boot_vfs = the (vfs_init empty_vfs)"

lemma boot_init: "vfs_init empty_vfs = Some boot_vfs"
proof -
  have "vfs_init empty_vfs \<noteq> None" by (simp add: vfs_init_def empty_vfs_def alloc_node_def Let_def split: prod.split)
  then show ?thesis by (simp add: boot_vfs_def)
qed

lemma boot_reachable: "vfs_reachable boot_vfs"
  by (rule vfs_reachable.init[OF _ boot_init]) (simp add: empty_vfs_def)

lemmas boot_eval = boot_vfs_def vfs_init_def empty_vfs_def alloc_node_def upd_node_def create_file_room create_dir_room copy_name_def

lemma boot_shape:
  "next_node boot_vfs = 12"
  "map (\<lambda>n. v_name (nd boot_vfs n)) [0, 1, 2, 3, 4, 5, 6, 7, 8, 9, 10, 11] =
     [[SLASH], ''sys'', ''memory'', ''uptime'', ''cpus'', ''version'', ''ipc'', ''model'', ''proc'', ''tasks'', ''self'', ''components'']"
  "map (\<lambda>n. v_parent (nd boot_vfs n)) [0, 1, 2, 3, 4, 5, 6, 7, 8, 9, 10, 11] = [None, Some 0, Some 1, Some 1, Some 1, Some 1, Some 1, Some 1, Some 0, Some 8, Some 8, Some 0]"
  "map (\<lambda>n. v_children (nd boot_vfs n)) [0, 1, 2, 3, 4, 5, 6, 7, 8, 9, 10, 11] = [[1, 8, 11], [2, 3, 4, 5, 6, 7], [], [], [], [], [], [], [9, 10], [], [], []]"
  by (simp_all add: boot_eval)

lemma boot_well_named: "well_named boot_vfs"
proof -
  have "list_all (\<lambda>n. (v_parent (nd boot_vfs n) \<noteq> None \<longrightarrow> name_ok (v_name (nd boot_vfs n))) \<and>
      distinct (map (\<lambda>c. v_name (nd boot_vfs c)) (v_children (nd boot_vfs n)))) [0, 1, 2, 3, 4, 5, 6, 7, 8, 9, 10, 11]"
    using boot_shape(2-4) by (simp add: name_ok_def)
  moreover have "n \<in> set [0, 1, 2, 3, 4, 5, 6, 7, 8, 9, 10, 11]" if "n < 12" for n :: nat using that by (auto simp: numeral_eq_Suc less_Suc_eq)
  ultimately show ?thesis unfolding well_named_def boot_shape(1) list_all_iff by blast
qed

section \<open>Shape and paths\<close>

text \<open>C38: whatever files, directories and mounts are created and removed after start-up, the nodes form a tree: the pool
  is not exceeded, the root is a directory without a parent, parents precede their children, child lists hold exactly
  the nodes that name the directory as their parent, without repetition and at most 16 of them, only directories have
  children, and a node has filesystem operations exactly when it is a mount point.\<close>

theorem vfs_tree_type:
  assumes "vfs_reachable v"
  shows "next_node v \<le> VFS_MAX_NODES \<and> root_node v = Some 0 \<and> v_type (nd v 0) = VFS_NODE_DIR \<and> v_parent (nd v 0) = None \<and>
    (\<forall>n < next_node v. length (v_name (nd v n)) \<le> VFS_MAX_NAME \<and> length (v_children (nd v n)) \<le> VFS_MAX_CHILDREN \<and> distinct (v_children (nd v n)) \<and>
       (\<forall>c. c \<in> set (v_children (nd v n)) \<longleftrightarrow> c < next_node v \<and> v_parent (nd v c) = Some n) \<and>
       (case v_parent (nd v n) of None \<Rightarrow> True | Some p \<Rightarrow> p < n \<and> v_type (nd v p) = VFS_NODE_DIR) \<and>
       (v_type (nd v n) = VFS_NODE_MOUNT \<longleftrightarrow> v_fs_ops (nd v n) \<noteq> None))"
proof -
  have ok: "vfs_ok v" by (rule vfs_reachable_ok[OF assms])
  have "case v_parent (nd v n) of None \<Rightarrow> True | Some p \<Rightarrow> p < n \<and> v_type (nd v p) = VFS_NODE_DIR" if "n < next_node v" for n
    using vfs_ok_parent[OF ok that] by (simp split: option.split)
  then show ?thesis using ok vfs_ok_node[OF ok] unfolding vfs_ok_def node_ok_def by blast
qed

theorem vfs_tree_type_witness: "vfs_reachable boot_vfs \<and> next_node boot_vfs = 12 \<and> v_type (nd boot_vfs 0) = VFS_NODE_DIR"
  using vfs_tree_type[OF boot_reachable] boot_reachable boot_shape(1) by blast

text \<open>C39: where names are ones a path can spell and siblings have different names, the path of a node fits a buffer that
  is longer than it, and looking that path up gives the node back.\<close>

theorem vfs_path_roundtrip:
  assumes "vfs_reachable v" "well_named v" "n < next_node v" "in_tree v n" "length (full_path v n) < sz" "length (full_path v n) < VFS_MAX_PATH" "2 \<le> sz"
  shows "\<exists>path. vfs_get_path (Some n) (Some bf) sz v = Some (Some path) \<and> vfs_lookup (Some path) v = Some (Some n)"
proof -
  have ok: "vfs_ok v" by (rule vfs_reachable_ok[OF assms(1)])
  have up: "path_up v n (VFS_MAX_PATH - 1) [] = Some (Some (full_path v n))" using path_up_full[OF ok assms(2,3), of 127 "[]"] assms(6) by simp
  show ?thesis
  proof (cases "v_parent (nd v n)")
    case None
    then have "n = 0" using assms(4) vfs_ok_root[OF ok] by (simp add: in_tree.simps[of v n])
    then show ?thesis using up assms(7) vfs_ok_root[OF ok] by (simp add: vfs_get_path_def vfs_lookup_def)
  next
    case (Some p)
    then have "root_node v \<noteq> Some n" using vfs_ok_root[OF ok] by (cases "n = 0") simp_all
    then show ?thesis using up assms(5,7) lookup_path[OF ok assms(2-4) Some] by (simp add: vfs_get_path_def)
  qed
qed

theorem vfs_path_roundtrip_witness: "\<exists>path. vfs_get_path (Some 9) (Some 0) 64 boot_vfs = Some (Some path) \<and> vfs_lookup (Some path) boot_vfs = Some (Some 9)"
proof -
  have par: "v_parent (nd boot_vfs 9) = Some 8" "v_parent (nd boot_vfs 8) = Some 0" "v_parent (nd boot_vfs 0) = None"
    and nm: "v_name (nd boot_vfs 9) = ''tasks''" "v_name (nd boot_vfs 8) = ''proc''"
    using boot_shape(2,3) by simp_all
  have r: "root_node boot_vfs = Some 0" using vfs_ok_root[OF vfs_reachable_ok[OF boot_reachable]] by simp
  have p: "full_path boot_vfs 9 = ''/proc/tasks''" "in_tree boot_vfs 9"
    using par nm r by (simp_all add: full_path.simps in_tree.simps)
  show ?thesis by (rule vfs_path_roundtrip[OF boot_reachable boot_well_named]) (simp_all add: boot_shape(1) p)
qed

section \<open>Reading a virtual file\<close>

text \<open>Memory after the text \<open>t\<close> was printed, in pieces, into the buffer at \<open>bf\<close>.\<close>

definition printed :: "nat \<Rightarrow> nat \<Rightarrow> string \<Rightarrow> char list \<Rightarrow> char list" where
  "printed bf sz t mem = (if t = [] then mem else take bf mem @ take (sz - 1) t @ [NUL] @ drop (bf + min (length t) (sz - 1) + 1) mem)"

lemma print_at_next:
  assumes r: "render False (sv_float sv) (fst line) (snd line) = Some s" and s: "s \<noteq> []" "length s \<le> INT_MAX"
    and m: "bf + sz \<le> length mem" and t: "length t < sz"
  shows "print_at sv bf sz line (length t, sz - length t, printed bf sz t mem) =
    Some (length (t @ s), sz - length (t @ s), printed bf sz (t @ s) mem)"
proof -
  let ?m = "printed bf sz t mem" and ?n = "length t"
  have len: "length ?m = length mem" using m t by (auto simp: printed_def)
  have tk: "take (bf + ?n) ?m = take bf mem @ t" using m t by (simp add: printed_def)
  have dr: "drop (bf + ?n + k + 1) ?m = drop (bf + ?n + k + 1) mem" for k
    using m t by (simp add: printed_def min_def ac_simps)
  have "uart_snprintf (sv_float sv) (Some (bf + ?n)) (sz - ?n) (fst line) (snd line) ?m =
      Some (int (length s), take (bf + ?n) ?m @ take (sz - ?n - 1) s @ [NUL] @ drop (bf + ?n + min (length s) (sz - ?n - 1) + 1) ?m)"
    by (rule snprintf_bounded[OF r]) (use t m s len in simp_all)
  also have "take (bf + ?n) ?m @ take (sz - ?n - 1) s @ [NUL] @ drop (bf + ?n + min (length s) (sz - ?n - 1) + 1) ?m = printed bf sz (t @ s) mem"
  proof -
    have e: "bf + ?n + min (length s) (sz - ?n - 1) + 1 = bf + min (length (t @ s)) (sz - 1) + 1" using t by simp
    have f: "take (sz - 1) (t @ s) = t @ take (sz - ?n - 1) s" using t by simp
    show ?thesis unfolding tk dr unfolding e printed_def f using s(1) by simp
  qed
  finally show ?thesis using s by (simp add: print_at_def)
qed

abbreviation decimal :: "nat \<Rightarrow> string" where
  "decimal n \<equiv> fmt_format_unsigned n 10 False"

definition task_text :: "sys_view \<Rightarrow> nat \<Rightarrow> string" where
  "task_text sv i =
     (let t = tcb (sv_sched sv) i
      in decimal (t_id t mod 2 ^ 64) @ '' '' @ sv_names sv i @ '' '' @ proc_state_name (t_state t) @ '' '' @
         decimal (effective_priority t mod 2 ^ 32) @ '' '' @ decimal (assigned_cpu t mod 2 ^ 64) @ [NL])"

lemma ucast_of_nat: "unat (ucast (of_nat n :: 64 word) :: 32 word) = n mod 4294967296"
  by (simp add: unsigned_ucast_eq unat_of_nat take_bit_eq_mod mod_mod_cancel)

lemma task_line_text: "render False (sv_float sv) (fst (task_line sv i)) (snd (task_line sv i)) = Some (task_text sv i)"
  by (simp add: task_line_def task_text_def Let_def parse_spec_def parse_precision_def parse_length_def is_digit_def spec_text_def
      unsigned_text_def string_text_def unsigned_arg_def justify_def crlf_text_def unat_of_nat ucast_of_nat)

lemma task_text_nonempty: "task_text sv i \<noteq> []"
  by (simp add: task_text_def Let_def)

definition task_live :: "sys_view \<Rightarrow> nat \<Rightarrow> bool" where
  "task_live sv i \<longleftrightarrow> t_id (tcb (sv_sched sv) i) \<noteq> 0 \<and> t_state (tcb (sv_sched sv) i) \<noteq> TASK_TERMINATED"

lemma print_tasks_live:
  "print_tasks sv bf sz (i # is) st = (if task_live sv i
     then do { (pos, remain, mem) \<leftarrow> print_at sv bf sz (task_line sv i) st;
               if remain = 0 then Some (int pos, mem) else print_tasks sv bf sz is (pos, remain, mem) }
     else print_tasks sv bf sz is st)"
  by (simp add: task_live_def Let_def)

definition live_tasks :: "sys_view \<Rightarrow> nat list" where
  "live_tasks sv = filter (task_live sv) [0..<64]"

lemma print_tasks_text:
  assumes m: "bf + sz \<le> length mem" and l: "\<forall>i \<in> set is. length (task_text sv i) \<le> INT_MAX" and t: "length t < sz"
  shows "\<exists>us vs. filter (task_live sv) is = us @ vs \<and>
    print_tasks sv bf sz is (length t, sz - length t, printed bf sz t mem) =
      Some (int (length (t @ concat (map (task_text sv) us))), printed bf sz (t @ concat (map (task_text sv) us)) mem) \<and>
    (vs \<noteq> [] \<longrightarrow> sz \<le> length (t @ concat (map (task_text sv) us)))"
  using l t
proof (induction "is" arbitrary: t)
  case (Cons i "is")
  show ?case
  proof (cases "task_live sv i")
    case True
    let ?t = "t @ task_text sv i"
    have p: "print_at sv bf sz (task_line sv i) (length t, sz - length t, printed bf sz t mem) = Some (length ?t, sz - length ?t, printed bf sz ?t mem)"
      by (rule print_at_next[OF task_line_text task_text_nonempty _ m Cons.prems(2)]) (use Cons.prems(1) in simp)
    show ?thesis
    proof (cases "sz - length ?t = 0")
      case False
      then obtain us vs where u: "filter (task_live sv) is = us @ vs"
        "print_tasks sv bf sz is (length ?t, sz - length ?t, printed bf sz ?t mem) =
          Some (int (length (?t @ concat (map (task_text sv) us))), printed bf sz (?t @ concat (map (task_text sv) us)) mem)"
        "vs \<noteq> [] \<longrightarrow> sz \<le> length (?t @ concat (map (task_text sv) us))"
        using Cons.IH[of ?t] Cons.prems(1) by auto
      then show ?thesis using True p False by (intro exI[of _ "i # us"] exI[of _ vs]) (simp add: print_tasks_live del: print_tasks.simps)
    next
      case full: True
      then have "print_tasks sv bf sz (i # is) (length t, sz - length t, printed bf sz t mem) = Some (int (length ?t), printed bf sz ?t mem)"
        using True p by (simp add: print_tasks_live del: print_tasks.simps)
      then show ?thesis using True full by (intro exI[of _ "[i]"] exI) auto
    qed
  next
    case False
    then show ?thesis using Cons.IH[of t] Cons.prems by (simp add: print_tasks_live del: print_tasks.simps)
  qed
qed simp

lemma task_text_short:
  assumes "length (sv_names sv i) < 16"
  shows "length (task_text sv i) \<le> 100"
proof -
  have d: "length (decimal v) \<le> 20" if "v < 18446744073709551616" for v using format_unsigned(2)[of 10 v False] that by simp
  have "length (proc_state_name (t_state (tcb (sv_sched sv) i))) \<le> 10" by (cases "t_state (tcb (sv_sched sv) i)") simp_all
  moreover note d[of "t_id (tcb (sv_sched sv) i) mod 18446744073709551616"] d[of "effective_priority (tcb (sv_sched sv) i) mod 4294967296"]
    d[of "assigned_cpu (tcb (sv_sched sv) i) mod 18446744073709551616"]
  moreover have "effective_priority (tcb (sv_sched sv) i) mod 4294967296 < 18446744073709551616"
    by (rule less_trans[OF mod_less_divisor]) simp_all
  ultimately show ?thesis using assms by (simp add: task_text_def Let_def)
qed

text \<open>C40: a read of \<open>/proc/tasks\<close> prints one line for each task in use, in the order of the table, until the buffer is full,
  and writes inside the buffer only; the value it returns is the length of the lines it printed, counted in full, so it
  is no smaller than the buffer when a task was left out.\<close>

theorem proc_tasks_read:
  assumes "0 < sz" "bf + sz \<le> length mem" "\<forall>i < 64. length (sv_names sv i) < 16"
  shows "\<exists>us vs. live_tasks sv = us @ vs \<and>
    read_proc_tasks sv bf sz ctx mem =
      Some (int (length (concat (map (task_text sv) us))), printed bf sz (concat (map (task_text sv) us)) mem) \<and>
    (vs \<noteq> [] \<longrightarrow> sz \<le> length (concat (map (task_text sv) us)))"
proof -
  have "length (task_text sv i) \<le> INT_MAX" if "i < 64" for i using task_text_short[of sv i] assms(3) that by force
  then have "\<forall>i \<in> set [0..<64]. length (task_text sv i) \<le> INT_MAX" by simp
  from print_tasks_text[OF assms(2) this, of "[]"] show ?thesis
    using assms(1) unfolding read_proc_tasks_def live_tasks_def by (simp add: printed_def)
qed

definition demo_view :: sys_view where
  "demo_view = \<lparr>sv_total_pages = 0, sv_free_pages = 0, sv_timer_count = 0, sv_timer_freq = 0, sv_cpu_count = 1, sv_cpus_online = 1, sv_version = [], sv_build_stamp = [], sv_build_sha = [],
     sv_queues = 0, sv_buffers = 0, sv_sent = 0, sv_recv = 0,
     sv_weight_pool = \<lparr>total_blocks = 0, free_blocks = 0, allocated_blocks = 0\<rparr>,
     sv_workspace_pool = \<lparr>total_blocks = 0, free_blocks = 0, allocated_blocks = 0\<rparr>,
     sv_sched = \<lparr>tcb = (\<lambda>i. \<lparr>t_id = (if i = 0 then 1 else 0), t_state = TASK_RUNNING, cpu_affinity = 0, assigned_cpu = 0, t_priority = 4,
         effective_priority = 4, pi_priority = 0, pi_mutexes_held = 0, deadline_ns = 0, wake_time_ns = 0, t_switches = 0, t_idle = False,
         wakeup_pending = False, t_generation = 0, ai_priority = 255\<rparr>),
       next_task_id = 2, cpu_rq = (\<lambda>_. \<lparr>rq_tasks = [], idle_task = None, zombie = None, ready_count = 0\<rparr>), current_task = (\<lambda>_. Some 0),
       cpu_steal_deques = (\<lambda>_. steal_deque_init), preempt_disabled = (\<lambda>_. False), task_count = 1, context_switches = 0, timer_ticks = 0,
       isolated_cores = 0, cpu_count = 1, ai_priority_actions = False, deadline_cfg = sched_set_default_deadline_thresholds, rr_next = 0,
       rebalance_tick_counter = 0, rebalance_migrations = 0, sleep_queue = []\<rparr>,
     sv_names = (\<lambda>_. ''shell''), sv_current = Some 0, sv_float = (\<lambda>_ _ _ _ _ _. [])\<rparr>"

theorem proc_tasks_read_witness:
  "\<exists>mem. read_proc_tasks demo_view 0 8 0 (replicate 8 CHR ''.'') = Some (20, mem) \<and> mem = ''1 shell'' @ [NUL]"
proof -
  let ?m = "replicate 8 CHR ''.''"
  have live: "live_tasks demo_view = [0]" by (simp add: live_tasks_def task_live_def demo_view_def upt_rec)
  have tx: "task_text demo_view 0 = ''1 shell running 4 0'' @ [NL]"
    by (simp add: task_text_def demo_view_def fmt_format_unsigned_def fmt_digits.simps digit_char_def)
  have "length (sv_names demo_view i) < 16" for i by (simp add: demo_view_def)
  then obtain us vs where u: "[0] = us @ vs"
    "read_proc_tasks demo_view 0 8 0 ?m = Some (int (length (concat (map (task_text demo_view) us))), printed 0 8 (concat (map (task_text demo_view) us)) ?m)"
    "vs \<noteq> [] \<longrightarrow> 8 \<le> length (concat (map (task_text demo_view) us))"
    using proc_tasks_read[of 8 0 ?m demo_view 0] unfolding live by auto
  then have "us = [0]" by (cases us) auto
  then show ?thesis using u(2) by (simp add: tx printed_def)
qed

section \<open>Where a mount ends up\<close>

text \<open>When the directory a mount should go into is missing, only the first component of its path is made: a mount at
  \<open>/data/a/fs\<close> appears as \<open>/data/fs\<close>.\<close>

lemma mount_skips_missing_directory:
  "\<exists>v. vfs_mount (Some ''/data/a/fs'') (Some ops) ctx boot_vfs = Some (Some 13, v) \<and>
     vfs_lookup (Some ''/data/fs'') v = Some (Some 13) \<and> vfs_lookup (Some ''/data/a/fs'') v = Some None"
  by (simp add: vfs_mount_def mount_parent_def mount_in_def vfs_lookup_def lookup_from.simps find_child_def same_name_def
      skip_slashes_def next_component_def add_child_def boot_eval Let_def)

end
