(* ===== verification/Spec2Isabelle.thy ===== *)
theory Spec2Isabelle
  imports PmmProps IpcProps IpcTableProps SchedProps PiMutexProps Sha256Props VfsProps
begin

text \<open>
  SLM-OS: a verification library for the kernel.

  SLM-OS is a small multiprocessor kernel written in C for running language models.  This library models the
  parts of the kernel whose behaviour is decided by their own code: the page allocator, inter-process
  communication, the scheduler with its mutexes, the SHA-256 hash, formatted output and the virtual filesystem.
  File names below are relative to \<open>src/\<close>.

  \<^bold>\<open>Conventions\<close> (theory Prelude).  Addresses, sizes and counters are naturals with the wrap-around of their C
  type written out (\<open>u64_add\<close>, \<open>u64_sub\<close>, \<open>u64_mul\<close>, \<open>u32_add\<close>); values whose bits matter are words.  A pointer
  is an address, an index or an \<open>option\<close>, and \<open>NULL\<close> is 0 or \<open>None\<close>.  An operation that can panic, read outside
  an array or run forever returns an \<open>option\<close> and \<open>None\<close> stands for these outcomes, so that a theorem with a
  result \<open>Some\<close> says the operation returns.  A section protected by a lock is one step.  Time, the calling CPU
  and what other parts of the kernel report are arguments.

  \<^bold>\<open>Physical memory manager\<close> (\<open>kernel/mm/pmm.c\<close>).
    \<^item> PmmState: the zone, the free lists as links between page descriptors, \<open>block_state[]\<close> and the size
      arithmetic.  PmmBlocks: aligned power-of-two blocks.  PmmBuddy: \<open>buddy_alloc\<close>, \<open>buddy_free\<close>,
      \<open>pmm_alloc_pages\<close>, \<open>pmm_alloc_pages_low\<close>, \<open>pmm_free_pages\<close> and \<open>pmm_get_stats\<close>.  PmmReserve and PmmInit:
      the reserve table, \<open>pmm_carve_reserves\<close>, \<open>pmm_add_region\<close> and \<open>pmm_init\<close>.
    \<^item> PmmCorrect and PmmAlloc: the invariant and its preservation while a block is split, merged, taken or
      returned.  PageAllocator: the contract of a page allocator as the locale \<open>page_allocator\<close>, with the
      isolation of clients proved from it; PmmApi interprets it on the model (\<open>pm\<close>).
    \<^item> PmmProps: initialisation frees exactly the memory regions less the reserves; allocation and release
      are exact and always return; double frees are refused; the counters are right.
    \<^item> Bounds: orders run up to \<open>MAX_ORDER\<close>; the loops of the source run on explicit fuel or on lists whose
      length bounds them, and the theorems show that they return.  \<open>log2_ceil\<close> does not end above \<open>2^63\<close>, and there
      it is \<open>None\<close>.

  \<^bold>\<open>Message queues and shared buffers\<close> (\<open>kernel/ipc/ipc.c\<close>).
    \<^item> IpcQueue: a queue of four ring buffers at the level of bytes and one attempt of \<open>msg_send\<close> and
      \<open>msg_recv\<close>, with the wait lists.  IpcMailbox: the interface \<open>priority_mailbox\<close> of a queue and its
      interpretation.  IpcSystem: tasks that block on one queue, as a step relation.
    \<^item> IpcTable: the tables of queues and buffers; creation, mapping and destruction on top of the page
      allocator, with the GPU allocator as a parameter.  IpcMemory: the pages in use as a multiset of blocks.
    \<^item> IpcProps: each level is a FIFO list, the order of service with its starvation bound, and the fate of blocked
      callers.  IpcTableProps: exact memory accounting over all calls, calls that return, the round trip of
      creation and destruction, and the conditions for destroying a buffer.

  \<^bold>\<open>Scheduler\<close> (\<open>kernel/sched/sched.c\<close>, \<open>sched_heuristic.c\<close>, \<open>task.c\<close>, \<open>task_sleep.c\<close>, \<open>steal_deque.c\<close>).
    \<^item> SchedState: tasks, run queues, effective priorities.  SchedOps: placement, removal, migration,
      stealing, rebalancing, dispatch, sleeping, termination and the \<open>kill\<close> command of
      \<open>kernel/src/shell_exec.c\<close>.  The placement policy is an argument; the heuristic one is modelled.
      StealDeque: the work-stealing deque with its 32-bit indices, refined to a bounded list.
    \<^item> SchedInv, SchedDispatch and SchedQuiet: the invariant, its preservation and what an operation leaves
      alone.  SchedSystem: all entry points as a step relation from boot.
    \<^item> SchedProps: a task is in at most one place, no call panics, what dispatch, wake-up, placement and stealing
      do, and where the code lets isolation and sleeping tasks down.

  \<^bold>\<open>Priority-inheriting mutexes\<close> (\<open>kernel/ipc/pi_mutex.c\<close>).  PiMutex: lock, trylock and unlock on top of the
  scheduler model; PiMutexProps: waiters, hand-off and inheritance.

  \<^bold>\<open>SHA-256\<close> (\<open>kernel/lib/sha256.c\<close>).  Sha256: the context and its operations with the tables of the source.
  Sha256Props: equality with the hash of FIPS 180-4, whose constants are defined there by the roots of primes, for
  every cut of a message into pieces.

  \<^bold>\<open>Formatted output\<close> (\<open>kernel/src/kprintf.c\<close>).  Kprintf: the format parser and both back ends.  KprintfProps:
  the text a format means, and that the buffer functions write its prefix and stay inside the buffer.

  \<^bold>\<open>Virtual filesystem\<close> (\<open>kernel/src/vfs.c\<close>).  Vfs: the node pool, lookup, paths, mounts and the virtual files,
  whose text comes from the formatted-output model and the task table of the scheduler.  VfsTree: the shape of
  the tree.  VfsProps: the tree stays a tree, paths and nodes correspond, and what a read returns.

  \<^bold>\<open>How the parts meet.\<close>  The IPC tables allocate through the interpreted contract \<open>pm\<close>; mutexes block,
  wake and boost tasks through the scheduler operations; the virtual files print with \<open>uart_snprintf\<close>.

  \<^bold>\<open>Not modelled.\<close>
    \<^item> The processor ports (\<open>kernel/arch\<close>), the kernel's own mappings, cache maintenance (\<open>kernel/mm/kbuf.c\<close>,
      \<open>ncmem.c\<close>), drivers, USB, GPU and accelerator support: their meaning is the reaction of hardware.
    \<^item> Third-party code (\<open>kernel/lib\<close> except \<open>sha256.c\<close>) and the glue around it (\<open>kernel/net\<close>, \<open>kernel/fs\<close>,
      Lua bindings).
    \<^item> Learned scheduling policies (\<open>kernel/sched/ai\<close>) and the Rust inference runtime (\<open>runtime\<close>): floating-point
      arithmetic over generated weights.  The policy is an argument of the scheduler model.
    \<^item> Interleavings inside a critical section, the memory order of the processor, and the instruction-level switch
      between tasks.  The theorems hold for executions in which each locked section is one step.
    \<^item> Shell commands other than \<open>kill\<close>, boot order, tests and host tools.
\<close>

end
